theory Spec2Isabelle
  imports Complex_Main "HOL-Library.AList" "HOL-Library.Sublist"
begin


section \<open>The PCM playback worklet (renderer/public/audio.worklet.js)\<close>

text \<open>
  JavaScript numbers that hold counts and indices are modelled as \<open>nat\<close>, sample values
  and millisecond parameters as exact rationals (the rounding of IEEE doubles and of
  Float32Array stores is not modelled). The shared array buffer is the record \<open>ring\<close>:
  the Int16Array \<open>storage\<close> and the two Uint32 cells \<open>writePointer\<close> and \<open>readPointer\<close>.
  Index arithmetic is on \<open>nat\<close>; it agrees with the source whenever the read pointer
  is below the storage length, which every theorem below assumes or establishes.
\<close>

definition RENDER_QUANTUM_FRAMES :: nat where
  "RENDER_QUANTUM_FRAMES = 128"

definition quantaFromMs :: "rat \<Rightarrow> rat \<Rightarrow> nat" where
  "quantaFromMs ms sr = nat (max 1 \<lceil>(ms / 1000) * sr / of_nat RENDER_QUANTUM_FRAMES\<rceil>)"

record ring =
  storage :: "int list"
  writePointer :: nat
  readPointer :: nat

record readInfo =
  readPos :: nat
  writePos :: nat
  available :: nat

definition getReadInfo :: "ring \<Rightarrow> readInfo" where
  "getReadInfo rb =
     (let rp = readPointer rb;
          wp = writePointer rb;
          av = (wp + length (storage rb) - rp) mod length (storage rb)
      in \<lparr>readPos = rp, writePos = wp, available = av\<rparr>)"

text \<open>\<open>xs.subarray(b, e)\<close>: the view from \<open>b\<close> up to \<open>e\<close>, clamped to the array.\<close>

definition subarray :: "'a list \<Rightarrow> nat \<Rightarrow> nat \<Rightarrow> 'a list" where
  "subarray xs b e = take (e - b) (drop b xs)"

text \<open>\<open>target.set(src, off)\<close> for a source that fits into the target (in \<open>readTo\<close> it
  always does, since \<open>first + second = readLength \<le> target.length\<close>).\<close>

definition set_at :: "'a list \<Rightarrow> 'a list \<Rightarrow> nat \<Rightarrow> 'a list" where
  "set_at target src off = take off target @ src @ drop (off + length src) target"

definition readTo :: "ring \<Rightarrow> int list \<Rightarrow> ring \<times> int list \<times> nat" where
  "readTo rb target =
     (let info = getReadInfo rb in
      if available info = 0 then (rb, target, 0)
      else
        let readLength = min (available info) (length target);
            first = min (length (storage rb) - readPos info) readLength;
            second = readLength - first;
            t1 = set_at target (subarray (storage rb) (readPos info) (readPos info + first)) 0;
            t2 = (if second > 0 then set_at t1 (subarray (storage rb) 0 second) first else t1)
        in (rb\<lparr>readPointer := (readPos info + readLength) mod length (storage rb)\<rparr>,
            t2, readLength))"

datatype portMsg = Underrun | Recovered

record pcm =
  channels :: nat
  reader :: ring
  readerOutput :: "int list"
  streamSR :: rat
  basePrerollQ :: nat
  targetPrerollQ :: nat
  maxPrerollQ :: nat
  primed :: bool
  stableBlocks :: nat
  softUnderruns :: nat
  hardUnderruns :: nat
  rampMs :: rat
  rampLen :: nat
  rampLeft :: nat
  needRamp :: bool
  xfFromL :: rat
  xfFromR :: rat
  xfFromM :: rat
  lastL :: rat
  lastR :: rat
  lastM :: rat
  reportedUnderrun :: bool
  port :: "portMsg list"

text \<open>
  \<open>processorOptions\<close>: an absent option (or one that is not a number) is \<open>None\<close>;
  \<open>opt_channels\<close> is the value of \<open>channels | 0\<close>. The first argument of
  \<open>constructor\<close> is the global \<open>sampleRate\<close> of the audio context.
\<close>

record processorOptions =
  opt_sab :: ring
  opt_channels :: int
  opt_streamSampleRate :: "rat option"
  opt_prerollMs :: "rat option"
  opt_maxPrerollMs :: "rat option"
  opt_rampMs :: "rat option"

definition constructor :: "rat \<Rightarrow> processorOptions \<Rightarrow> pcm" where
  "constructor sampleRate opts =
     (let ch = nat (max 1 (if opt_channels opts = 0 then 1 else opt_channels opts));
          sr = (case opt_streamSampleRate opts of
                  Some v \<Rightarrow> if v > 0 then v else sampleRate | None \<Rightarrow> sampleRate);
          rmp = (case opt_rampMs opts of Some v \<Rightarrow> if v \<ge> 0 then v else 8 | None \<Rightarrow> 8);
          baseMs = (case opt_prerollMs opts of Some v \<Rightarrow> if v > 0 then v else 8 | None \<Rightarrow> 8);
          maxMs = (case opt_maxPrerollMs opts of
                     Some v \<Rightarrow> if v > baseMs then v else 40 | None \<Rightarrow> 40)
      in \<lparr>channels = ch,
          reader = opt_sab opts,
          readerOutput = replicate (RENDER_QUANTUM_FRAMES * ch) 0,
          streamSR = sr,
          basePrerollQ = quantaFromMs baseMs sr,
          targetPrerollQ = quantaFromMs baseMs sr,
          maxPrerollQ = quantaFromMs maxMs sr,
          primed = False,
          stableBlocks = 0,
          softUnderruns = 0,
          hardUnderruns = 0,
          rampMs = rmp,
          rampLen = 0,
          rampLeft = 0,
          needRamp = True,
          xfFromL = 0, xfFromR = 0, xfFromM = 0,
          lastL = 0, lastR = 0, lastM = 0,
          reportedUnderrun = False,
          port = []\<rparr>)"

text \<open>The \<open>port.onmessage\<close> handler: \<open>msg.t\<close> and \<open>msg.ms\<close> (\<open>None\<close> when not a number).\<close>

record ctlMsg =
  msg_t :: string
  msg_ms :: "rat option"

definition onmessage :: "pcm \<Rightarrow> ctlMsg \<Rightarrow> pcm" where
  "onmessage st m =
     (if msg_t m = ''setPrerollMs'' \<and> (case msg_ms m of Some v \<Rightarrow> v > 0 | None \<Rightarrow> False) then
        let b = quantaFromMs (the (msg_ms m)) (streamSR st)
        in st\<lparr>basePrerollQ := b, targetPrerollQ := max (targetPrerollQ st) b\<rparr>
      else if msg_t m = ''setRampMs'' \<and> (case msg_ms m of Some v \<Rightarrow> v \<ge> 0 | None \<Rightarrow> False) then
        st\<lparr>rampMs := the (msg_ms m), needRamp := True, rampLeft := 0\<rparr>
      else st)"

definition toF32 :: "int \<Rightarrow> rat" where
  "toF32 s16 = of_int s16 / 32768"

definition beginRamp :: "pcm \<Rightarrow> pcm" where
  "beginRamp st =
     (let len = nat (max 1 \<lfloor>(streamSR st * rampMs st) / 1000\<rfloor>)
      in st\<lparr>rampLen := len, rampLeft := len,
            xfFromL := lastL st, xfFromR := lastR st, xfFromM := lastM st,
            needRamp := False\<rparr>)"

text \<open>
  The output of a render quantum is the list of channel arrays \<open>outputs[0]\<close>. A store
  \<open>out[c][f] = v\<close> is \<open>wr\<close> (a store beyond the end of a typed array is ignored, as
  \<open>list_update\<close> does), a load is \<open>rd\<close>, and \<open>out[c].fill(v)\<close> is \<open>fillc\<close>.
\<close>

definition wr :: "rat list list \<Rightarrow> nat \<Rightarrow> nat \<Rightarrow> rat \<Rightarrow> rat list list" where
  "wr out c f v = out[c := (out ! c)[f := v]]"

definition rd :: "rat list list \<Rightarrow> nat \<Rightarrow> nat \<Rightarrow> rat" where
  "rd out c f = out ! c ! f"

definition fillc :: "rat list list \<Rightarrow> nat \<Rightarrow> rat \<Rightarrow> rat list list" where
  "fillc out c v = out[c := replicate (length (out ! c)) v]"

definition fillFrom :: "nat \<Rightarrow> rat \<Rightarrow> rat list list \<Rightarrow> rat list list" where
  "fillFrom c0 v out = fold (\<lambda>c ob. fillc ob c v) [c0..<length out] out"

definition fillWithLast :: "pcm \<Rightarrow> rat list list \<Rightarrow> nat \<Rightarrow> rat list list" where
  "fillWithLast st out frames =
     (if length out \<ge> 2 \<and> channels st = 2 then
        fillFrom 2 0
          (fold (\<lambda>f ob. wr (wr ob 0 f (lastL st)) 1 f (lastR st)) [0..<frames] out)
      else
        fillFrom 1 (lastM st)
          (fold (\<lambda>f ob. wr ob 0 f (lastM st)) [0..<frames] out))"

text \<open>\<open>R = out[1] ?? out[0]\<close>: with a single output channel both names denote channel 0.\<close>

definition rightIdx :: "rat list list \<Rightarrow> nat" where
  "rightIdx out = (if length out \<ge> 2 then 1 else 0)"

definition rampCoeff :: "pcm \<Rightarrow> nat \<Rightarrow> rat" where
  "rampCoeff st k = of_int (int (rampLen st) - int (rampLeft st) + int k + 1) / of_nat (rampLen st)"

definition applyRampStereo :: "pcm \<Rightarrow> rat list list \<Rightarrow> nat \<Rightarrow> pcm \<times> rat list list" where
  "applyRampStereo st out written =
     (let n = min written (rampLeft st);
          o1 = fold (\<lambda>k ob.
                 let a = rampCoeff st k; b = 1 - a;
                     oL = wr ob 0 k (b * xfFromL st + a * rd ob 0 k)
                 in wr oL (rightIdx out) k (b * xfFromR st + a * rd oL (rightIdx out) k))
               [0..<n] out
      in (st\<lparr>rampLeft := rampLeft st - n\<rparr>, o1))"

definition applyRampMono :: "pcm \<Rightarrow> rat list list \<Rightarrow> nat \<Rightarrow> pcm \<times> rat list list" where
  "applyRampMono st out written =
     (let n = min written (rampLeft st);
          o1 = fold (\<lambda>k ob.
                 let a = rampCoeff st k; b = 1 - a
                 in wr ob 0 k (b * xfFromM st + a * rd ob 0 k))
               [0..<n] out
      in (st\<lparr>rampLeft := rampLeft st - n\<rparr>, o1))"

definition emitStereo :: "pcm \<Rightarrow> rat list list \<Rightarrow> nat \<Rightarrow> pcm \<times> rat list list" where
  "emitStereo st out framesGot =
     (let frames = RENDER_QUANTUM_FRAMES;
          r = rightIdx out;
          o1 = fold (\<lambda>f ob. wr (wr ob 0 f (toF32 (readerOutput st ! (2 * f))))
                              r f (toF32 (readerOutput st ! (2 * f + 1))))
               [0..<framesGot] out;
          (st2, o2) = (if rampLeft st > 0 then applyRampStereo st o1 framesGot else (st, o1));
          padL = (if framesGot \<noteq> 0 then rd o2 0 (framesGot - 1) else lastL st2);
          padR = (if framesGot \<noteq> 0 then rd o2 r (framesGot - 1) else lastR st2);
          o3 = fold (\<lambda>f ob. wr (wr ob 0 f padL) r f padR) [framesGot..<frames] o2;
          o4 = fillFrom 2 0 o3
      in (st2\<lparr>lastL := rd o4 0 (frames - 1), lastR := rd o4 r (frames - 1)\<rparr>, o4))"

definition emitMono :: "pcm \<Rightarrow> rat list list \<Rightarrow> nat \<Rightarrow> pcm \<times> rat list list" where
  "emitMono st out framesGot =
     (let frames = RENDER_QUANTUM_FRAMES;
          o1 = fold (\<lambda>f ob. wr ob 0 f (toF32 (readerOutput st ! f))) [0..<framesGot] out;
          (st2, o2) = (if rampLeft st > 0 then applyRampMono st o1 framesGot else (st, o1));
          pad = (if framesGot \<noteq> 0 then rd o2 0 (framesGot - 1) else lastM st2);
          o3 = fold (\<lambda>f ob. wr ob 0 f pad) [framesGot..<frames] o2;
          o4 = fillFrom 1 0 o3
      in (st2\<lparr>lastM := rd o4 0 (frames - 1)\<rparr>, o4))"

text \<open>The bookkeeping at the end of \<open>process\<close> (the last \<open>if\<close> of the method).\<close>

definition account :: "pcm \<Rightarrow> nat \<Rightarrow> pcm" where
  "account st framesGot =
     (if framesGot = RENDER_QUANTUM_FRAMES then
        let s1 = st\<lparr>stableBlocks := stableBlocks st + 1\<rparr>;
            s2 = (if stableBlocks s1 \<ge> 128 \<and> targetPrerollQ s1 > basePrerollQ s1
                  then s1\<lparr>targetPrerollQ := targetPrerollQ s1 - 1, stableBlocks := 0\<rparr>
                  else s1);
            s3 = s2\<lparr>softUnderruns := 0\<rparr>
        in (if reportedUnderrun s3
            then s3\<lparr>port := port s3 @ [Recovered], reportedUnderrun := False\<rparr>
            else s3)
      else
        let s1 = st\<lparr>needRamp := True, stableBlocks := 0, softUnderruns := softUnderruns st + 1\<rparr>
        in (if softUnderruns s1 \<ge> 4 \<and> targetPrerollQ s1 < maxPrerollQ s1
            then s1\<lparr>targetPrerollQ := targetPrerollQ s1 + 1, softUnderruns := 0\<rparr>
            else s1))"

text \<open>The hard-underrun branch (\<open>aligned === 0\<close>), after \<open>fillWithLast\<close>.\<close>

definition hardUnderrun :: "pcm \<Rightarrow> pcm" where
  "hardUnderrun st =
     (let s1 = st\<lparr>needRamp := True, primed := False, hardUnderruns := hardUnderruns st + 1\<rparr>;
          s2 = (if targetPrerollQ s1 < maxPrerollQ s1
                then s1\<lparr>targetPrerollQ := targetPrerollQ s1 + 1\<rparr> else s1);
          s3 = s2\<lparr>stableBlocks := 0, softUnderruns := 0\<rparr>
      in (if \<not> reportedUnderrun s3
          then s3\<lparr>port := port s3 @ [Underrun], reportedUnderrun := True\<rparr>
          else s3))"

text \<open>The samples \<open>process\<close> will ask the ring for: \<open>aligned\<close>.\<close>

definition alignedOf :: "pcm \<Rightarrow> nat" where
  "alignedOf st =
     (let want = min (length (readerOutput st)) (available (getReadInfo (reader st)))
      in want - want mod channels st)"

text \<open>The priming test at the head of \<open>process\<close>: true when the quantum stays silent.\<close>

definition priming :: "pcm \<Rightarrow> bool" where
  "priming st \<longleftrightarrow>
     \<not> primed st \<and>
     \<not> (available (getReadInfo (reader st))
          \<ge> targetPrerollQ st * (RENDER_QUANTUM_FRAMES * channels st))"

text \<open>The state change of the priming block when the preroll target is reached.\<close>

definition prime :: "pcm \<Rightarrow> pcm" where
  "prime st =
     (if \<not> primed st
      then st\<lparr>primed := True, needRamp := True, stableBlocks := 0,
              softUnderruns := 0, hardUnderruns := 0\<rparr>
      else st)"

text \<open>
  \<open>process\<close>; \<open>deliver\<close> is its part from \<open>reader.readTo\<close> to the end, for
  \<open>aligned > 0\<close>. The result of \<open>process\<close> is \<open>None\<close> where the source raises a TypeError: with no output
  channel at all, \<open>out[0]\<close> is undefined and the first store into it throws (in every
  branch but the silent one, which only loops over the channels present).
\<close>

definition deliver :: "pcm \<Rightarrow> rat list list \<Rightarrow> nat \<Rightarrow> pcm \<times> rat list list" where
  "deliver s0 out aligned =
     (let (rb, tgt, got) = readTo (reader s0) (subarray (readerOutput s0) 0 aligned);
          s1 = s0\<lparr>reader := rb, readerOutput := set_at (readerOutput s0) tgt 0\<rparr>;
          framesGot = got div channels s1;
          s2 = (if needRamp s1 \<and> rampLeft s1 = 0 then beginRamp s1 else s1);
          (s3, o3) = (if channels s2 = 2 then emitStereo s2 out framesGot
                      else emitMono s2 out framesGot)
      in (account s3 framesGot, o3))"

definition process :: "pcm \<Rightarrow> rat list list \<Rightarrow> (pcm \<times> rat list list) option" where
  "process st out =
     (if priming st then Some (st, fillFrom 0 0 out)
      else
        let s0 = prime st;
            aligned = alignedOf s0
        in if out = [] then None
           else if aligned = 0 then
             Some (hardUnderrun s0, fillWithLast s0 out RENDER_QUANTUM_FRAMES)
           else Some (deliver s0 out aligned))"

subsection \<open>The producer side and runs of the worklet\<close>

text \<open>
  Modelled from the spec: the writer of the PCM ring (the decode side, in the PcmPlayer
  library, which is not among the sources). The spec, section 4.6: both indices are
  modulo N; the writer never overwrites unread data; if it would, samples are dropped
  at the writer and a drop counter is incremented; \<open>(writer - reader) mod N \<le> N - 1\<close>.
  \<open>ringWrite\<close> stores the samples that fit and returns the number of dropped ones.
\<close>

definition ringWrite :: "ring \<Rightarrow> int list \<Rightarrow> ring \<times> nat" where
  "ringWrite rb xs =
     (let n = length (storage rb);
          free = n - 1 - available (getReadInfo rb);
          acc = take free xs;
          w = writePointer rb;
          first = min (n - w) (length acc);
          s1 = set_at (storage rb) (take first acc) w;
          s2 = set_at s1 (drop first acc) 0
      in (rb\<lparr>storage := s2, writePointer := (w + length acc) mod n\<rparr>,
          length xs - length acc))"

text \<open>
  What happens to a worklet: the producer writes samples, the audio thread asks for a
  render quantum with the output arrays \<open>out\<close>, or a control message arrives.
\<close>

datatype wev = Write "int list" | Quantum "rat list list" | Control ctlMsg

fun wstep :: "pcm \<Rightarrow> wev \<Rightarrow> pcm option" where
  "wstep st (Write xs) = Some (st\<lparr>reader := fst (ringWrite (reader st) xs)\<rparr>)"
| "wstep st (Quantum out) = map_option fst (process st out)"
| "wstep st (Control m) = Some (onmessage st m)"

fun wrun :: "pcm \<Rightarrow> wev list \<Rightarrow> pcm option" where
  "wrun st [] = Some st"
| "wrun st (e # es) = (case wstep st e of None \<Rightarrow> None | Some st' \<Rightarrow> wrun st' es)"

definition ring_ok :: "ring \<Rightarrow> bool" where
  "ring_ok rb \<longleftrightarrow>
     0 < length (storage rb) \<and> readPointer rb < length (storage rb) \<and>
     writePointer rb < length (storage rb)"

definition wf :: "pcm \<Rightarrow> bool" where
  "wf st \<longleftrightarrow>
     ring_ok (reader st) \<and> 1 \<le> channels st \<and>
     length (readerOutput st) = RENDER_QUANTUM_FRAMES * channels st \<and>
     1 \<le> basePrerollQ st \<and> basePrerollQ st \<le> targetPrerollQ st"

text \<open>The \<open>k\<close> samples that follow the read pointer in the ring, in order.\<close>

definition ringContents :: "ring \<Rightarrow> nat \<Rightarrow> int list" where
  "ringContents rb k =
     map (\<lambda>i. storage rb ! ((readPointer rb + i) mod length (storage rb))) [0..<k]"

text \<open>A quantum that delivers 128 frames: the worklet is primed, or primes now, and a
  whole quantum of samples is available.\<close>

definition fullQuantum :: "pcm \<Rightarrow> bool" where
  "fullQuantum st \<longleftrightarrow>
     \<not> priming st \<and>
     RENDER_QUANTUM_FRAMES * channels st \<le> available (getReadInfo (reader st))"


subsection \<open>Histories of the shared ring\<close>

text \<open>
  A history of one ring: the producer writes (\<open>W xs\<close>) and the consumer calls
  \<open>readTo\<close> with some target array (\<open>R target\<close>). Beside the ring, the history keeps
  the samples the writer stored (the dropped ones left out) and the samples the reads
  returned, each in order.
\<close>

datatype rev = W "int list" | R "int list"

record trace =
  tr_ring :: ring
  written :: "int list"
  readSeq :: "int list"

fun ringStep :: "trace \<Rightarrow> rev \<Rightarrow> trace" where
  "ringStep t (W xs) =
     (let (rb, dropped) = ringWrite (tr_ring t) xs
      in t\<lparr>tr_ring := rb, written := written t @ take (length xs - dropped) xs\<rparr>)"
| "ringStep t (R target) =
     (let (rb, tgt, k) = readTo (tr_ring t) target
      in t\<lparr>tr_ring := rb, readSeq := readSeq t @ take k tgt\<rparr>)"

definition ringRun :: "ring \<Rightarrow> rev list \<Rightarrow> trace" where
  "ringRun rb evs = foldl ringStep \<lparr>tr_ring = rb, written = [], readSeq = []\<rparr> evs"

subsection \<open>Auxiliary notions for the proofs about the worklet\<close>

text \<open>\<open>sameCtl a b\<close>: the two states agree on every field but the ring, the scratch
  array, the ramp position and the held samples.\<close>

definition sameCtl :: "pcm \<Rightarrow> pcm \<Rightarrow> bool" where
  "sameCtl a b \<longleftrightarrow>
     primed a = primed b \<and> targetPrerollQ a = targetPrerollQ b \<and>
     basePrerollQ a = basePrerollQ b \<and> maxPrerollQ a = maxPrerollQ b \<and>
     stableBlocks a = stableBlocks b \<and> softUnderruns a = softUnderruns b \<and>
     hardUnderruns a = hardUnderruns b \<and> reportedUnderrun a = reportedUnderrun b \<and>
     port a = port b \<and> channels a = channels b \<and> streamSR a = streamSR b \<and>
     rampMs a = rampMs b"

text \<open>The invariant of ring histories: what was written is what was read, followed by
  what the ring still holds.\<close>

definition trace_inv :: "trace \<Rightarrow> bool" where
  "trace_inv t \<longleftrightarrow> ring_ok (tr_ring t) \<and>
     written t = readSeq t @ ringContents (tr_ring t) (available (getReadInfo (tr_ring t)))"

text \<open>A concrete worklet: mono, 48 kHz, a ring of 1024 samples, all options left out.\<close>

definition demo_opts :: processorOptions where
  "demo_opts = \<lparr>opt_sab = \<lparr>storage = replicate 1024 0, writePointer = 0, readPointer = 0\<rparr>,
      opt_channels = 1, opt_streamSampleRate = None, opt_prerollMs = None,
      opt_maxPrerollMs = None, opt_rampMs = None\<rparr>"

text \<open>A ring of four samples and a history with a dropped write and a wrap-around.\<close>

definition demo_ring :: ring where
  "demo_ring = \<lparr>storage = [0, 0, 0, 0], writePointer = 0, readPointer = 0\<rparr>"

definition demo_history :: "rev list" where
  "demo_history = [W [1, 2, 3, 4, 5], R [0, 0], W [6, 7], R [0, 0, 0, 0, 0]]"

text \<open>
  Not part of the source: the closed form against which the output loops of \<open>process\<close>
  are compared. \<open>crossfade st from k v\<close> is frame \<open>k\<close> of a quantum whose ramp is that
  of \<open>st\<close>: while the ramp lasts, the sample \<open>v\<close> blended with the held sample
  \<open>from\<close>, with the weight \<open>rampCoeff\<close> on the new sample; after it, \<open>v\<close> itself.
  \<open>expectedOutput st out\<close> is what a quantum that delivers 128 frames in the state \<open>st\<close>
  leaves in the output arrays \<open>out\<close>: the next samples of the ring, scaled by \<open>toF32\<close>
  and de-interleaved, under the ramp (a new one where one is needed and none is under
  way, else the rest of the one under way), and zeros in the further channels. With a
  stereo stream and a single output array both channels are written to that array, so
  that it holds the right channel, ramped twice.
\<close>

definition crossfade :: "pcm \<Rightarrow> rat \<Rightarrow> nat \<Rightarrow> rat \<Rightarrow> rat" where
  "crossfade st from k v =
     (if k < rampLeft st then (1 - rampCoeff st k) * from + rampCoeff st k * v else v)"

definition expectedOutput :: "pcm \<Rightarrow> rat list list \<Rightarrow> rat list list" where
  "expectedOutput st out =
     (let r = (if (needRamp st \<or> \<not> primed st) \<and> rampLeft st = 0 then beginRamp st else st);
          smp = ringContents (reader st) (RENDER_QUANTUM_FRAMES * channels st);
          v = (\<lambda>i. toF32 (smp ! i))
      in if channels st \<noteq> 2 then
           map (\<lambda>f. crossfade r (xfFromM r) f (v f)) [0..<RENDER_QUANTUM_FRAMES]
           # map (\<lambda>c. replicate (length c) 0) (tl out)
         else if 2 \<le> length out then
           map (\<lambda>f. crossfade r (xfFromL r) f (v (2 * f))) [0..<RENDER_QUANTUM_FRAMES]
           # map (\<lambda>f. crossfade r (xfFromR r) f (v (2 * f + 1))) [0..<RENDER_QUANTUM_FRAMES]
           # map (\<lambda>c. replicate (length c) 0) (drop 2 out)
         else
           [map (\<lambda>f. crossfade r (xfFromR r) f (crossfade r (xfFromL r) f (v (2 * f + 1))))
                [0..<RENDER_QUANTUM_FRAMES]])"

subsection \<open>Notions for the adaptive preroll\<close>

text \<open>
  \<open>alternates\<close>: no message is posted twice in a row. \<open>fullRun st evs\<close>: in the run
  of \<open>evs\<close> from \<open>st\<close>, made of producer writes and render quanta only, every quantum
  delivers 128 frames. \<open>nQuanta\<close> counts the quanta of a run; \<open>esb\<close> is the count of
  stable blocks the next full quantum starts from.
\<close>

fun alternates :: "portMsg list \<Rightarrow> bool" where
  "alternates (a # b # ms) = (a \<noteq> b \<and> alternates (b # ms))"
| "alternates ms = True"

definition port_inv :: "pcm \<Rightarrow> bool" where
  "port_inv st \<longleftrightarrow>
     alternates (port st) \<and> (port st \<noteq> [] \<longrightarrow> hd (port st) = Underrun) \<and>
     (reportedUnderrun st \<longleftrightarrow> port st \<noteq> [] \<and> last (port st) = Underrun)"

fun isQuantum :: "wev \<Rightarrow> bool" where
  "isQuantum (Quantum out) = True"
| "isQuantum e = False"

definition nQuanta :: "wev list \<Rightarrow> nat" where
  "nQuanta evs = length (filter isQuantum evs)"

fun fullRun :: "pcm \<Rightarrow> wev list \<Rightarrow> bool" where
  "fullRun st [] = True"
| "fullRun st (Write xs # es) = fullRun (st\<lparr>reader := fst (ringWrite (reader st) xs)\<rparr>) es"
| "fullRun st (Quantum out # es) =
     (fullQuantum st \<and>
      (case process st out of None \<Rightarrow> False | Some (s', out') \<Rightarrow> fullRun s' es))"
| "fullRun st (Control m # es) = False"

definition esb :: "pcm \<Rightarrow> nat" where
  "esb st = (if primed st then stableBlocks st else 0)"


text \<open>
  Concrete runs. \<open>ce_state\<close>: an 8 kHz stream with \<open>prerollMs = 60\<close> (base preroll 4
  quanta, above the maximum of 3 quanta that the default 40 ms gives), primed by 512
  samples and drained by four quanta. \<open>demo_drained\<close>: the 48 kHz worklet of
  \<open>demo_opts\<close>, primed by 384 samples and drained by three quanta; \<open>demo_refill\<close>
  primes it again with 512 samples and then feeds one quantum for each quantum played,
  128 quanta in all.
\<close>

definition ce_opts :: processorOptions where
  "ce_opts = \<lparr>opt_sab = \<lparr>storage = replicate 1024 0, writePointer = 0, readPointer = 0\<rparr>,
      opt_channels = 1, opt_streamSampleRate = Some 8000, opt_prerollMs = Some 60,
      opt_maxPrerollMs = None, opt_rampMs = None\<rparr>"

definition ce_events :: "wev list" where
  "ce_events = Write (replicate 512 7) # replicate 4 (Quantum [replicate 128 0])"

definition ce_state :: pcm where
  "ce_state = the (wrun (constructor 48000 ce_opts) ce_events)"

definition demo_events :: "wev list" where
  "demo_events = Write (replicate 384 7) # replicate 3 (Quantum [replicate 128 0])"

definition demo_drained :: pcm where
  "demo_drained = the (wrun (constructor 48000 demo_opts) demo_events)"

definition demo_refill :: "wev list" where
  "demo_refill = Write (replicate 512 7) # Quantum [replicate 128 0] #
     concat (replicate 127 [Write (replicate 128 7), Quantum [replicate 128 0]])"


section \<open>The session layer of the main process\<close>

subsection \<open>Messages, the microphone and timers\<close>

text \<open>
  The message classes are declared in \<open>carplay/messages\<close>, which is not among the
  sources; the handlers only test the class of a message and read the fields below.
  An absent field (\<open>undefined\<close>) is \<open>None\<close>. \<open>AudioOther\<close> stands for every audio
  command the handlers do not name. \<open>ad_data\<close> is the byte buffer behind \<open>msg.data\<close>.
\<close>

datatype AudioCommand =
  AudioSiriStart | AudioSiriStop | AudioPhonecallStart | AudioPhonecallStop | AudioOther nat

record audioData =
  decodeType :: nat
  audioType :: nat
  command :: "AudioCommand option"
  ad_data :: "nat list option"

record videoData =
  width :: nat
  height :: nat
  vd_data :: "nat list option"

datatype message =
  Plugged nat
| Unplugged
| VideoData videoData
| AudioData audioData
| MediaData bool
| Command nat
| OtherMessage

text \<open>
  \<open>node/Microphone.ts\<close>. The state of a \<open>Microphone\<close> is whether \<open>this.process\<close> holds a
  recorder process. \<open>start\<close> first stops, then spawns the recorder where the platform
  has one: \<open>arecord\<close> on Linux, SoX on macOS if \<open>rec\<close> is found (\<open>Darwin True\<close>). The
  later exit of the recorder, which clears the field again, is not modelled.
\<close>

datatype platform = Linux | Darwin bool | OtherOS

record microphone =
  proc :: bool

definition mic_stop :: "microphone \<Rightarrow> microphone" where
  "mic_stop m = m\<lparr>proc := False\<rparr>"

definition mic_start :: "platform \<Rightarrow> microphone \<Rightarrow> microphone" where
  "mic_start plat m =
     (let m1 = mic_stop m
      in case plat of
           Linux \<Rightarrow> m1\<lparr>proc := True\<rparr>
         | Darwin recFound \<Rightarrow> (if recFound then m1\<lparr>proc := True\<rparr> else m1)
         | OtherOS \<Rightarrow> m1)"

text \<open>What is handed to \<open>driver.send\<close>.\<close>

datatype sendable = SendCommand string | SendAudio "nat list"

text \<open>
  The timeouts of the event loop. \<open>pending\<close> lists the timeouts that are set and have
  neither run nor been cleared, each with the handle that \<open>setTimeout\<close> returned for it
  and the time (in ms) at which it is due. \<open>setTimeout\<close> adds a timeout under a fresh
  handle and leaves the pending ones alone; \<open>clearTimeout\<close> removes the timeout of
  the handle it is given, if that is still pending. When time passes, the timeouts due
  by then run their callbacks (\<open>dueBy\<close>) and are no longer pending (\<open>expire\<close>). A
  field that holds a handle keeps it when the timeout has run.
\<close>

record timeouts =
  pending :: "(nat \<times> nat) list"
  nextHandle :: nat

definition noTimeouts :: timeouts where
  "noTimeouts = \<lparr>pending = [], nextHandle = 0\<rparr>"

definition setTimeout :: "nat \<Rightarrow> timeouts \<Rightarrow> nat \<times> timeouts" where
  "setTimeout due ts =
     (nextHandle ts,
      ts\<lparr>pending := pending ts @ [(nextHandle ts, due)], nextHandle := nextHandle ts + 1\<rparr>)"

definition clearTimeout :: "nat \<Rightarrow> timeouts \<Rightarrow> timeouts" where
  "clearTimeout h ts = ts\<lparr>pending := filter (\<lambda>p. fst p \<noteq> h) (pending ts)\<rparr>"

definition dueBy :: "nat \<Rightarrow> timeouts \<Rightarrow> (nat \<times> nat) list" where
  "dueBy now ts = filter (\<lambda>p. snd p \<le> now) (pending ts)"

definition expire :: "nat \<Rightarrow> timeouts \<Rightarrow> timeouts" where
  "expire now ts = ts\<lparr>pending := filter (\<lambda>p. \<not> snd p \<le> now) (pending ts)\<rparr>"

subsection \<open>The Carplay wrapper of the node driver\<close>

text \<open>
  The class \<open>Carplay\<close> (the second unnamed source file). Its state: the field
  \<open>_pairTimeout\<close> (a handle, or \<open>None\<close> for \<open>null\<close>), the timeouts of the event loop,
  the period of the frame interval (its ticks are not modelled), the microphone made
  in the constructor, what went to \<open>onmessage\<close> and to the driver, and the clock.
  Of the configuration it keeps, \<open>phoneConfig\<close> maps a phone type to its
  \<open>frameInterval\<close>, and \<open>audioTransferMode\<close> is the field of that name, which no
  method of the class reads.
\<close>

datatype carplayMessage =
  CmPlugged | CmUnplugged | CmFailure | CmAudio audioData | CmVideo videoData
| CmMedia bool | CmCommand nat

record carplay =
  cp_audioTransferMode :: bool
  cp_pairTimeout :: "nat option"
  cp_timeouts :: timeouts
  cp_frameInterval :: "nat option"
  cp_phoneConfig :: "nat \<Rightarrow> nat option"
  cp_mic :: microphone
  cp_emitted :: "carplayMessage list"
  cp_sent :: "sendable list"
  cp_now :: nat

definition cp_clearPairTimeout :: "carplay \<Rightarrow> carplay" where
  "cp_clearPairTimeout st =
     (case cp_pairTimeout st of
        None \<Rightarrow> st
      | Some h \<Rightarrow> st\<lparr>cp_timeouts := clearTimeout h (cp_timeouts st), cp_pairTimeout := None\<rparr>)"

definition cp_clearFrameInterval :: "carplay \<Rightarrow> carplay" where
  "cp_clearFrameInterval st = st\<lparr>cp_frameInterval := None\<rparr>"

definition cp_emit :: "carplayMessage \<Rightarrow> carplay \<Rightarrow> carplay" where
  "cp_emit ev st = st\<lparr>cp_emitted := cp_emitted st @ [ev]\<rparr>"

text \<open>The first \<open>if\<close> chain of the driver's \<open>message\<close> handler.\<close>

definition cp_dispatch :: "carplay \<Rightarrow> message \<Rightarrow> carplay" where
  "cp_dispatch st m =
     (case m of
        Plugged phoneType \<Rightarrow>
          (let s1 = cp_clearFrameInterval (cp_clearPairTimeout st);
               s2 = (case cp_phoneConfig s1 phoneType of
                       Some period \<Rightarrow>
                         if period \<noteq> 0 then s1\<lparr>cp_frameInterval := Some period\<rparr> else s1
                     | None \<Rightarrow> s1)
           in cp_emit CmPlugged s2)
      | Unplugged \<Rightarrow> cp_emit CmUnplugged st
      | VideoData v \<Rightarrow> cp_emit (CmVideo v) (cp_clearPairTimeout st)
      | AudioData a \<Rightarrow> cp_emit (CmAudio a) (cp_clearPairTimeout st)
      | MediaData p \<Rightarrow> cp_emit (CmMedia p) (cp_clearPairTimeout st)
      | Command c \<Rightarrow> cp_emit (CmCommand c) st
      | OtherMessage \<Rightarrow> st)"

text \<open>The second part of the handler: the microphone follows the audio commands.\<close>

definition cp_micRouting :: "platform \<Rightarrow> carplay \<Rightarrow> message \<Rightarrow> carplay" where
  "cp_micRouting plat st m =
     (case m of
        AudioData a \<Rightarrow>
          (case command a of
             None \<Rightarrow> st
           | Some AudioSiriStart \<Rightarrow> st\<lparr>cp_mic := mic_start plat (cp_mic st)\<rparr>
           | Some AudioPhonecallStart \<Rightarrow> st\<lparr>cp_mic := mic_start plat (cp_mic st)\<rparr>
           | Some AudioSiriStop \<Rightarrow> st\<lparr>cp_mic := mic_stop (cp_mic st)\<rparr>
           | Some AudioPhonecallStop \<Rightarrow> st\<lparr>cp_mic := mic_stop (cp_mic st)\<rparr>
           | Some (AudioOther c) \<Rightarrow> st)
      | _ \<Rightarrow> st)"

definition cp_onDriverMessage :: "platform \<Rightarrow> carplay \<Rightarrow> message \<Rightarrow> carplay" where
  "cp_onDriverMessage plat st m = cp_micRouting plat (cp_dispatch st m) m"

text \<open>
  \<open>initialiseAfterReconnect\<close>, where the dongle is found and the driver starts: a
  pair timeout is set, due 15000 ms from now, and its handle is assigned to the field.
  A timeout that an earlier call set stays pending; only its handle is lost. \<open>stop\<close>
  clears both timers (closing the driver is not modelled).
\<close>

definition cp_initialiseAfterReconnect :: "carplay \<Rightarrow> carplay" where
  "cp_initialiseAfterReconnect st =
     (let (h, ts) = setTimeout (cp_now st + 15000) (cp_timeouts st)
      in st\<lparr>cp_timeouts := ts, cp_pairTimeout := Some h\<rparr>)"

definition cp_stop :: "carplay \<Rightarrow> carplay" where
  "cp_stop st = cp_clearFrameInterval (cp_clearPairTimeout st)"

text \<open>
  Time passes: the clock advances, and every pending timeout that is due by then runs
  its callback, which sends \<open>wifiPair\<close> (the class sets no other timeout); the field
  keeps its handle.
\<close>

definition cp_elapse :: "carplay \<Rightarrow> nat \<Rightarrow> carplay" where
  "cp_elapse st d =
     (let now = cp_now st + d
      in st\<lparr>cp_now := now,
            cp_sent := cp_sent st @
              map (\<lambda>p. SendCommand ''wifiPair'') (dueBy now (cp_timeouts st)),
            cp_timeouts := expire now (cp_timeouts st)\<rparr>)"

text \<open>A session of the wrapper: messages from the driver, time passing, and \<open>stop\<close>.\<close>

datatype sev = Recv message | Elapse nat | Stop

fun cp_step :: "platform \<Rightarrow> carplay \<Rightarrow> sev \<Rightarrow> carplay" where
  "cp_step plat st (Recv m) = cp_onDriverMessage plat st m"
| "cp_step plat st (Elapse d) = cp_elapse st d"
| "cp_step plat st Stop = cp_stop st"

definition cp_run :: "platform \<Rightarrow> carplay \<Rightarrow> sev list \<Rightarrow> carplay" where
  "cp_run plat st evs = foldl (cp_step plat) st evs"

definition cp_new :: "bool \<Rightarrow> (nat \<Rightarrow> nat option) \<Rightarrow> carplay" where
  "cp_new atm phoneCfg =
     \<lparr>cp_audioTransferMode = atm, cp_pairTimeout = None, cp_timeouts = noTimeouts,
      cp_frameInterval = None, cp_phoneConfig = phoneCfg,
      cp_mic = \<lparr>proc = False\<rparr>, cp_emitted = [], cp_sent = [], cp_now = 0\<rparr>"

text \<open>How often \<open>wifiPair\<close> was sent, how much time a run takes, and the messages that
  make the wrapper clear its pair timeout.\<close>

definition wifiPairs :: "sendable list \<Rightarrow> nat" where
  "wifiPairs xs = length (filter (\<lambda>x. x = SendCommand ''wifiPair'') xs)"

fun duration :: "sev list \<Rightarrow> nat" where
  "duration [] = 0"
| "duration (Elapse d # es) = d + duration es"
| "duration (e # es) = duration es"

fun cancels :: "sev \<Rightarrow> bool" where
  "cancels (Recv (Plugged p)) = True"
| "cancels (Recv (VideoData v)) = True"
| "cancels (Recv (AudioData a)) = True"
| "cancels (Recv (MediaData p)) = True"
| "cancels Stop = True"
| "cancels e = False"

fun isMedia :: "sev \<Rightarrow> bool" where
  "isMedia (Recv (VideoData v)) = True"
| "isMedia (Recv (AudioData a)) = True"
| "isMedia (Recv (MediaData p)) = True"
| "isMedia e = False"


subsection \<open>CarplayService\<close>

text \<open>
  The class \<open>CarplayService\<close> (the third unnamed source file). What the service sends
  to the renderer through \<open>webContents.send\<close> is the list \<open>sv_toRenderer\<close>; an
  envelope of \<open>sendChunked\<close> carries the spread \<open>extra\<close> beside its own fields.
  \<open>decodeTypeMap\<close> is not among the sources: the handler takes it as the parameter
  \<open>dtm\<close>, and the identifier that \<open>Math.random\<close> gives as the parameter \<open>rid\<close>.
\<close>

record audioMeta =
  am_codec :: string
  am_frequency :: nat
  am_channel :: nat
  am_bitDepth :: nat

record envelope =
  env_id :: string
  env_offset :: nat
  env_total :: nat
  env_isLast :: bool
  env_chunk :: "nat list"

datatype rendererEvent =
  EvPlugged | EvUnplugged | EvResolution nat nat | EvAudioInfo audioMeta | EvMedia
| EvCommand nat | EvFailure | VideoChunk envelope | AudioChunk envelope audioData

datatype micCall = MicStart | MicStop

record service =
  sv_webContents :: bool
  sv_audioTransferMode :: bool
  sv_mic :: "microphone option"
  sv_micLog :: "micCall list"
  sv_started :: bool
  sv_stopping :: bool
  sv_shuttingDown :: bool
  sv_isStarting :: bool
  sv_isStopping :: bool
  sv_audioInfoSent :: bool
  sv_firstFrameLogged :: bool
  sv_pairTimeout :: "nat option"
  sv_timeouts :: timeouts
  sv_frameInterval :: "nat option"
  sv_deviceFound :: bool
  sv_userConfig :: "bool option"
  sv_toRenderer :: "rendererEvent list"
  sv_sent :: "sendable list"
  sv_now :: nat

text \<open>
  The loop of \<open>sendChunked\<close>, from \<open>offset\<close> on. With a chunk size of 0 the loop of
  the source would never end; that is the value \<open>None\<close>. The service only passes the
  sizes \<open>512 * 1024\<close> and \<open>64 * 1024\<close>.
\<close>

function chunkLoop :: "string \<Rightarrow> nat \<Rightarrow> nat list \<Rightarrow> nat \<Rightarrow> envelope list option" where
  "chunkLoop rid chunkSize dat offset =
     (if offset < length dat then
        (if chunkSize = 0 then None
         else
           let e = min (offset + chunkSize) (length dat);
               env = \<lparr>env_id = rid, env_offset = offset, env_total = length dat,
                      env_isLast = (e \<ge> length dat),
                      env_chunk = take (e - offset) (drop offset dat)\<rparr>
           in map_option ((#) env) (chunkLoop rid chunkSize dat e))
      else Some [])"
  by pat_completeness auto
termination
  by (relation "measure (\<lambda>(rid, chunkSize, dat, offset). length dat - offset)") auto

definition sv_send :: "rendererEvent \<Rightarrow> service \<Rightarrow> service" where
  "sv_send ev st = st\<lparr>sv_toRenderer := sv_toRenderer st @ [ev]\<rparr>"

text \<open>\<open>sendChunked\<close>: nothing without a renderer or without data.\<close>

definition sendChunked ::
  "(envelope \<Rightarrow> rendererEvent) \<Rightarrow> string \<Rightarrow> nat list option \<Rightarrow> nat \<Rightarrow> service \<Rightarrow> service option"
where
  "sendChunked mk rid dat chunkSize st =
     (if \<not> sv_webContents st then Some st
      else case dat of
             None \<Rightarrow> Some st
           | Some d \<Rightarrow>
               map_option (\<lambda>envs. st\<lparr>sv_toRenderer := sv_toRenderer st @ map mk envs\<rparr>)
                 (chunkLoop rid chunkSize d 0))"

definition sv_clearTimeouts :: "service \<Rightarrow> service" where
  "sv_clearTimeouts st =
     (let s1 = (case sv_pairTimeout st of
                  None \<Rightarrow> st
                | Some h \<Rightarrow>
                    st\<lparr>sv_timeouts := clearTimeout h (sv_timeouts st), sv_pairTimeout := None\<rparr>)
      in s1\<lparr>sv_frameInterval := None\<rparr>)"

text \<open>
  \<open>start\<close> up to its first \<open>await\<close>: the configuration file is read (\<open>sv_userConfig\<close>
  is its \<open>audioTransferMode\<close>, if it has one) and the dongle is looked up; without a
  dongle the call ends there. \<open>sv_startDone ok\<close> is the rest of \<open>start\<close>, when opening
  the device and starting the driver succeeded (\<open>ok\<close>) or threw.
\<close>

definition sv_start :: "service \<Rightarrow> service" where
  "sv_start st =
     (if sv_started st then st
      else if sv_isStarting st then st
      else
        let s1 = st\<lparr>sv_audioTransferMode :=
                      (case sv_userConfig st of Some b \<Rightarrow> b | None \<Rightarrow> sv_audioTransferMode st)\<rparr>
        in if \<not> sv_deviceFound s1 then s1 else s1\<lparr>sv_isStarting := True\<rparr>)"

definition sv_startDone :: "bool \<Rightarrow> service \<Rightarrow> service" where
  "sv_startDone ok st =
     (if ok then
        let (h, ts) = setTimeout (sv_now st + 15000) (sv_timeouts st)
        in st\<lparr>sv_timeouts := ts, sv_pairTimeout := Some h, sv_started := True,
              sv_audioInfoSent := False, sv_firstFrameLogged := False, sv_isStarting := False\<rparr>
      else st\<lparr>sv_started := False, sv_isStarting := False\<rparr>)"

text \<open>\<open>stop\<close> up to its first \<open>await\<close>, and the rest of it.\<close>

definition sv_stop :: "service \<Rightarrow> service" where
  "sv_stop st =
     (if sv_isStopping st then st
      else if \<not> sv_started st \<or> sv_stopping st then st
      else (sv_clearTimeouts (st\<lparr>sv_stopping := True, sv_isStopping := True\<rparr>)))"

definition sv_micStop :: "service \<Rightarrow> service" where
  "sv_micStop st =
     (case sv_mic st of
        None \<Rightarrow> st
      | Some m \<Rightarrow> st\<lparr>sv_mic := Some (mic_stop m), sv_micLog := sv_micLog st @ [MicStop]\<rparr>)"

definition sv_stopDone :: "service \<Rightarrow> service" where
  "sv_stopDone st =
     (sv_micStop st)\<lparr>sv_started := False, sv_audioInfoSent := False,
        sv_firstFrameLogged := False, sv_stopping := False, sv_isStopping := False\<rparr>"



definition sv_audioCommand :: "platform \<Rightarrow> service \<Rightarrow> AudioCommand \<Rightarrow> service" where
  "sv_audioCommand plat st c =
     (if c = AudioSiriStart \<or> c = AudioPhonecallStart then
        (if sv_audioTransferMode st then st
         else
           let m = (case sv_mic st of None \<Rightarrow> \<lparr>proc = False\<rparr> | Some m \<Rightarrow> m)
           in st\<lparr>sv_mic := Some (mic_start plat m), sv_micLog := sv_micLog st @ [MicStart]\<rparr>)
      else if c = AudioSiriStop \<or> c = AudioPhonecallStop then sv_micStop st
      else st)"

text \<open>The data branch of the \<open>AudioData\<close> case.\<close>

definition sv_audioChunks ::
  "(nat \<Rightarrow> audioMeta option) \<Rightarrow> string \<Rightarrow> service \<Rightarrow> audioData \<Rightarrow> service option" where
  "sv_audioChunks dtm rid st a =
     (case sendChunked (\<lambda>e. AudioChunk e a) rid (ad_data a) (64 * 1024) st of
        None \<Rightarrow> None
      | Some s1 \<Rightarrow>
          Some (if \<not> sv_audioInfoSent s1 then
                  (case dtm (decodeType a) of
                     Some meta \<Rightarrow> (sv_send (EvAudioInfo meta) s1)\<lparr>sv_audioInfoSent := True\<rparr>
                   | None \<Rightarrow> s1)
                else s1))"

text \<open>
  The driver's \<open>message\<close> handler. In the \<open>MediaData\<close> case the update of the file
  \<open>mediaData.json\<close> is not modelled. The result is \<open>None\<close> only where \<open>chunkLoop\<close> is.
\<close>

definition sv_onDriverMessage ::
  "platform \<Rightarrow> (nat \<Rightarrow> audioMeta option) \<Rightarrow> string \<Rightarrow> service \<Rightarrow> message \<Rightarrow> service option"
where
  "sv_onDriverMessage plat dtm rid st m =
     (if \<not> sv_webContents st then Some st
      else case m of
        Plugged phoneType \<Rightarrow>
          (let s1 = sv_send EvPlugged (sv_clearTimeouts st)
           in Some (if \<not> sv_started s1 \<and> \<not> sv_isStarting s1 then sv_start s1 else s1))
      | Unplugged \<Rightarrow>
          (let s1 = sv_send EvUnplugged st
           in Some (if \<not> sv_shuttingDown s1 \<and> \<not> sv_stopping s1 then sv_stop s1 else s1))
      | VideoData v \<Rightarrow>
          (let s1 = (if \<not> sv_firstFrameLogged st then st\<lparr>sv_firstFrameLogged := True\<rparr> else st);
               s2 = sv_send (EvResolution (width v) (height v)) s1
           in sendChunked VideoChunk rid (vd_data v) (512 * 1024) s2)
      | AudioData a \<Rightarrow>
          (case ad_data a of
             Some d \<Rightarrow> sv_audioChunks dtm rid st a
           | None \<Rightarrow>
               (case command a of
                  Some c \<Rightarrow> Some (sv_audioCommand plat st c)
                | None \<Rightarrow> Some st))
      | MediaData hasPayload \<Rightarrow>
          Some (if \<not> hasPayload then st else sv_send EvMedia st)
      | Command c \<Rightarrow> Some (sv_send (EvCommand c) st)
      | OtherMessage \<Rightarrow> Some st)"

text \<open>Time passes for the service: as for the wrapper, every pending timeout that is
  due sends \<open>wifiPair\<close> (the service sets no other timeout).\<close>

definition sv_elapse :: "service \<Rightarrow> nat \<Rightarrow> service" where
  "sv_elapse st d =
     (let now = sv_now st + d
      in st\<lparr>sv_now := now,
            sv_sent := sv_sent st @
              map (\<lambda>p. SendCommand ''wifiPair'') (dueBy now (sv_timeouts st)),
            sv_timeouts := expire now (sv_timeouts st)\<rparr>)"

text \<open>
  A session of the service after its start: messages from the driver, time passing, a
  call of \<open>stop\<close> (which runs up to its first \<open>await\<close>) and the completion of a stop
  that is under way. A step is \<open>None\<close> only where the handler's \<open>chunkLoop\<close> is.
\<close>

datatype svev = SvRecv message | SvElapse nat | SvStop | SvStopDone

fun sv_step ::
  "platform \<Rightarrow> (nat \<Rightarrow> audioMeta option) \<Rightarrow> string \<Rightarrow> service \<Rightarrow> svev \<Rightarrow> service option"
where
  "sv_step plat dtm rid st (SvRecv m) = sv_onDriverMessage plat dtm rid st m"
| "sv_step plat dtm rid st (SvElapse d) = Some (sv_elapse st d)"
| "sv_step plat dtm rid st SvStop = Some (sv_stop st)"
| "sv_step plat dtm rid st SvStopDone = Some (if sv_isStopping st then sv_stopDone st else st)"

fun sv_run ::
  "platform \<Rightarrow> (nat \<Rightarrow> audioMeta option) \<Rightarrow> string \<Rightarrow> service \<Rightarrow> svev list \<Rightarrow> service option"
where
  "sv_run plat dtm rid st [] = Some st"
| "sv_run plat dtm rid st (e # es) =
     (case sv_step plat dtm rid st e of
        None \<Rightarrow> None
      | Some s1 \<Rightarrow> sv_run plat dtm rid s1 es)"

fun sv_duration :: "svev list \<Rightarrow> nat" where
  "sv_duration [] = 0"
| "sv_duration (SvElapse d # es) = d + sv_duration es"
| "sv_duration (e # es) = sv_duration es"

text \<open>The events that make the service clear its pair timeout: a \<open>Plugged\<close> message,
  and a stop, which an \<open>Unplugged\<close> message calls for as well.\<close>

fun sv_cancels :: "svev \<Rightarrow> bool" where
  "sv_cancels (SvRecv (Plugged p)) = True"
| "sv_cancels (SvRecv Unplugged) = True"
| "sv_cancels SvStop = True"
| "sv_cancels e = False"

text \<open>A service with a renderer attached and the given \<open>audioTransferMode\<close>, before
  any start.\<close>

definition sv_new :: "bool \<Rightarrow> service" where
  "sv_new atm =
     \<lparr>sv_webContents = True, sv_audioTransferMode = atm, sv_mic = None, sv_micLog = [],
      sv_started = False, sv_stopping = False, sv_shuttingDown = False, sv_isStarting = False,
      sv_isStopping = False, sv_audioInfoSent = False, sv_firstFrameLogged = False,
      sv_pairTimeout = None, sv_timeouts = noTimeouts, sv_frameInterval = None,
      sv_deviceFound = True,
      sv_userConfig = None, sv_toRenderer = [], sv_sent = [], sv_now = 0\<rparr>"

text \<open>
  Three notions for the proofs about the pair timeout of the service. \<open>sv_sameTimers\<close>:
  two states agree on the timeouts, on what was sent to the driver, on the clock and on
  the flags that \<open>stop\<close> reads. \<open>sv_armed\<close>: the timeout of the field is the only one
  pending, and the service is started with no stop under way. \<open>sv_live\<close>: a renderer is
  attached and the service is not shutting down.
\<close>

definition sv_sameTimers :: "service \<Rightarrow> service \<Rightarrow> bool" where
  "sv_sameTimers s st \<longleftrightarrow>
     sv_timeouts s = sv_timeouts st \<and> sv_pairTimeout s = sv_pairTimeout st \<and>
     sv_sent s = sv_sent st \<and> sv_now s = sv_now st \<and> sv_started s = sv_started st \<and>
     sv_stopping s = sv_stopping st \<and> sv_isStopping s = sv_isStopping st \<and>
     sv_webContents s = sv_webContents st \<and> sv_shuttingDown s = sv_shuttingDown st"

definition sv_armed :: "service \<Rightarrow> nat \<Rightarrow> nat \<Rightarrow> bool" where
  "sv_armed st h due \<longleftrightarrow>
     pending (sv_timeouts st) = [(h, due)] \<and> sv_pairTimeout st = Some h \<and>
     sv_started st \<and> \<not> sv_stopping st \<and> \<not> sv_isStopping st"

definition sv_live :: "service \<Rightarrow> bool" where
  "sv_live st \<longleftrightarrow> sv_webContents st \<and> \<not> sv_shuttingDown st"

subsection \<open>Sample messages and an auxiliary notion\<close>

text \<open>
  Two command messages, a message that carries both PCM data and a command, and a video
  message.
\<close>

definition siriStart :: audioData where
  "siriStart = \<lparr>decodeType = 5, audioType = 1, command = Some AudioSiriStart, ad_data = None\<rparr>"


definition pcmWithCommand :: audioData where
  "pcmWithCommand = \<lparr>decodeType = 5, audioType = 1, command = Some AudioSiriStart,
                      ad_data = Some [1, 2, 3, 4]\<rparr>"

definition aVideo :: videoData where
  "aVideo = \<lparr>width = 800, height = 480, vd_data = None\<rparr>"



section \<open>The video worker (Render.worker.ts)\<close>

text \<open>
  \<open>processRaw\<close> reads a frame through three helpers of \<open>lib/utils\<close>, which is not among
  the sources: \<open>getNaluFromStream\<close> (the SPS of the frame, if it has one), \<open>isKeyFrame\<close>
  and \<open>getDecoderConfig\<close>. A frame is modelled by what they return for it: \<open>f_sps\<close> is
  the raw SPS, \<open>f_key\<close> the keyframe test. \<open>f_decodeThrows\<close> tells whether
  \<open>decoder.decode\<close> throws for the chunk made of it. The environment \<open>venv\<close> gives
  \<open>getDecoderConfig\<close> and tells for which configurations \<open>decoder.configure\<close> does not
  throw, with hardware and with software decoding.
\<close>

record frame =
  f_byteLength :: nat
  f_sps :: "nat list option"
  f_key :: bool
  f_decodeThrows :: bool

datatype chunkType = KeyChunk | DeltaChunk

record chunk =
  c_type :: chunkType
  c_data :: frame

record venv =
  getDecoderConfig :: "nat list \<Rightarrow> nat option"
  configuresHw :: "nat \<Rightarrow> bool"
  configuresSw :: "nat \<Rightarrow> bool"

text \<open>The fields of \<open>RendererWorker\<close> that \<open>processRaw\<close> uses, and the chunks handed to
  \<open>decoder.decode\<close> so far, in order (\<open>submitted\<close>).\<close>

record worker =
  isConfigured :: bool
  lastSPS :: "nat list option"
  awaitingValidKeyframe :: bool
  rendererHwSupported :: bool
  rendererSwSupported :: bool
  submitted :: "chunk list"

definition newWorker :: "bool \<Rightarrow> bool \<Rightarrow> worker" where
  "newWorker hw sw =
     \<lparr>isConfigured = False, lastSPS = None, awaitingValidKeyframe = True,
      rendererHwSupported = hw, rendererSwSupported = sw, submitted = []\<rparr>"

text \<open>\<open>configureDecoder\<close>: hardware first, then software, each only if the selected
  renderer supports it; \<open>tryConfig\<close> sets \<open>isConfigured\<close> when \<open>configure\<close> returns.\<close>

definition configureDecoder :: "venv \<Rightarrow> worker \<Rightarrow> nat \<Rightarrow> bool \<times> worker" where
  "configureDecoder env st cfg =
     (if rendererHwSupported st \<and> configuresHw env cfg then (True, st\<lparr>isConfigured := True\<rparr>)
      else if rendererSwSupported st \<and> configuresSw env cfg then (True, st\<lparr>isConfigured := True\<rparr>)
      else (False, st))"

definition decode :: "chunkType \<Rightarrow> frame \<Rightarrow> worker \<Rightarrow> worker" where
  "decode ty f st = st\<lparr>submitted := submitted st @ [\<lparr>c_type = ty, c_data = f\<rparr>]\<rparr>"

text \<open>The end of \<open>processRaw\<close>, from \<open>if (!this.isConfigured || this.awaitingValidKeyframe)\<close>.\<close>

definition decodeRest :: "worker \<Rightarrow> frame \<Rightarrow> worker" where
  "decodeRest st f =
     (if \<not> isConfigured st \<or> awaitingValidKeyframe st then st
      else decode (if f_key f then KeyChunk else DeltaChunk) f st)"

text \<open>\<open>if (sps && !this.isConfigured) this.lastSPS = sps.rawNalu\<close>.\<close>

definition noteSPS :: "worker \<Rightarrow> frame \<Rightarrow> worker" where
  "noteSPS st f = (if f_sps f \<noteq> None \<and> \<not> isConfigured st then st\<lparr>lastSPS := f_sps f\<rparr> else st)"

text \<open>The block under \<open>if (key && this.lastSPS && !this.isConfigured)\<close>, with what
  follows it when the block does not return.\<close>

definition firstKeyframe :: "venv \<Rightarrow> worker \<Rightarrow> frame \<Rightarrow> worker" where
  "firstKeyframe env s1 f =
     (case getDecoderConfig env (the (lastSPS s1)) of
        None \<Rightarrow> decodeRest s1 f
      | Some cfg \<Rightarrow>
          (case configureDecoder env s1 cfg of
             (True, s2) \<Rightarrow>
               (let s3 = decode KeyChunk f s2
                in if f_decodeThrows f then s3
                   else s3\<lparr>awaitingValidKeyframe := False\<rparr>)
           | (False, s2) \<Rightarrow> decodeRest s2 f))"

text \<open>
  \<open>processRaw\<close>. Its only \<open>await\<close> is on \<open>configureDecoder\<close>, which awaits nothing but
  its own synchronous attempts, so one call ends before the next message is handled
  and a call is one step.
\<close>

definition processRaw :: "venv \<Rightarrow> worker \<Rightarrow> frame \<Rightarrow> worker" where
  "processRaw env st f =
     (if f_byteLength f = 0 then st
      else
        let s1 = noteSPS st f
        in if awaitingValidKeyframe s1 \<and> \<not> f_key f then s1
           else if f_key f \<and> lastSPS s1 \<noteq> None \<and> \<not> isConfigured s1
                then firstKeyframe env s1 f
                else decodeRest s1 f)"

definition feed :: "venv \<Rightarrow> worker \<Rightarrow> frame list \<Rightarrow> worker" where
  "feed env st fs = foldl (processRaw env) st fs"

text \<open>A P-slice, and a frame with an SPS and an IDR slice; an environment in which
  every SPS gives a configuration that the decoder accepts.\<close>

definition pSlice :: frame where
  "pSlice = \<lparr>f_byteLength = 60, f_sps = None, f_key = False, f_decodeThrows = False\<rparr>"

definition spsIdr :: frame where
  "spsIdr = \<lparr>f_byteLength = 900, f_sps = Some [103, 100, 0, 42], f_key = True,
             f_decodeThrows = False\<rparr>"

definition goodEnv :: venv where
  "goodEnv = \<lparr>getDecoderConfig = (\<lambda>sps. Some 1), configuresHw = (\<lambda>c. True),
              configuresSw = (\<lambda>c. True)\<rparr>"


text \<open>
  The invariant of the gate, for the frames \<open>fs\<close> fed so far: a remembered SPS was
  seen in them; the worker stops awaiting a keyframe only after a submission; and the
  first chunk submitted is the key chunk of a keyframe with an SPS seen no later.
\<close>

definition gate_inv :: "frame list \<Rightarrow> worker \<Rightarrow> bool" where
  "gate_inv fs st \<longleftrightarrow>
     (lastSPS st \<noteq> None \<longrightarrow> (\<exists>g \<in> set fs. f_sps g \<noteq> None)) \<and>
     (\<not> awaitingValidKeyframe st \<longrightarrow> submitted st \<noteq> []) \<and>
     (submitted st \<noteq> [] \<longrightarrow>
        (\<exists>pre f post. fs = pre @ f # post \<and> f_key f \<and>
           (\<exists>g \<in> set (pre @ [f]). f_sps g \<noteq> None) \<and>
           hd (submitted st) = \<lparr>c_type = KeyChunk, c_data = f\<rparr>))"


section \<open>Touch input\<close>

subsection \<open>JavaScript numbers and the normalisation of coordinates\<close>

text \<open>
  A JavaScript number is \<open>NaN\<close>, an infinity or a finite value (an exact rational
  here: rounding, overflow and the sign of zero are not modelled). A comparison with
  \<open>NaN\<close> is false. In a division the divisor 0 is the positive zero that a width or
  height of a bounding rectangle can be.
\<close>

datatype jsnum = NaN | NegInf | Fin rat | PosInf

fun js_lt :: "jsnum \<Rightarrow> jsnum \<Rightarrow> bool" where
  "js_lt NaN b = False"
| "js_lt a NaN = False"
| "js_lt PosInf b = False"
| "js_lt a NegInf = False"
| "js_lt NegInf b = True"
| "js_lt a PosInf = True"
| "js_lt (Fin a) (Fin b) = (a < b)"

definition js_gt :: "jsnum \<Rightarrow> jsnum \<Rightarrow> bool" where
  "js_gt a b = js_lt b a"

fun js_neg :: "jsnum \<Rightarrow> jsnum" where
  "js_neg NaN = NaN"
| "js_neg NegInf = PosInf"
| "js_neg PosInf = NegInf"
| "js_neg (Fin a) = Fin (- a)"

fun js_sub :: "jsnum \<Rightarrow> jsnum \<Rightarrow> jsnum" where
  "js_sub NaN b = NaN"
| "js_sub a NaN = NaN"
| "js_sub PosInf PosInf = NaN"
| "js_sub NegInf NegInf = NaN"
| "js_sub PosInf b = PosInf"
| "js_sub NegInf b = NegInf"
| "js_sub (Fin a) PosInf = NegInf"
| "js_sub (Fin a) NegInf = PosInf"
| "js_sub (Fin a) (Fin b) = Fin (a - b)"

fun js_div :: "jsnum \<Rightarrow> jsnum \<Rightarrow> jsnum" where
  "js_div NaN b = NaN"
| "js_div a NaN = NaN"
| "js_div (Fin a) (Fin b) =
     (if b = 0 then (if a = 0 then NaN else if 0 < a then PosInf else NegInf)
      else Fin (a / b))"
| "js_div (Fin a) b = Fin 0"
| "js_div a (Fin b) = (if 0 \<le> b then a else js_neg a)"
| "js_div a b = NaN"

definition isFinite :: "jsnum \<Rightarrow> bool" where
  "isFinite v = (case v of Fin a \<Rightarrow> True | _ \<Rightarrow> False)"

text \<open>\<open>clamp01\<close> and \<open>norm\<close> of the renderer hook (\<open>useCarplayTouch.ts\<close>); a rectangle is
  what \<open>getBoundingClientRect\<close> returns.\<close>

definition clamp01 :: "jsnum \<Rightarrow> jsnum" where
  "clamp01 v = (if js_lt v (Fin 0) then Fin 0 else if js_gt v (Fin 1) then Fin 1 else v)"

record rect =
  r_left :: jsnum
  r_top :: jsnum
  r_width :: jsnum
  r_height :: jsnum

definition norm :: "rect \<Rightarrow> jsnum \<Rightarrow> jsnum \<Rightarrow> jsnum \<times> jsnum" where
  "norm r cx cy =
     (clamp01 (js_div (js_sub cx (r_left r)) (r_width r)),
      clamp01 (js_div (js_sub cy (r_top r)) (r_height r)))"

text \<open>\<open>to01\<close> of the \<open>carplay-multi-touch\<close> handler of the main process.\<close>

definition to01 :: "jsnum \<Rightarrow> jsnum" where
  "to01 v =
     (let n = (if isFinite v then v else Fin 0)
      in if js_lt n (Fin 0) then Fin 0 else if js_gt n (Fin 1) then Fin 1 else n)"

text \<open>A value of the closed interval from 0 to 1.\<close>

definition in01 :: "jsnum \<Rightarrow> bool" where
  "in01 v = (case v of Fin a \<Rightarrow> 0 \<le> a \<and> a \<le> 1 | _ \<Rightarrow> False)"

text \<open>A rectangle that has collapsed to no width and no height.\<close>

definition flatRect :: rect where
  "flatRect = \<lparr>r_left = Fin 100, r_top = Fin 50, r_width = Fin 0, r_height = Fin 0\<rparr>"


subsection \<open>The multi-touch hook (useCarplayMultiTouch)\<close>

text \<open>
  The refs of the hook are the fields of \<open>touchState\<close>. A JavaScript \<open>Map\<close> is an
  association list in insertion order: \<open>set\<close> is \<open>AList.update\<close> (an existing key keeps
  its place, a new one goes to the end), \<open>delete\<close> is \<open>AList.delete\<close>, \<open>get\<close> is
  \<open>map_of\<close>. What the hook sends through \<open>window.carplay.ipc\<close> is recorded in
  \<open>sentTouch\<close> and \<open>sentMulti\<close>. The action enumerations are declared in
  \<open>messages/sendable\<close>, which is not among the sources; only their names are used.
\<close>

datatype TouchAction = TouchDown | TouchMove | TouchUp

datatype MultiTouchAction = Down | Move | Up

record MTPoint =
  mt_id :: nat
  mt_x :: jsnum
  mt_y :: jsnum
  mt_action :: MultiTouchAction

record pointerEvent =
  pointerType :: string
  pointerId :: int
  clientX :: jsnum
  clientY :: jsnum
  currentTarget :: rect

record touchState =
  slotByPointerId :: "(int \<times> nat) list"
  active :: "(nat \<times> (jsnum \<times> jsnum)) list"
  freeSlots :: "nat list"
  nextSlot :: nat
  mouseDown :: bool
  sentTouch :: "(jsnum \<times> jsnum \<times> TouchAction) list"
  sentMulti :: "MTPoint list list"

definition newTouch :: touchState where
  "newTouch = \<lparr>slotByPointerId = [], active = [], freeSlots = [], nextSlot = 0,
               mouseDown = False, sentTouch = [], sentMulti = []\<rparr>"

definition alloc :: "int \<Rightarrow> touchState \<Rightarrow> nat \<times> touchState" where
  "alloc pid st =
     (case map_of (slotByPointerId st) pid of
        Some old \<Rightarrow> (old, st)
      | None \<Rightarrow>
          (if freeSlots st = [] then
             (nextSlot st,
              st\<lparr>nextSlot := nextSlot st + 1,
                 slotByPointerId := AList.update pid (nextSlot st) (slotByPointerId st)\<rparr>)
           else
             (last (freeSlots st),
              st\<lparr>freeSlots := butlast (freeSlots st),
                 slotByPointerId := AList.update pid (last (freeSlots st)) (slotByPointerId st)\<rparr>)))"

definition free :: "int \<Rightarrow> touchState \<Rightarrow> touchState" where
  "free pid st =
     (case map_of (slotByPointerId st) pid of
        None \<Rightarrow> st
      | Some slot \<Rightarrow>
          st\<lparr>slotByPointerId := AList.delete pid (slotByPointerId st),
             active := AList.delete slot (active st),
             freeSlots := freeSlots st @ [slot]\<rparr>)"

text \<open>The points of a frame: every active pointer, with the overridden action or
  \<open>Move\<close>.\<close>

definition framePoints ::
  "(nat \<times> MultiTouchAction) list \<Rightarrow> (nat \<times> (jsnum \<times> jsnum)) list \<Rightarrow> MTPoint list" where
  "framePoints overrides act =
     map (\<lambda>(i, pos). \<lparr>mt_id = i, mt_x = fst pos, mt_y = snd pos,
                       mt_action = (case map_of overrides i of Some a \<Rightarrow> a | None \<Rightarrow> Move)\<rparr>)
         act"

definition sendFullFrame :: "(nat \<times> MultiTouchAction) list \<Rightarrow> touchState \<Rightarrow> touchState" where
  "sendFullFrame overrides st =
     (let pts = framePoints overrides (active st);
          pts2 = (if pts = [] \<and> overrides \<noteq> [] then
                    concat (map (\<lambda>(i, a). case map_of (active st) i of
                                             Some pos \<Rightarrow> [\<lparr>mt_id = i, mt_x = fst pos,
                                                            mt_y = snd pos, mt_action = a\<rparr>]
                                           | None \<Rightarrow> []) overrides)
                  else pts)
      in if pts2 = [] then st else st\<lparr>sentMulti := sentMulti st @ [pts2]\<rparr>)"

definition sendTouch :: "jsnum \<Rightarrow> jsnum \<Rightarrow> TouchAction \<Rightarrow> touchState \<Rightarrow> touchState" where
  "sendTouch x y a st = st\<lparr>sentTouch := sentTouch st @ [(x, y, a)]\<rparr>"

definition onPointerDown :: "touchState \<Rightarrow> pointerEvent \<Rightarrow> touchState" where
  "onPointerDown st e =
     (let (x, y) = norm (currentTarget e) (clientX e) (clientY e)
      in if pointerType e = ''mouse'' then sendTouch x y TouchDown (st\<lparr>mouseDown := True\<rparr>)
         else
           let (i, s1) = alloc (pointerId e) st;
               s2 = s1\<lparr>active := AList.update i (x, y) (active s1)\<rparr>
           in sendFullFrame [(i, Down)] s2)"

definition onPointerMove :: "touchState \<Rightarrow> pointerEvent \<Rightarrow> touchState" where
  "onPointerMove st e =
     (let (x, y) = norm (currentTarget e) (clientX e) (clientY e)
      in if pointerType e = ''mouse'' then
           (if \<not> mouseDown st then st else sendTouch x y TouchMove st)
         else
           (case map_of (slotByPointerId st) (pointerId e) of
              None \<Rightarrow> st
            | Some i \<Rightarrow> sendFullFrame [] (st\<lparr>active := AList.update i (x, y) (active st)\<rparr>)))"

definition finishPointer :: "touchState \<Rightarrow> pointerEvent \<Rightarrow> touchState" where
  "finishPointer st e =
     (let (x, y) = norm (currentTarget e) (clientX e) (clientY e)
      in if pointerType e = ''mouse'' then
           (if \<not> mouseDown st then st else sendTouch x y TouchUp (st\<lparr>mouseDown := False\<rparr>))
         else
           (case map_of (slotByPointerId st) (pointerId e) of
              None \<Rightarrow> st
            | Some i \<Rightarrow>
                free (pointerId e)
                  (sendFullFrame [(i, Up)] (st\<lparr>active := AList.update i (x, y) (active st)\<rparr>))))"

text \<open>The pointer events the hook handles; up, cancel and lost capture all go to
  \<open>finishPointer\<close>.\<close>

datatype pev =
  PointerDown pointerEvent
| PointerMove pointerEvent
| PointerUp pointerEvent
| PointerCancel pointerEvent
| LostPointerCapture pointerEvent

fun handle :: "touchState \<Rightarrow> pev \<Rightarrow> touchState" where
  "handle st (PointerDown e) = onPointerDown st e"
| "handle st (PointerMove e) = onPointerMove st e"
| "handle st (PointerUp e) = finishPointer st e"
| "handle st (PointerCancel e) = finishPointer st e"
| "handle st (LostPointerCapture e) = finishPointer st e"

definition handleAll :: "touchState \<Rightarrow> pev list \<Rightarrow> touchState" where
  "handleAll st evs = foldl handle st evs"

fun eventOf :: "pev \<Rightarrow> pointerEvent" where
  "eventOf (PointerDown e) = e"
| "eventOf (PointerMove e) = e"
| "eventOf (PointerUp e) = e"
| "eventOf (PointerCancel e) = e"
| "eventOf (LostPointerCapture e) = e"

fun finishes :: "pev \<Rightarrow> bool" where
  "finishes (PointerDown e) = False"
| "finishes (PointerMove e) = False"
| "finishes ev = True"

text \<open>The slots in use (allocated and not yet released), and the slots of the active
  pointers.\<close>

definition slotsInUse :: "touchState \<Rightarrow> nat set" where
  "slotsInUse st = snd ` set (slotByPointerId st)"

definition activeSlots :: "touchState \<Rightarrow> nat set" where
  "activeSlots st = fst ` set (active st)"

text \<open>The invariant of the hook's maps.\<close>

definition touch_inv :: "touchState \<Rightarrow> bool" where
  "touch_inv st \<longleftrightarrow>
     distinct (map fst (slotByPointerId st)) \<and> distinct (map snd (slotByPointerId st)) \<and>
     distinct (map fst (active st)) \<and> activeSlots st = slotsInUse st \<and>
     distinct (freeSlots st) \<and> set (freeSlots st) \<inter> slotsInUse st = {} \<and>
     (\<forall>s \<in> set (freeSlots st) \<union> slotsInUse st. s < nextSlot st)"

text \<open>A finger at a point of a square of side 100.\<close>

definition finger :: "int \<Rightarrow> rat \<Rightarrow> rat \<Rightarrow> pointerEvent" where
  "finger pid x y =
     \<lparr>pointerType = ''touch'', pointerId = pid, clientX = Fin x, clientY = Fin y,
      currentTarget = \<lparr>r_left = Fin 0, r_top = Fin 0, r_width = Fin 100, r_height = Fin 100\<rparr>\<rparr>"

text \<open>A frame that lists the pointers of the map \<open>act\<close>, each once, at its position
  in \<open>act\<close> and with the action \<open>actionOf\<close> gives its slot.\<close>

definition frameOk ::
  "(nat \<times> (jsnum \<times> jsnum)) list \<Rightarrow> (nat \<Rightarrow> MultiTouchAction) \<Rightarrow> MTPoint list \<Rightarrow> bool" where
  "frameOk act actionOf fr \<longleftrightarrow>
     distinct (map mt_id fr) \<and> mt_id ` set fr = fst ` set act \<and>
     (\<forall>p \<in> set fr. map_of act (mt_id p) = Some (mt_x p, mt_y p) \<and>
                    mt_action p = actionOf (mt_id p))"

text \<open>Two fingers go down, the first moves and lifts; then a third finger goes down.\<close>

definition demo_touches :: "pev list" where
  "demo_touches =
     [PointerDown (finger 1 10 20), PointerDown (finger 2 50 50),
      PointerMove (finger 1 30 40), PointerUp (finger 1 30 40)]"

definition demo_down :: pev where
  "demo_down = PointerDown (finger 3 80 90)"


section \<open>Properties of the worklet and of the ring\<close>

lemma fold_fillc_length [simp]:
  "length (fold (\<lambda>c ob. fillc ob c v) [a..<b] out) = length out"
  by (induction b) (auto simp: fillc_def)

lemma fold_fillc_nth:
  "b \<le> length out \<Longrightarrow> i < length out \<Longrightarrow>
   fold (\<lambda>c ob. fillc ob c v) [a..<b] out ! i =
     (if a \<le> i \<and> i < b then replicate (length (out ! i)) v else out ! i)"
proof (induction b)
  case 0
  then show ?case by simp
next
  case (Suc b)
  show ?case
  proof (cases "a \<le> b")
    case True
    with Suc show ?thesis
      using fold_fillc_length[of v a b out]
      by (auto simp: fillc_def nth_list_update less_Suc_eq simp del: fold_fillc_length)
  next
    case False
    then show ?thesis by auto
  qed
qed

lemma fillFrom_eq:
  "fillFrom c0 v out = take c0 out @ map (\<lambda>c. replicate (length c) v) (drop c0 out)"
  unfolding fillFrom_def
  by (rule nth_equalityI) (auto simp: fold_fillc_nth nth_append)

lemma fillFrom_zero: "fillFrom 0 v out = map (\<lambda>c. replicate (length c) v) out"
  by (simp add: fillFrom_eq)

lemma available_eq:
  "available (getReadInfo rb) =
     (writePointer rb + length (storage rb) - readPointer rb) mod length (storage rb)"
  by (simp add: getReadInfo_def Let_def)

lemma readPos_simp [simp]:
  "readPos (getReadInfo rb) = readPointer rb"
  "writePos (getReadInfo rb) = writePointer rb"
  by (simp_all add: getReadInfo_def Let_def)

lemma sameCtl_refl [simp]: "sameCtl a a"
  by (simp add: sameCtl_def)

lemma sameCtl_trans: "sameCtl a b \<Longrightarrow> sameCtl b c \<Longrightarrow> sameCtl a c"
  by (simp add: sameCtl_def)

lemma sameCtl_beginRamp [simp]: "sameCtl (beginRamp st) st"
  by (simp add: sameCtl_def beginRamp_def Let_def)

lemma sameCtl_emitStereo [simp]: "sameCtl (fst (emitStereo st out n)) st"
  by (simp add: sameCtl_def emitStereo_def applyRampStereo_def Let_def split: prod.splits if_splits)

lemma sameCtl_emitMono [simp]: "sameCtl (fst (emitMono st out n)) st"
  by (simp add: sameCtl_def emitMono_def applyRampMono_def Let_def split: prod.splits if_splits)

lemma sameCtl_account: "sameCtl a b \<Longrightarrow> sameCtl (account a n) (account b n)"
  by (simp add: sameCtl_def account_def Let_def)

lemma reader_emit [simp]:
  "reader (fst (emitStereo st out n)) = reader st"
  "reader (fst (emitMono st out n)) = reader st"
  "readerOutput (fst (emitStereo st out n)) = readerOutput st"
  "readerOutput (fst (emitMono st out n)) = readerOutput st"
  by (simp_all add: emitStereo_def emitMono_def applyRampStereo_def applyRampMono_def Let_def
      split: prod.splits if_splits)

lemma reader_misc [simp]:
  "reader (beginRamp st) = reader st" "readerOutput (beginRamp st) = readerOutput st"
  "reader (account st n) = reader st" "readerOutput (account st n) = readerOutput st"
  "reader (prime st) = reader st" "readerOutput (prime st) = readerOutput st"
  "reader (hardUnderrun st) = reader st" "readerOutput (hardUnderrun st) = readerOutput st"
  "channels (prime st) = channels st"
  by (simp_all add: beginRamp_def account_def prime_def hardUnderrun_def Let_def)

lemma alignedOf_prime [simp]: "alignedOf (prime st) = alignedOf st"
  by (simp add: alignedOf_def)

lemma priming_iff:
  "priming st \<longleftrightarrow> \<not> primed st \<and>
     available (getReadInfo (reader st)) < targetPrerollQ st * (RENDER_QUANTUM_FRAMES * channels st)"
  by (auto simp: priming_def)

lemma process_priming:
  "priming st \<Longrightarrow> process st out = Some (st, map (\<lambda>c. replicate (length c) 0) out)"
  by (simp add: process_def fillFrom_zero)

lemma process_hard:
  "\<not> priming st \<Longrightarrow> alignedOf st = 0 \<Longrightarrow> out \<noteq> [] \<Longrightarrow>
   process st out = Some (hardUnderrun (prime st), fillWithLast (prime st) out RENDER_QUANTUM_FRAMES)"
  by (simp add: process_def Let_def)

lemma process_None:
  "process st out = None \<longleftrightarrow> \<not> priming st \<and> out = []"
  by (simp add: process_def Let_def)

lemma readTo_count:
  "snd (snd (readTo rb target)) = min (available (getReadInfo rb)) (length target)"
  by (simp add: readTo_def Let_def)

lemma readTo_ring:
  "fst (readTo rb target) =
     (if available (getReadInfo rb) = 0 then rb
      else rb\<lparr>readPointer := (readPointer rb + min (available (getReadInfo rb)) (length target))
                 mod length (storage rb)\<rparr>)"
  by (simp add: readTo_def Let_def)

lemma deliver_facts:
  assumes le: "aligned \<le> available (getReadInfo (reader s0))"
      and len: "aligned \<le> length (readerOutput s0)"
  shows "sameCtl (fst (deliver s0 out aligned)) (account s0 (aligned div channels s0))"
    and "reader (fst (deliver s0 out aligned)) =
           fst (readTo (reader s0) (subarray (readerOutput s0) 0 aligned))"
    and "readerOutput (fst (deliver s0 out aligned)) = set_at (readerOutput s0)
              (fst (snd (readTo (reader s0) (subarray (readerOutput s0) 0 aligned)))) 0"
proof -
  have l: "length (subarray (readerOutput s0) 0 aligned) = aligned"
    using len by (simp add: subarray_def)
  have got: "snd (snd (readTo (reader s0) (subarray (readerOutput s0) 0 aligned))) = aligned"
    using l le by (simp add: readTo_count)
  obtain rb tgt g where r: "readTo (reader s0) (subarray (readerOutput s0) 0 aligned) = (rb, tgt, g)"
    by (cases "readTo (reader s0) (subarray (readerOutput s0) 0 aligned)") auto
  with got have g: "g = aligned" by simp
  define s1 where "s1 = s0\<lparr>reader := rb, readerOutput := set_at (readerOutput s0) tgt 0\<rparr>"
  define s2 where "s2 = (if needRamp s1 \<and> rampLeft s1 = 0 then beginRamp s1 else s1)"
  have c1: "sameCtl s1 s0" by (simp add: s1_def sameCtl_def)
  have c2: "sameCtl s2 s0" using c1 by (auto simp: s2_def intro: sameCtl_trans[OF sameCtl_beginRamp])
  have ch: "channels s1 = channels s0" by (simp add: s1_def)
  have d: "fst (deliver s0 out aligned) =
      account (fst (if channels s2 = 2 then emitStereo s2 out (aligned div channels s0)
                      else emitMono s2 out (aligned div channels s0))) (aligned div channels s0)"
    unfolding deliver_def r g Let_def prod.case s1_def[symmetric] s2_def[symmetric] ch
    by (simp split: prod.splits)
  have c3: "sameCtl (fst (if channels s2 = 2 then emitStereo s2 out (aligned div channels s0)
                      else emitMono s2 out (aligned div channels s0))) s0"
    using c2 by (auto intro: sameCtl_trans[OF sameCtl_emitStereo] sameCtl_trans[OF sameCtl_emitMono])
  show "sameCtl (fst (deliver s0 out aligned)) (account s0 (aligned div channels s0))"
    unfolding d by (rule sameCtl_account[OF c3])
  have rd: "reader s2 = reader s1" "readerOutput s2 = readerOutput s1" by (simp_all add: s2_def)
  show "reader (fst (deliver s0 out aligned)) =
           fst (readTo (reader s0) (subarray (readerOutput s0) 0 aligned))"
    unfolding d r by (simp add: rd s1_def)
  show "readerOutput (fst (deliver s0 out aligned)) = set_at (readerOutput s0)
              (fst (snd (readTo (reader s0) (subarray (readerOutput s0) 0 aligned)))) 0"
    unfolding d r by (simp add: rd s1_def)
qed

lemma mod_wrap: "(r::nat) < n \<Longrightarrow> n \<le> r + i \<Longrightarrow> i < n \<Longrightarrow> (r + i) mod n = r + i - n"
proof -
  assume a: "r < n" "n \<le> r + i" "i < n"
  then have "r + i = (r + i - n) + n" by simp
  then have "(r + i) mod n = (r + i - n) mod n" by (metis mod_add_self2)
  also have "\<dots> = r + i - n" using a by simp
  finally show ?thesis .
qed

lemma ringContents_length [simp]: "length (ringContents rb k) = k"
  by (simp add: ringContents_def)

lemma ringContents_nth [simp]:
  "i < k \<Longrightarrow> ringContents rb k ! i = storage rb ! ((readPointer rb + i) mod length (storage rb))"
  by (simp add: ringContents_def)

lemma two_part_read:
  assumes r: "r < length s" and k: "k < length s"
  shows "take (min (length s - r) k) (drop r s) @ take (k - min (length s - r) k) s
         = map (\<lambda>i. s ! ((r + i) mod length s)) [0..<k]"
proof (rule nth_equalityI)
  show "length (take (min (length s - r) k) (drop r s) @ take (k - min (length s - r) k) s)
        = length (map (\<lambda>i. s ! ((r + i) mod length s)) [0..<k])"
    using r k by auto
next
  fix i
  assume "i < length (take (min (length s - r) k) (drop r s) @ take (k - min (length s - r) k) s)"
  then have i: "i < k" using r k by auto
  show "(take (min (length s - r) k) (drop r s) @ take (k - min (length s - r) k) s) ! i
        = map (\<lambda>i. s ! ((r + i) mod length s)) [0..<k] ! i"
  proof (cases "i < length s - r")
    case True
    then show ?thesis using i r k by (simp add: nth_append)
  next
    case False
    then have "(r + i) mod length s = r + i - length s"
      using r k i by (intro mod_wrap) auto
    then show ?thesis using False i r k by (simp add: nth_append min_def add.commute)
  qed
qed

lemma readTo_data:
  assumes ok: "ring_ok rb"
  shows "fst (snd (readTo rb target)) =
           ringContents rb (min (available (getReadInfo rb)) (length target))
           @ drop (min (available (getReadInfo rb)) (length target)) target"
proof (cases "available (getReadInfo rb) = 0")
  case True
  then show ?thesis by (simp add: readTo_def ringContents_def)
next
  case False
  define n where "n = length (storage rb)"
  define k where "k = min (available (getReadInfo rb)) (length target)"
  define f where "f = min (n - readPointer rb) k"
  have r: "readPointer rb < n" and n0: "0 < n" using ok by (simp_all add: ring_ok_def n_def)
  have av: "available (getReadInfo rb) < n" using n0 by (simp add: n_def available_eq)
  have k: "k < n" "k \<le> length target" using av by (simp_all add: k_def)
  have tp: "take f (drop (readPointer rb) (storage rb)) @ take (k - f) (storage rb)
            = ringContents rb k"
    unfolding f_def n_def ringContents_def
    using two_part_read[of "readPointer rb" "storage rb" k] r k by (simp add: n_def)
  have lf: "length (take f (drop (readPointer rb) (storage rb))) = f"
    using r by (simp add: f_def n_def)
  have ls: "length (take (k - f) (storage rb)) = k - f"
    using k by (simp add: n_def)
  have fk: "f \<le> k" by (simp add: f_def)
  have res: "fst (snd (readTo rb target)) =
      (if k - f > 0 then
         set_at (set_at target (subarray (storage rb) (readPointer rb) (readPointer rb + f)) 0)
           (subarray (storage rb) 0 (k - f)) f
       else set_at target (subarray (storage rb) (readPointer rb) (readPointer rb + f)) 0)"
    using False unfolding readTo_def Let_def k_def f_def n_def by (simp)
  have "fst (snd (readTo rb target)) =
          (take f (drop (readPointer rb) (storage rb)) @ take (k - f) (storage rb)) @ drop k target"
    unfolding res using fk k lf ls
    by (auto simp: set_at_def subarray_def)
  with tp show ?thesis unfolding k_def by simp
qed

lemma int_sub_mod:
  "w < n \<Longrightarrow> int ((a + n - w) mod n) = (int a - int w) mod int n"
proof -
  assume w: "w < n"
  then have "int (a + n - w) = int a - int w + int n" by simp
  then show ?thesis by (simp add: zmod_int)
qed

lemma avail_int:
  "ring_ok rb \<Longrightarrow> int (available (getReadInfo rb)) =
      (int (writePointer rb) - int (readPointer rb)) mod int (length (storage rb))"
  by (simp add: available_eq ring_ok_def int_sub_mod)

lemma avail_lt: "ring_ok rb \<Longrightarrow> available (getReadInfo rb) < length (storage rb)"
  by (simp add: available_eq ring_ok_def)

lemma write_pos:
  assumes "ring_ok rb"
  shows "writePointer rb = (readPointer rb + available (getReadInfo rb)) mod length (storage rb)"
proof -
  let ?n = "length (storage rb)"
  have "int ((readPointer rb + available (getReadInfo rb)) mod ?n)
        = (int (readPointer rb) + (int (writePointer rb) - int (readPointer rb)) mod int ?n) mod int ?n"
    using avail_int[OF assms] by (simp add: zmod_int)
  also have "\<dots> = int (writePointer rb) mod int ?n"
    by (simp add: mod_simps)
  also have "\<dots> = int (writePointer rb)" using assms by (simp add: ring_ok_def)
  finally show ?thesis by simp
qed

lemma two_part_write:
  assumes w: "w < length s" and m: "length acc < length s"
  defines "f \<equiv> min (length s - w) (length acc)"
  shows "set_at (set_at s (take f acc) w) (drop f acc) 0
         = map (\<lambda>j. if (j + length s - w) mod length s < length acc
                     then acc ! ((j + length s - w) mod length s) else s ! j) [0..<length s]"
  (is "?l = ?r")
proof (rule nth_equalityI)
  show "length ?l = length ?r" using w m by (auto simp: set_at_def f_def)
next
  fix j assume "j < length ?l"
  then have j: "j < length s" using w m by (auto simp: set_at_def f_def)
  show "?l ! j = ?r ! j"
  proof (cases "w \<le> j")
    case True
    then have e: "(j + length s - w) mod length s = j - w"
      using j w by (metis Nat.add_diff_assoc2 less_imp_diff_less mod_add_self2 mod_less)
    show ?thesis using True j w m e
      by (auto simp: set_at_def f_def nth_append min_def)
  next
    case False
    then have e: "(j + length s - w) mod length s = j + length s - w"
      using j w by simp
    show ?thesis using False j w m e
      by (auto simp: set_at_def f_def nth_append min_def add.commute)
  qed
qed

lemma mod_shift: "((r + a) mod n + m - r) mod n = (a + m) mod (n::int)"
proof -
  have "((r + a) mod n + m - r) mod n = ((r + a) mod n + (m - r)) mod n"
    by (simp add: algebra_simps)
  also have "\<dots> = ((r + a) + (m - r)) mod n" by (rule mod_add_left_eq)
  also have "\<dots> = (a + m) mod n" by (simp add: algebra_simps)
  finally show ?thesis .
qed

lemma mod_shift2: "((r + i) mod n - (r + a) mod n) mod n = (i - a) mod (n::int)"
proof -
  have "((r + i) mod n - (r + a) mod n) mod n = ((r + i) - (r + a)) mod n"
    by (rule mod_diff_eq)
  then show ?thesis by simp
qed

lemma ringWrite_facts:
  assumes ok: "ring_ok rb"
      and a_def: "a = available (getReadInfo rb)"
      and acc_def: "acc = take (length (storage rb) - 1 - a) xs"
  shows "ring_ok (fst (ringWrite rb xs))"
    and "readPointer (fst (ringWrite rb xs)) = readPointer rb"
    and "length (storage (fst (ringWrite rb xs))) = length (storage rb)"
    and "snd (ringWrite rb xs) = length xs - length acc"
    and "available (getReadInfo (fst (ringWrite rb xs))) = a + length acc"
    and "ringContents (fst (ringWrite rb xs)) (a + length acc) = ringContents rb a @ acc"
proof -
  let ?n = "length (storage rb)"
  let ?w = "writePointer rb"
  let ?r = "readPointer rb"
  have n0: "0 < ?n" and w: "?w < ?n" and r: "?r < ?n" using ok by (simp_all add: ring_ok_def)
  have a: "a < ?n" unfolding a_def by (rule avail_lt[OF ok])
  have m: "a + length acc \<le> ?n - 1" using a by (auto simp: acc_def min_def)
  then have m': "length acc < ?n" using n0 by linarith
  define s2 where "s2 = set_at (set_at (storage rb) (take (min (?n - ?w) (length acc)) acc) ?w)
                         (drop (min (?n - ?w) (length acc)) acc) 0"
  have rw: "ringWrite rb xs =
      (rb\<lparr>storage := s2, writePointer := (?w + length acc) mod ?n\<rparr>, length xs - length acc)"
    unfolding ringWrite_def Let_def s2_def acc_def a_def by simp
  have s2: "s2 = map (\<lambda>j. if (j + ?n - ?w) mod ?n < length acc
                     then acc ! ((j + ?n - ?w) mod ?n) else storage rb ! j) [0..<?n]"
    unfolding s2_def by (rule two_part_write[OF w m'])
  have ls2: "length s2 = ?n" by (simp add: s2)
  show "ring_ok (fst (ringWrite rb xs))"
    using n0 r by (simp add: rw ring_ok_def ls2)
  show "readPointer (fst (ringWrite rb xs)) = ?r" by (simp add: rw)
  show "length (storage (fst (ringWrite rb xs))) = ?n" by (simp add: rw ls2)
  show "snd (ringWrite rb xs) = length xs - length acc" by (simp add: rw)
  have wpos: "int ?w = (int ?r + int a) mod int ?n"
    using write_pos[OF ok] unfolding a_def by (metis of_nat_add zmod_int)
  have "int (available (getReadInfo (fst (ringWrite rb xs))))
        = (int ((?w + length acc) mod ?n) - int ?r) mod int ?n"
    using r by (simp add: rw available_eq ls2 int_sub_mod)
  also have "\<dots> = ((int ?w + int (length acc)) mod int ?n - int ?r) mod int ?n"
    by (simp add: zmod_int)
  also have "\<dots> = (int ?w + int (length acc) - int ?r) mod int ?n"
    by (rule mod_diff_left_eq)
  also have "\<dots> = ((int ?r + int a) mod int ?n + int (length acc) - int ?r) mod int ?n"
    by (subst wpos) (rule refl)
  also have "\<dots> = (int a + int (length acc)) mod int ?n"
    by (rule mod_shift)
  also have "\<dots> = int a + int (length acc)"
    using m n0 by (intro mod_pos_pos_trivial) linarith+
  finally show av': "available (getReadInfo (fst (ringWrite rb xs))) = a + length acc"
    by linarith
  show "ringContents (fst (ringWrite rb xs)) (a + length acc) = ringContents rb a @ acc"
  proof (rule nth_equalityI)
    show "length (ringContents (fst (ringWrite rb xs)) (a + length acc))
          = length (ringContents rb a @ acc)" by simp
  next
    fix i assume "i < length (ringContents (fst (ringWrite rb xs)) (a + length acc))"
    then have i: "i < a + length acc" by simp
    define p where "p = (?r + i) mod ?n"
    have p: "p < ?n" using n0 by (simp add: p_def)
    have "int ((p + ?n - ?w) mod ?n) = (int p - int ?w) mod int ?n"
      using w by (rule int_sub_mod)
    also have "\<dots> = (int i - int a) mod int ?n"
      unfolding p_def wpos by (simp add: zmod_int mod_shift2)
    finally have idx: "int ((p + ?n - ?w) mod ?n) = (int i - int a) mod int ?n" .
    have lhs: "ringContents (fst (ringWrite rb xs)) (a + length acc) ! i = s2 ! p"
      using i by (simp add: rw ls2 p_def)
    show "ringContents (fst (ringWrite rb xs)) (a + length acc) ! i = (ringContents rb a @ acc) ! i"
    proof (cases "i < a")
      case True
      have "(int i - int a) mod int ?n = (int i - int a + int ?n) mod int ?n" by simp
      also have "\<dots> = int i - int a + int ?n"
        using True a by (intro mod_pos_pos_trivial) linarith+
      finally have "(int i - int a) mod int ?n = int i - int a + int ?n" .
      then have "(p + ?n - ?w) mod ?n = ?n + i - a" using idx True by linarith
      then have "\<not> (p + ?n - ?w) mod ?n < length acc" using m True by linarith
      then have "s2 ! p = storage rb ! p" using p by (simp add: s2)
      then show ?thesis using True lhs by (simp add: nth_append p_def)
    next
      case False
      then have "(int i - int a) mod int ?n = int i - int a"
        using i m n0 by (intro mod_pos_pos_trivial) linarith+
      then have e: "(p + ?n - ?w) mod ?n = i - a" using idx False by linarith
      then have "s2 ! p = acc ! (i - a)" using p i False by (simp add: s2 less_diff_conv2)
      then show ?thesis using False lhs by (simp add: nth_append)
    qed
  qed
qed

lemma ringContents_take: "k \<le> a \<Longrightarrow> take k (ringContents rb a) = ringContents rb k"
  by (simp add: ringContents_def take_map)

lemma readTo_facts:
  assumes ok: "ring_ok rb"
      and a_def: "a = available (getReadInfo rb)"
      and k_def: "k = min a (length target)"
  shows "ring_ok (fst (readTo rb target))"
    and "writePointer (fst (readTo rb target)) = writePointer rb"
    and "storage (fst (readTo rb target)) = storage rb"
    and "readPointer (fst (readTo rb target)) = (readPointer rb + k) mod length (storage rb)"
    and "snd (snd (readTo rb target)) = k"
    and "available (getReadInfo (fst (readTo rb target))) = a - k"
    and "ringContents (fst (readTo rb target)) (a - k) = drop k (ringContents rb a)"
    and "fst (snd (readTo rb target)) = ringContents rb k @ drop k target"
proof -
  let ?n = "length (storage rb)"
  let ?w = "writePointer rb"
  let ?r = "readPointer rb"
  let ?rb = "fst (readTo rb target)"
  have n0: "0 < ?n" and w: "?w < ?n" and r: "?r < ?n" using ok by (simp_all add: ring_ok_def)
  have a: "a < ?n" unfolding a_def by (rule avail_lt[OF ok])
  have ka: "k \<le> a" by (simp add: k_def)
  have rb': "?rb = rb\<lparr>readPointer := (?r + k) mod ?n\<rparr>"
    using r by (cases "a = 0") (simp_all add: readTo_ring a_def[symmetric] k_def)
  show ok': "ring_ok ?rb" using n0 w by (simp add: rb' ring_ok_def)
  show "writePointer ?rb = ?w" by (simp add: rb')
  show "storage ?rb = storage rb" by (simp add: rb')
  show "readPointer ?rb = (?r + k) mod ?n" by (simp add: rb')
  show "snd (snd (readTo rb target)) = k" by (simp add: readTo_count a_def k_def)
  have "int (available (getReadInfo ?rb)) = (int ?w - int ((?r + k) mod ?n)) mod int ?n"
    using avail_int[OF ok'] by (simp add: rb')
  also have "\<dots> = (int ?w - (int ?r + int k) mod int ?n) mod int ?n"
    by (simp add: zmod_int)
  also have "\<dots> = (int ?w - (int ?r + int k)) mod int ?n"
    by (rule mod_diff_right_eq)
  also have "\<dots> = ((int ?w - int ?r) mod int ?n - int k) mod int ?n"
    by (simp add: mod_diff_left_eq algebra_simps)
  also have "\<dots> = (int a - int k) mod int ?n"
    using avail_int[OF ok] by (simp add: a_def)
  also have "\<dots> = int a - int k"
    using ka a by (intro mod_pos_pos_trivial) linarith+
  finally show "available (getReadInfo ?rb) = a - k" using ka by linarith
  show "ringContents ?rb (a - k) = drop k (ringContents rb a)"
  proof (rule nth_equalityI)
    show "length (ringContents ?rb (a - k)) = length (drop k (ringContents rb a))" by simp
  next
    fix i assume "i < length (ringContents ?rb (a - k))"
    then have i: "i < a - k" by simp
    have "((?r + k) mod ?n + i) mod ?n = (?r + (k + i)) mod ?n"
      by (simp add: mod_add_left_eq add.assoc)
    then show "ringContents ?rb (a - k) ! i = drop k (ringContents rb a) ! i"
      using i ka by (simp add: rb')
  qed
  show "fst (snd (readTo rb target)) = ringContents rb k @ drop k target"
    using readTo_data[OF ok, of target] by (simp add: a_def k_def)
qed

lemma trace_inv_step:
  assumes "trace_inv t"
  shows "trace_inv (ringStep t e)"
proof (cases e)
  case (W xs)
  let ?rb = "tr_ring t"
  let ?a = "available (getReadInfo ?rb)"
  let ?acc = "take (length (storage ?rb) - 1 - ?a) xs"
  have ok: "ring_ok ?rb" using assms by (simp add: trace_inv_def)
  note f = ringWrite_facts[OF ok refl refl, of xs]
  have d: "take (length xs - snd (ringWrite ?rb xs)) xs = ?acc"
    by (simp add: f(4) min_def)
  have st: "ringStep t e = t\<lparr>tr_ring := fst (ringWrite ?rb xs), written := written t @ ?acc\<rparr>"
    using d by (simp add: W case_prod_beta)
  show ?thesis
    using assms f(1) f(5) f(6) by (simp add: st trace_inv_def)
next
  case (R target)
  let ?rb = "tr_ring t"
  let ?a = "available (getReadInfo ?rb)"
  let ?k = "min ?a (length target)"
  have ok: "ring_ok ?rb" using assms by (simp add: trace_inv_def)
  note f = readTo_facts[OF ok refl refl, of target]
  have tk: "take (snd (snd (readTo ?rb target))) (fst (snd (readTo ?rb target))) = ringContents ?rb ?k"
    by (simp add: f(5) f(8))
  have st: "ringStep t e = t\<lparr>tr_ring := fst (readTo ?rb target),
                               readSeq := readSeq t @ ringContents ?rb ?k\<rparr>"
    using tk by (simp add: R case_prod_beta)
  have "ringContents ?rb ?a = take ?k (ringContents ?rb ?a) @ drop ?k (ringContents ?rb ?a)"
    by simp
  also have "take ?k (ringContents ?rb ?a) = ringContents ?rb ?k"
    by (rule ringContents_take) simp
  finally have sp: "ringContents ?rb ?a = ringContents ?rb ?k @ drop ?k (ringContents ?rb ?a)" .
  show ?thesis
    using assms f(1) f(6) f(7) sp by (simp add: st trace_inv_def)
qed

lemma trace_inv_foldl: "trace_inv t \<Longrightarrow> trace_inv (foldl ringStep t evs)"
  by (induction evs arbitrary: t) (simp_all add: trace_inv_step)

lemma trace_inv_init:
  "ring_ok rb \<Longrightarrow> writePointer rb = readPointer rb \<Longrightarrow>
   trace_inv \<lparr>tr_ring = rb, written = [], readSeq = []\<rparr>"
  by (simp add: trace_inv_def available_eq ringContents_def ring_ok_def)

lemma quantaFromMs_pos [simp]: "Suc 0 \<le> quantaFromMs ms sr"
  by (simp add: quantaFromMs_def)

lemma wf_constructor: "ring_ok (opt_sab opts) \<Longrightarrow> wf (constructor sr opts)"
  by (auto simp: wf_def constructor_def Let_def)

lemma wf_onmessage: "wf st \<Longrightarrow> wf (onmessage st m)"
  by (auto simp: wf_def onmessage_def Let_def)

lemma wf_write: "wf st \<Longrightarrow> wf (st\<lparr>reader := fst (ringWrite (reader st) xs)\<rparr>)"
  using ringWrite_facts(1)[OF _ refl refl] by (simp add: wf_def)

lemma wf_sameCtl:
  "sameCtl a b \<Longrightarrow> wf a \<longleftrightarrow> ring_ok (reader a) \<and> length (readerOutput a) = RENDER_QUANTUM_FRAMES * channels b
      \<and> 1 \<le> channels b \<and> 1 \<le> basePrerollQ b \<and> basePrerollQ b \<le> targetPrerollQ b"
  by (auto simp: wf_def sameCtl_def)

lemma account_base:
  "basePrerollQ (account st n) = basePrerollQ st" "channels (account st n) = channels st"
  "maxPrerollQ (account st n) = maxPrerollQ st"
  by (simp_all add: account_def Let_def)

lemma account_target_ge:
  "basePrerollQ st \<le> targetPrerollQ st \<Longrightarrow> basePrerollQ st \<le> targetPrerollQ (account st n)"
  by (auto simp: account_def Let_def)

lemma prime_fields [simp]:
  "basePrerollQ (prime st) = basePrerollQ st" "targetPrerollQ (prime st) = targetPrerollQ st"
  "maxPrerollQ (prime st) = maxPrerollQ st" "reportedUnderrun (prime st) = reportedUnderrun st"
  "port (prime st) = port st" "primed st \<Longrightarrow> prime st = st"
  by (simp_all add: prime_def)

lemma wf_prime: "wf (prime st) = wf st"
  by (simp add: wf_def)

lemma alignedOf_le:
  "alignedOf st \<le> available (getReadInfo (reader st))" "alignedOf st \<le> length (readerOutput st)"
  by (simp_all add: alignedOf_def Let_def)

lemma wf_hard: "wf st \<Longrightarrow> wf (hardUnderrun st)"
  by (auto simp: wf_def hardUnderrun_def Let_def)

lemma wf_deliver:
  assumes "wf st"
  shows "wf (fst (deliver st out (alignedOf st)))"
proof -
  let ?tg = "subarray (readerOutput st) 0 (alignedOf st)"
  have ok: "ring_ok (reader st)" using assms by (simp add: wf_def)
  note d = deliver_facts[OF alignedOf_le, of st out]
  note r = readTo_facts[OF ok refl refl, of ?tg]
  have lt: "length ?tg = alignedOf st" using alignedOf_le(2)[of st] by (simp add: subarray_def)
  have k: "min (available (getReadInfo (reader st))) (length ?tg) = alignedOf st"
    using alignedOf_le(1)[of st] lt by simp
  have "length (fst (snd (readTo (reader st) ?tg))) = alignedOf st"
    unfolding r(8) using lt k by simp
  then have len: "length (readerOutput (fst (deliver st out (alignedOf st)))) = length (readerOutput st)"
    using alignedOf_le(2)[of st] by (simp add: d(3) set_at_def)
  have c: "sameCtl (fst (deliver st out (alignedOf st))) (account st (alignedOf st div channels st))"
    by (rule d(1))
  show ?thesis
    unfolding wf_sameCtl[OF c] using assms r(1) len
    by (auto simp: d(2) account_base wf_def intro: account_target_ge)
qed

lemma process_deliver:
  "\<not> priming st \<Longrightarrow> alignedOf st \<noteq> 0 \<Longrightarrow> out \<noteq> [] \<Longrightarrow>
   process st out = Some (deliver (prime st) out (alignedOf st))"
  by (simp add: process_def Let_def)

lemma wf_process: "wf st \<Longrightarrow> process st out = Some (s', out') \<Longrightarrow> wf s'"
proof -
  assume w: "wf st" and p: "process st out = Some (s', out')"
  have wp: "wf (prime st)" using w by (simp add: wf_prime)
  show ?thesis
  proof (cases "priming st")
    case True
    then show ?thesis using w p by (simp add: process_priming)
  next
    case False
    then have ne: "out \<noteq> []" using p by (auto simp: process_def Let_def)
    show ?thesis
    proof (cases "alignedOf st = 0")
      case True
      then show ?thesis using False ne p wf_hard[OF wp] by (simp add: process_hard)
    next
      case a: False
      have "s' = fst (deliver (prime st) out (alignedOf (prime st)))"
        using False a ne p by (simp add: process_deliver)
      then show ?thesis using wf_deliver[OF wp] by simp
    qed
  qed
qed

lemma wf_wstep: "wf st \<Longrightarrow> wstep st e = Some s' \<Longrightarrow> wf s'"
  by (cases e) (auto simp: wf_write wf_onmessage dest: wf_process)

lemma wf_wrun: "wf st \<Longrightarrow> wrun st evs = Some s' \<Longrightarrow> wf s'"
  by (induction evs arbitrary: st) (auto split: option.splits dest: wf_wstep)

lemma fullQuantum_aligned:
  assumes "wf st" "fullQuantum st"
  shows "alignedOf st = RENDER_QUANTUM_FRAMES * channels st"
  using assms by (simp add: wf_def fullQuantum_def alignedOf_def Let_def min_def)

lemma account_full:
  "account st RENDER_QUANTUM_FRAMES =
     (let s1 = st\<lparr>stableBlocks := stableBlocks st + 1\<rparr>;
          s2 = (if stableBlocks s1 \<ge> 128 \<and> targetPrerollQ s1 > basePrerollQ s1
                then s1\<lparr>targetPrerollQ := targetPrerollQ s1 - 1, stableBlocks := 0\<rparr> else s1);
          s3 = s2\<lparr>softUnderruns := 0\<rparr>
      in (if reportedUnderrun s3
          then s3\<lparr>port := port s3 @ [Recovered], reportedUnderrun := False\<rparr> else s3))"
  by (simp add: account_def)

lemma full_step:
  assumes w: "wf st" and f: "fullQuantum st" and ne: "out \<noteq> []"
  shows "\<exists>s' out'. process st out = Some (s', out') \<and> wf s' \<and>
           sameCtl s' (account (prime st) RENDER_QUANTUM_FRAMES) \<and>
           storage (reader s') = storage (reader st) \<and>
           writePointer (reader s') = writePointer (reader st) \<and>
           readPointer (reader s') =
             (readPointer (reader st) + RENDER_QUANTUM_FRAMES * channels st)
               mod length (storage (reader st)) \<and>
           available (getReadInfo (reader s')) + RENDER_QUANTUM_FRAMES * channels st
             = available (getReadInfo (reader st)) \<and>
           take (RENDER_QUANTUM_FRAMES * channels st) (readerOutput s') =
             ringContents (reader st) (RENDER_QUANTUM_FRAMES * channels st)"
proof -
  let ?n = "RENDER_QUANTUM_FRAMES * channels st"
  let ?tg = "subarray (readerOutput st) 0 ?n"
  have al: "alignedOf st = ?n" by (rule fullQuantum_aligned[OF w f])
  have ch: "1 \<le> channels st" using w by (simp add: wf_def)
  have np: "\<not> priming st" using f by (simp add: fullQuantum_def)
  have av: "?n \<le> available (getReadInfo (reader st))" using f by (simp add: fullQuantum_def)
  have n0: "alignedOf st \<noteq> 0" using al ch by (simp add: RENDER_QUANTUM_FRAMES_def)
  have p: "process st out = Some (deliver (prime st) out ?n)"
    using process_deliver[OF np n0 ne] al by simp
  have ok: "ring_ok (reader st)" using w by (simp add: wf_def)
  have lro: "length (readerOutput st) = ?n" using w by (simp add: wf_def)
  have le: "?n \<le> available (getReadInfo (reader (prime st)))" "?n \<le> length (readerOutput (prime st))"
    using av lro by simp_all
  note d = deliver_facts[OF le, of out]
  have lt: "length ?tg = ?n" using lro by (simp add: subarray_def)
  have k: "min (available (getReadInfo (reader st))) (length ?tg) = ?n" using av lt by simp
  note r = readTo_facts[OF ok refl refl, of ?tg, unfolded k]
  have fg: "?n div channels (prime st) = RENDER_QUANTUM_FRAMES" using ch by simp
  have wf': "wf (fst (deliver (prime st) out ?n))"
    using wf_process[OF w, of out] p by (cases "deliver (prime st) out ?n") auto
  have ro: "readerOutput (fst (deliver (prime st) out ?n)) =
              ringContents (reader st) ?n @ drop ?n (readerOutput st)"
    using d(3) r(8) lt by (simp add: set_at_def)
  show ?thesis
    apply (rule exI[of _ "fst (deliver (prime st) out ?n)"])
    apply (rule exI[of _ "snd (deliver (prime st) out ?n)"])
    using p wf' d(1)[unfolded fg] d(2) r(2) r(3) r(4) r(6) av ro
    by simp
qed

lemma base_default:
  assumes "opt_prerollMs opts = None" "0 < sr"
  shows "targetPrerollQ (constructor sr opts) = basePrerollQ (constructor sr opts)"
    and "int (basePrerollQ (constructor sr opts))
           = \<lceil>8 * streamSR (constructor sr opts) / (1000 * 128)\<rceil>"
proof -
  let ?s = "streamSR (constructor sr opts)"
  have s: "0 < ?s" using assms by (auto simp: constructor_def Let_def split: option.splits)
  have b: "basePrerollQ (constructor sr opts) = quantaFromMs 8 ?s"
    using assms by (simp add: constructor_def Let_def)
  have "0 < 8 * ?s / (1000 * 128)" using s by simp
  then have "1 \<le> \<lceil>8 * ?s / (1000 * 128)\<rceil>" by (simp only: one_le_ceiling)
  then show "int (basePrerollQ (constructor sr opts)) = \<lceil>8 * ?s / (1000 * 128)\<rceil>"
    by (simp add: b quantaFromMs_def RENDER_QUANTUM_FRAMES_def)
  show "targetPrerollQ (constructor sr opts) = basePrerollQ (constructor sr opts)"
    by (simp add: constructor_def Let_def)
qed

subsection \<open>The samples of a delivering quantum\<close>

lemma fold_columns:
  fixes stp :: "nat \<Rightarrow> rat list list \<Rightarrow> rat list list"
  assumes len: "\<And>k ob. map length (stp k ob) = map length ob"
      and other: "\<And>k ob c f. f \<noteq> k \<Longrightarrow> stp k ob ! c ! f = ob ! c ! f"
      and col: "\<And>k ob. map length ob = map length out \<Longrightarrow>
                  (\<forall>c < length out. ob ! c ! k = out ! c ! k) \<Longrightarrow>
                  (\<forall>c < length out. stp k ob ! c ! k = stp k out ! c ! k)"
  shows "map length (fold stp [0..<n] out) = map length out \<and>
         (\<forall>c < length out. \<forall>f. fold stp [0..<n] out ! c ! f =
            (if f < n then stp f out ! c ! f else out ! c ! f))"
proof (induction n)
  case 0
  then show ?case by simp
next
  case (Suc n)
  let ?ob = "fold stp [0..<n] out"
  have f: "fold stp [0..<Suc n] out = stp n ?ob" by simp
  have l: "map length ?ob = map length out" using Suc by simp
  have agree: "\<forall>c < length out. ?ob ! c ! n = out ! c ! n" using Suc by simp
  have cn: "\<forall>c < length out. stp n ?ob ! c ! n = stp n out ! c ! n"
    by (rule col[OF l agree])
  show ?case
  proof (intro conjI allI impI)
    show "map length (fold stp [0..<Suc n] out) = map length out"
      unfolding f using len[of n ?ob] l by simp
  next
    fix c f' assume c: "c < length out"
    show "fold stp [0..<Suc n] out ! c ! f' =
            (if f' < Suc n then stp f' out ! c ! f' else out ! c ! f')"
    proof (cases "f' = n")
      case True
      then show ?thesis unfolding f using cn c by simp
    next
      case False
      have "stp n ?ob ! c ! f' = ?ob ! c ! f'" by (rule other[OF False])
      then show ?thesis unfolding f using Suc c False by (simp add: less_Suc_eq)
    qed
  qed
qed

lemma wr_length [simp]: "map length (wr out c f v) = map length out"
proof (rule nth_equalityI)
  show "length (map length (wr out c f v)) = length (map length out)" by (simp add: wr_def)
next
  fix i assume "i < length (map length (wr out c f v))"
  hence i: "i < length out" by (simp add: wr_def)
  show "map length (wr out c f v) ! i = map length out ! i"
    using i by (cases "i = c") (simp_all add: wr_def)
qed

lemma wr_length' [simp]: "length (wr out c f v) = length out"
  by (simp add: wr_def)

lemma wr_nth:
  "wr out c f v ! c' ! f' =
     (if c' = c \<and> c < length out \<and> f' = f \<and> f < length (out ! c) then v else out ! c' ! f')"
proof (cases "c < length out")
  case False
  then show ?thesis by (simp add: wr_def list_update_beyond)
next
  case True
  show ?thesis
  proof (cases "c' = c")
    case False
    then show ?thesis by (simp add: wr_def)
  next
    case c: True
    show ?thesis
    proof (cases "f' = f")
      case False
      then show ?thesis using True c by (simp add: wr_def)
    next
      case f: True
      show ?thesis
      proof (cases "f < length (out ! c)")
        case True
        then show ?thesis using \<open>c < length out\<close> c f by (simp add: wr_def)
      next
        case False
        then show ?thesis using \<open>c < length out\<close> c f
          by (simp add: wr_def list_update_beyond)
      qed
    qed
  qed
qed

lemma map_length_nth: "map length a = map length b \<Longrightarrow> c < length a \<Longrightarrow> length (a ! c) = length (b ! c)"
  by (metis length_map nth_map)

lemma map_length_len: "map length a = map length b \<Longrightarrow> length a = length b"
  by (metis length_map)

lemma wr_nth_length [simp]:
  "c' < length ob \<Longrightarrow> length (wr ob c f v ! c') = length (ob ! c')"
  using map_length_nth[OF wr_length, of c' ob c f v] by simp

lemma wr2_nth:
  assumes "r < length ob" "0 < length ob"
  shows "wr (wr ob 0 k a) r k b ! c ! f =
           (if c = r \<and> f = k \<and> k < length (ob ! r) then b
            else if c = 0 \<and> f = k \<and> k < length (ob ! 0) then a else ob ! c ! f)"
  using assms by (simp add: wr_nth)

lemma zeros_tail:
  assumes "map length a = map length b"
  shows "map (\<lambda>c. replicate (length c) (0::rat)) (drop n a) =
         map (\<lambda>c. replicate (length c) 0) (drop n b)"
proof -
  have "map (\<lambda>c. replicate (length c) (0::rat)) (drop n a) =
        map (\<lambda>k. replicate k 0) (drop n (map length a))"
    by (simp add: drop_map)
  also have "\<dots> = map (\<lambda>k. replicate k 0) (drop n (map length b))" using assms by simp
  also have "\<dots> = map (\<lambda>c. replicate (length c) 0) (drop n b)" by (simp add: drop_map)
  finally show ?thesis .
qed

lemma channel_eq:
  assumes "length xs = n" "\<And>f. f < n \<Longrightarrow> xs ! f = g f"
  shows "xs = map g [0..<n]"
  using assms by (intro nth_equalityI) simp_all

text \<open>The samples of a full quantum on the mono path.\<close>

lemma emitMono_out:
  assumes ne: "out \<noteq> []" and l0: "length (out ! 0) = RENDER_QUANTUM_FRAMES"
  shows "snd (emitMono st out RENDER_QUANTUM_FRAMES) =
           map (\<lambda>f. crossfade st (xfFromM st) f (toF32 (readerOutput st ! f)))
               [0..<RENDER_QUANTUM_FRAMES]
           # map (\<lambda>c. replicate (length c) 0) (tl out)"
proof -
  let ?N = "RENDER_QUANTUM_FRAMES"
  let ?v = "\<lambda>f. toF32 (readerOutput st ! f)"
  let ?st1 = "\<lambda>f ob. wr ob 0 f (?v f)"
  let ?st2 = "\<lambda>k ob. let a = rampCoeff st k; b = 1 - a in wr ob 0 k (b * xfFromM st + a * rd ob 0 k)"
  define o1 where "o1 = fold ?st1 [0..<?N] out"
  define n where "n = min ?N (rampLeft st)"
  define o2 where "o2 = (if rampLeft st > 0 then fold ?st2 [0..<n] o1 else o1)"
  have pos: "0 < length out" using ne by simp
  have c1: "map length o1 = map length out \<and>
            (\<forall>c < length out. \<forall>f. o1 ! c ! f = (if f < ?N then ?st1 f out ! c ! f else out ! c ! f))"
    unfolding o1_def
  proof (rule fold_columns)
    fix k ob assume a: "map length ob = map length out"
      and b: "\<forall>c<length out. ob ! c ! k = out ! c ! k"
    show "\<forall>c<length out. wr ob 0 k (?v k) ! c ! k = wr out 0 k (?v k) ! c ! k"
      using b map_length_len[OF a] map_length_nth[OF a, of 0] by (auto simp: wr_nth)
  qed (simp_all add: wr_nth)
  have l1: "map length o1 = map length out" using c1 by simp
  have o1n: "o1 ! 0 ! f = ?v f" if "f < ?N" for f
    using c1 pos that l0 by (simp add: wr_nth)
  have c2: "map length (fold ?st2 [0..<n] o1) = map length o1 \<and>
            (\<forall>c < length o1. \<forall>f. fold ?st2 [0..<n] o1 ! c ! f =
                (if f < n then ?st2 f o1 ! c ! f else o1 ! c ! f))"
  proof (rule fold_columns)
    fix k ob assume a: "map length ob = map length o1"
      and b: "\<forall>c<length o1. ob ! c ! k = o1 ! c ! k"
    show "\<forall>c<length o1. ?st2 k ob ! c ! k = ?st2 k o1 ! c ! k"
      using b map_length_len[OF a] map_length_nth[OF a, of 0]
      by (auto simp: wr_nth rd_def Let_def)
  qed (simp_all add: wr_nth Let_def)
  have l2: "map length o2 = map length out" using c2 l1 by (simp add: o2_def)
  have len1: "length o1 = length out" by (rule map_length_len[OF l1])
  have l10: "length (o1 ! 0) = ?N" using map_length_nth[OF l1, of 0] pos len1 l0 by simp
  have o2n: "o2 ! 0 ! f = crossfade st (xfFromM st) f (?v f)" if f: "f < ?N" for f
  proof (cases "rampLeft st > 0")
    case False
    then show ?thesis using o1n[OF f] by (simp add: o2_def crossfade_def)
  next
    case True
    show ?thesis
    proof (cases "f < rampLeft st")
      case lt: True
      hence "f < n" using f by (simp add: n_def)
      then show ?thesis using True c2 len1 pos lt f l10 o1n[OF f]
        by (simp add: o2_def crossfade_def wr_nth rd_def Let_def)
    next
      case ge: False
      hence "\<not> f < n" by (simp add: n_def)
      then show ?thesis using True c2 len1 pos ge o1n[OF f]
        by (simp add: o2_def crossfade_def)
    qed
  qed
  have len2: "length o2 = length out" by (rule map_length_len[OF l2])
  have l20: "length (o2 ! 0) = ?N" using map_length_nth[OF l2, of 0] pos len2 l0 by simp
  have ch0: "o2 ! 0 = map (\<lambda>f. crossfade st (xfFromM st) f (?v f)) [0..<?N]"
    by (rule channel_eq[OF l20 o2n])
  have e: "snd (emitMono st out ?N) = fillFrom 1 0 o2"
    by (simp add: emitMono_def applyRampMono_def Let_def o2_def o1_def n_def
          split: prod.splits)
  have t: "take (Suc 0) o2 = [o2 ! 0]" using len2 pos by (cases o2) simp_all
  have "fillFrom 1 0 o2 = o2 ! 0 # map (\<lambda>c. replicate (length c) 0) (drop 1 out)"
    using zeros_tail[OF l2, of 1] t by (simp add: fillFrom_eq)
  then show ?thesis unfolding e ch0 by (simp add: drop_Suc)
qed

text \<open>The samples of a full quantum on the stereo path; \<open>r\<close> is the index of the right
  channel.\<close>

lemma emitStereo_folds:
  fixes out :: "rat list list" and st :: pcm and r :: nat
  assumes ne: "out \<noteq> []" and r: "r = rightIdx out"
      and l0: "length (out ! 0) = RENDER_QUANTUM_FRAMES"
      and lr: "length (out ! r) = RENDER_QUANTUM_FRAMES"
  shows "\<exists>o2. snd (emitStereo st out RENDER_QUANTUM_FRAMES) = fillFrom 2 0 o2 \<and>
           map length o2 = map length out \<and>
           (\<forall>f < RENDER_QUANTUM_FRAMES.
              (r = 1 \<longrightarrow>
                 o2 ! 0 ! f = crossfade st (xfFromL st) f (toF32 (readerOutput st ! (2 * f))) \<and>
                 o2 ! 1 ! f = crossfade st (xfFromR st) f (toF32 (readerOutput st ! (2 * f + 1)))) \<and>
              (r = 0 \<longrightarrow>
                 o2 ! 0 ! f = crossfade st (xfFromR st) f
                                (crossfade st (xfFromL st) f (toF32 (readerOutput st ! (2 * f + 1))))))"
proof -
  let ?N = "RENDER_QUANTUM_FRAMES"
  let ?l = "\<lambda>f. toF32 (readerOutput st ! (2 * f))"
  let ?rv = "\<lambda>f. toF32 (readerOutput st ! (2 * f + 1))"
  define st1 where "st1 = (\<lambda>f ob. wr (wr ob 0 f (?l f)) r f (?rv f))"
  define st2 where "st2 = (\<lambda>k ob. let a = rampCoeff st k; b = 1 - a;
                              oL = wr ob 0 k (b * xfFromL st + a * rd ob 0 k)
                          in wr oL r k (b * xfFromR st + a * rd oL r k))"
  define o1 where "o1 = fold st1 [0..<?N] out"
  define n where "n = min ?N (rampLeft st)"
  define o2 where "o2 = (if rampLeft st > 0 then fold st2 [0..<n] o1 else o1)"
  have pos: "0 < length out" using ne by simp
  have rlt: "r < length out" using r pos by (simp add: rightIdx_def)
  have r01: "r = 0 \<or> r = 1" using r by (simp add: rightIdx_def)
  have st1_nth: "st1 k ob ! c ! f =
           (if c = r \<and> f = k \<and> k < length (ob ! r) then ?rv k
            else if c = 0 \<and> f = k \<and> k < length (ob ! 0) then ?l k else ob ! c ! f)"
    if "length ob = length out" for k ob c f
    unfolding st1_def using wr2_nth[of r ob k "?l k" "?rv k" c f] rlt pos that by simp
  have st2_nth: "st2 k ob ! c ! f =
           (if c = r \<and> f = k \<and> k < length (ob ! r)
            then (1 - rampCoeff st k) * xfFromR st + rampCoeff st k *
                   (if r = 0 \<and> k < length (ob ! 0)
                    then (1 - rampCoeff st k) * xfFromL st + rampCoeff st k * (ob ! 0 ! k)
                    else ob ! r ! k)
            else if c = 0 \<and> f = k \<and> k < length (ob ! 0)
                 then (1 - rampCoeff st k) * xfFromL st + rampCoeff st k * (ob ! 0 ! k)
                 else ob ! c ! f)"
    if "length ob = length out" for k ob c f
  proof -
    let ?a = "rampCoeff st k"
    let ?X = "(1 - ?a) * xfFromL st + ?a * (ob ! 0 ! k)"
    let ?oL = "wr ob 0 k ?X"
    have rdL: "rd ?oL r k = (if r = 0 \<and> k < length (ob ! 0) then ?X else ob ! r ! k)"
      using pos that by (simp add: rd_def wr_nth)
    have "st2 k ob = wr (wr ob 0 k ?X) r k ((1 - ?a) * xfFromR st + ?a * rd ?oL r k)"
      by (simp add: st2_def Let_def rd_def)
    then show ?thesis
      using wr2_nth[of r ob k ?X "(1 - ?a) * xfFromR st + ?a * rd ?oL r k" c f] rlt pos that
      by (simp add: rdL)
  qed
  have c1: "map length o1 = map length out \<and>
            (\<forall>c < length out. \<forall>f. o1 ! c ! f = (if f < ?N then st1 f out ! c ! f else out ! c ! f))"
    unfolding o1_def
  proof (rule fold_columns)
    fix k ob show "map length (st1 k ob) = map length ob" by (simp add: st1_def)
  next
    fix k ob c f assume "f \<noteq> (k::nat)"
    then show "st1 k ob ! c ! f = ob ! c ! f" by (simp add: st1_def wr_nth)
  next
    fix k ob assume a: "map length ob = map length out"
      and b: "\<forall>c<length out. ob ! c ! k = out ! c ! k"
    have lo: "length ob = length out" by (rule map_length_len[OF a])
    have ln: "length (ob ! c) = length (out ! c)" if "c < length out" for c
      using map_length_nth[OF a, of c] that lo by simp
    show "\<forall>c<length out. st1 k ob ! c ! k = st1 k out ! c ! k"
      using b ln[OF pos] ln[OF rlt] by (simp add: st1_nth[OF lo] st1_nth[OF refl])
  qed
  have l1: "map length o1 = map length out" using c1 by simp
  have len1: "length o1 = length out" by (rule map_length_len[OF l1])
  have ln1: "length (o1 ! c) = length (out ! c)" if "c < length out" for c
    using map_length_nth[OF l1, of c] that len1 by simp
  have c2: "map length (fold st2 [0..<n] o1) = map length o1 \<and>
            (\<forall>c < length o1. \<forall>f. fold st2 [0..<n] o1 ! c ! f =
                (if f < n then st2 f o1 ! c ! f else o1 ! c ! f))"
  proof (rule fold_columns)
    fix k ob show "map length (st2 k ob) = map length ob" by (simp add: st2_def Let_def)
  next
    fix k ob c f assume "f \<noteq> (k::nat)"
    then show "st2 k ob ! c ! f = ob ! c ! f" by (simp add: st2_def wr_nth Let_def)
  next
    fix k ob assume a: "map length ob = map length o1"
      and b: "\<forall>c<length o1. ob ! c ! k = o1 ! c ! k"
    have lo: "length ob = length out" using map_length_len[OF a] len1 by simp
    have ln: "length (ob ! c) = length (o1 ! c)" if "c < length out" for c
      using map_length_nth[OF a, of c] that lo by simp
    have b0: "ob ! 0 ! k = o1 ! 0 ! k" and br: "ob ! r ! k = o1 ! r ! k"
      using b pos rlt len1 by simp_all
    show "\<forall>c<length o1. st2 k ob ! c ! k = st2 k o1 ! c ! k"
      using b ln[OF pos] ln[OF rlt] b0 br by (simp add: st2_nth[OF lo] st2_nth[OF len1])
  qed
  have l2: "map length o2 = map length out" using c2 l1 by (simp add: o2_def)
  have ri: "rightIdx o1 = r" using r len1 by (simp add: rightIdx_def)
  have e: "snd (emitStereo st out ?N) = fillFrom 2 0 o2"
    using ri[unfolded o1_def st1_def]
    by (simp add: emitStereo_def applyRampStereo_def Let_def o2_def o1_def n_def
          st1_def st2_def r[symmetric] split: prod.splits)
  have o1L: "o1 ! 0 ! f = (if r = 0 then ?rv f else ?l f)" if "f < ?N" for f
    using c1 pos that l0 lr by (simp add: st1_nth[OF refl])
  have o1R: "o1 ! r ! f = ?rv f" if "f < ?N" for f
    using c1 rlt that l0 lr by (simp add: st1_nth[OF refl])
  have vals: "(r = 1 \<longrightarrow>
                 o2 ! 0 ! f = crossfade st (xfFromL st) f (?l f) \<and>
                 o2 ! 1 ! f = crossfade st (xfFromR st) f (?rv f)) \<and>
              (r = 0 \<longrightarrow>
                 o2 ! 0 ! f = crossfade st (xfFromR st) f (crossfade st (xfFromL st) f (?rv f)))"
    if f: "f < ?N" for f
  proof (cases "rampLeft st > 0 \<and> f < rampLeft st")
    case False
    hence "o2 ! c ! f = o1 ! c ! f" if "c < length out" for c
      using c2 len1 that by (auto simp: o2_def n_def)
    then show ?thesis using False o1L[OF f] o1R[OF f] pos rlt
      by (auto simp: crossfade_def)
  next
    case True
    hence fn: "f < n" using f by (simp add: n_def)
    have v: "o2 ! c ! f = st2 f o1 ! c ! f" if "c < length out" for c
      using c2 len1 that True fn by (simp add: o2_def)
    show ?thesis
      using v[OF pos] v[OF rlt] True o1L[OF f] o1R[OF f] f l0 lr ln1[OF pos] ln1[OF rlt]
      by (auto simp: st2_nth[OF len1] crossfade_def)
  qed
  show ?thesis using e l2 vals by blast
qed

lemma crossfade_cong:
  "rampLen a = rampLen b \<Longrightarrow> rampLeft a = rampLeft b \<Longrightarrow> crossfade a = crossfade b"
  by (intro ext) (simp add: crossfade_def rampCoeff_def)

lemma emitStereo_out2:
  assumes two: "2 \<le> length out"
      and l0: "length (out ! 0) = RENDER_QUANTUM_FRAMES"
      and l1: "length (out ! 1) = RENDER_QUANTUM_FRAMES"
  shows "snd (emitStereo st out RENDER_QUANTUM_FRAMES) =
           map (\<lambda>f. crossfade st (xfFromL st) f (toF32 (readerOutput st ! (2 * f))))
               [0..<RENDER_QUANTUM_FRAMES]
           # map (\<lambda>f. crossfade st (xfFromR st) f (toF32 (readerOutput st ! (2 * f + 1))))
               [0..<RENDER_QUANTUM_FRAMES]
           # map (\<lambda>c. replicate (length c) 0) (drop 2 out)"
proof -
  let ?N = "RENDER_QUANTUM_FRAMES"
  have ne: "out \<noteq> []" using two by auto
  have r: "1 = rightIdx out" using two by (simp add: rightIdx_def)
  from emitStereo_folds[OF ne r l0 l1, of st] obtain o2 where
    e: "snd (emitStereo st out ?N) = fillFrom 2 0 o2" and l2: "map length o2 = map length out"
    and v: "\<forall>f < ?N.
        o2 ! 0 ! f = crossfade st (xfFromL st) f (toF32 (readerOutput st ! (2 * f))) \<and>
        o2 ! 1 ! f = crossfade st (xfFromR st) f (toF32 (readerOutput st ! (2 * f + 1)))"
    by auto
  have len2: "length o2 = length out" by (rule map_length_len[OF l2])
  have l20: "length (o2 ! 0) = ?N" using map_length_nth[OF l2, of 0] len2 two l0 ne by simp
  have l21: "length (o2 ! 1) = ?N" using map_length_nth[OF l2, of 1] len2 two l1 by simp
  have ch0: "o2 ! 0 = map (\<lambda>f. crossfade st (xfFromL st) f (toF32 (readerOutput st ! (2 * f))))
                         [0..<?N]"
    by (rule channel_eq[OF l20]) (use v in simp)
  have ch1: "o2 ! 1 = map (\<lambda>f. crossfade st (xfFromR st) f (toF32 (readerOutput st ! (2 * f + 1))))
                         [0..<?N]"
    by (rule channel_eq[OF l21]) (use v in simp)
  have t: "take 2 o2 = [o2 ! 0, o2 ! 1]"
    using len2 two by (cases o2; cases "tl o2") auto
  have "fillFrom 2 0 o2 = o2 ! 0 # o2 ! 1 # map (\<lambda>c. replicate (length c) 0) (drop 2 out)"
    using zeros_tail[OF l2, of 2] t by (simp add: fillFrom_eq)
  then show ?thesis unfolding e ch0 ch1 by simp
qed

lemma emitStereo_out1:
  assumes one: "length out = 1"
      and l0: "length (out ! 0) = RENDER_QUANTUM_FRAMES"
  shows "snd (emitStereo st out RENDER_QUANTUM_FRAMES) =
           [map (\<lambda>f. crossfade st (xfFromR st) f
                       (crossfade st (xfFromL st) f (toF32 (readerOutput st ! (2 * f + 1)))))
                [0..<RENDER_QUANTUM_FRAMES]]"
proof -
  let ?N = "RENDER_QUANTUM_FRAMES"
  have ne: "out \<noteq> []" using one by auto
  have r: "0 = rightIdx out" using one by (simp add: rightIdx_def)
  from emitStereo_folds[OF ne r l0 l0, of st] obtain o2 where
    e: "snd (emitStereo st out ?N) = fillFrom 2 0 o2" and l2: "map length o2 = map length out"
    and v: "\<forall>f < ?N.
        o2 ! 0 ! f = crossfade st (xfFromR st) f
                       (crossfade st (xfFromL st) f (toF32 (readerOutput st ! (2 * f + 1))))"
    by auto
  have len2: "length o2 = 1" using map_length_len[OF l2] one by simp
  have l20: "length (o2 ! 0) = ?N" using map_length_nth[OF l2, of 0] len2 l0 by simp
  have ch0: "o2 ! 0 = map (\<lambda>f. crossfade st (xfFromR st) f
                       (crossfade st (xfFromL st) f (toF32 (readerOutput st ! (2 * f + 1)))))
                         [0..<?N]"
    by (rule channel_eq[OF l20]) (use v in simp)
  have o: "o2 = [o2 ! 0]" using len2 by (cases o2) auto
  have "fillFrom 2 0 o2 = [o2 ! 0]" using o len2 by (simp add: fillFrom_eq)
  then show ?thesis unfolding e ch0 .
qed

text \<open>The output of \<open>deliver\<close> is the output of the emitting loop, run in the state
  with the samples read and the ramp begun.\<close>

lemma deliver_out:
  assumes le: "aligned \<le> available (getReadInfo (reader s0))"
      and len: "aligned \<le> length (readerOutput s0)"
  shows "\<exists>s2. snd (deliver s0 out aligned) =
                 snd (if channels s0 = 2 then emitStereo s2 out (aligned div channels s0)
                      else emitMono s2 out (aligned div channels s0)) \<and>
              readerOutput s2 = set_at (readerOutput s0)
                (fst (snd (readTo (reader s0) (subarray (readerOutput s0) 0 aligned)))) 0 \<and>
              rampLen s2 = rampLen (if needRamp s0 \<and> rampLeft s0 = 0 then beginRamp s0 else s0) \<and>
              rampLeft s2 = rampLeft (if needRamp s0 \<and> rampLeft s0 = 0 then beginRamp s0 else s0) \<and>
              xfFromL s2 = xfFromL (if needRamp s0 \<and> rampLeft s0 = 0 then beginRamp s0 else s0) \<and>
              xfFromR s2 = xfFromR (if needRamp s0 \<and> rampLeft s0 = 0 then beginRamp s0 else s0) \<and>
              xfFromM s2 = xfFromM (if needRamp s0 \<and> rampLeft s0 = 0 then beginRamp s0 else s0)"
proof -
  have l: "length (subarray (readerOutput s0) 0 aligned) = aligned"
    using len by (simp add: subarray_def)
  have got: "snd (snd (readTo (reader s0) (subarray (readerOutput s0) 0 aligned))) = aligned"
    using l le by (simp add: readTo_count)
  obtain rb tgt g where r: "readTo (reader s0) (subarray (readerOutput s0) 0 aligned) = (rb, tgt, g)"
    by (cases "readTo (reader s0) (subarray (readerOutput s0) 0 aligned)") auto
  with got have g: "g = aligned" by simp
  define s1 where "s1 = s0\<lparr>reader := rb, readerOutput := set_at (readerOutput s0) tgt 0\<rparr>"
  define s2 where "s2 = (if needRamp s1 \<and> rampLeft s1 = 0 then beginRamp s1 else s1)"
  have ch: "channels s1 = channels s0" "channels s2 = channels s0"
    by (simp_all add: s1_def s2_def beginRamp_def Let_def)
  have d: "snd (deliver s0 out aligned) =
      snd (if channels s0 = 2 then emitStereo s2 out (aligned div channels s0)
                      else emitMono s2 out (aligned div channels s0))"
    unfolding deliver_def r g Let_def prod.case s1_def[symmetric] s2_def[symmetric] ch
    by (simp split: prod.splits)
  have ro: "readerOutput s2 = set_at (readerOutput s0) tgt 0" by (simp add: s2_def s1_def)
  have f: "rampLen s2 = rampLen (if needRamp s0 \<and> rampLeft s0 = 0 then beginRamp s0 else s0)"
    "rampLeft s2 = rampLeft (if needRamp s0 \<and> rampLeft s0 = 0 then beginRamp s0 else s0)"
    "xfFromL s2 = xfFromL (if needRamp s0 \<and> rampLeft s0 = 0 then beginRamp s0 else s0)"
    "xfFromR s2 = xfFromR (if needRamp s0 \<and> rampLeft s0 = 0 then beginRamp s0 else s0)"
    "xfFromM s2 = xfFromM (if needRamp s0 \<and> rampLeft s0 = 0 then beginRamp s0 else s0)"
    by (simp_all add: s2_def s1_def beginRamp_def Let_def)
  show ?thesis using d ro f unfolding r by (intro exI[of _ s2]) simp
qed

lemma process_full:
  assumes w: "wf st" and f: "fullQuantum st" and ne: "out \<noteq> []"
  shows "process st out = Some (deliver (prime st) out (RENDER_QUANTUM_FRAMES * channels st))"
proof -
  have al: "alignedOf st = RENDER_QUANTUM_FRAMES * channels st"
    by (rule fullQuantum_aligned[OF w f])
  have ch: "1 \<le> channels st" using w by (simp add: wf_def)
  have np: "\<not> priming st" using f by (simp add: fullQuantum_def)
  have n0: "alignedOf st \<noteq> 0" using al ch by (simp add: RENDER_QUANTUM_FRAMES_def)
  show ?thesis using process_deliver[OF np n0 ne] al by simp
qed

lemma full_output:
  assumes w: "wf st" and f: "fullQuantum st" and ne: "out \<noteq> []"
      and len: "\<forall>c \<in> set out. length c = RENDER_QUANTUM_FRAMES"
  shows "snd (deliver (prime st) out (RENDER_QUANTUM_FRAMES * channels st)) = expectedOutput st out"
proof -
  let ?N = "RENDER_QUANTUM_FRAMES"
  let ?n = "?N * channels st"
  let ?tg = "subarray (readerOutput st) 0 ?n"
  let ?r = "if (needRamp st \<or> \<not> primed st) \<and> rampLeft st = 0 then beginRamp st else st"
  let ?smp = "ringContents (reader st) ?n"
  have ch: "1 \<le> channels st" using w by (simp add: wf_def)
  have av: "?n \<le> available (getReadInfo (reader st))" using f by (simp add: fullQuantum_def)
  have ok: "ring_ok (reader st)" using w by (simp add: wf_def)
  have lro: "length (readerOutput st) = ?n" using w by (simp add: wf_def)
  have le: "?n \<le> available (getReadInfo (reader (prime st)))"
    "?n \<le> length (readerOutput (prime st))"
    using av lro by simp_all
  have lt: "length ?tg = ?n" using lro by (simp add: subarray_def)
  have k: "min (available (getReadInfo (reader st))) (length ?tg) = ?n" using av lt by simp
  note rf = readTo_facts[OF ok refl refl, of ?tg, unfolded k]
  have fg: "?n div channels (prime st) = ?N" using ch by simp
  from deliver_out[OF le, of out] obtain s2 where
    d: "snd (deliver (prime st) out ?n) =
          snd (if channels (prime st) = 2 then emitStereo s2 out (?n div channels (prime st))
               else emitMono s2 out (?n div channels (prime st)))"
    and ro: "readerOutput s2 = set_at (readerOutput (prime st))
                (fst (snd (readTo (reader (prime st)) (subarray (readerOutput (prime st)) 0 ?n)))) 0"
    and rl: "rampLen s2 = rampLen (if needRamp (prime st) \<and> rampLeft (prime st) = 0
                                   then beginRamp (prime st) else prime st)"
            "rampLeft s2 = rampLeft (if needRamp (prime st) \<and> rampLeft (prime st) = 0
                                   then beginRamp (prime st) else prime st)"
            "xfFromL s2 = xfFromL (if needRamp (prime st) \<and> rampLeft (prime st) = 0
                                   then beginRamp (prime st) else prime st)"
            "xfFromR s2 = xfFromR (if needRamp (prime st) \<and> rampLeft (prime st) = 0
                                   then beginRamp (prime st) else prime st)"
            "xfFromM s2 = xfFromM (if needRamp (prime st) \<and> rampLeft (prime st) = 0
                                   then beginRamp (prime st) else prime st)"
    by blast
  have ro': "readerOutput s2 = ?smp @ drop ?n (readerOutput st)"
    using ro rf(8) lt by (simp add: set_at_def)
  have smp: "readerOutput s2 ! i = ?smp ! i" if "i < ?n" for i
    using that by (simp add: ro' nth_append)
  have rr: "rampLen s2 = rampLen ?r" "rampLeft s2 = rampLeft ?r"
    "xfFromL s2 = xfFromL ?r" "xfFromR s2 = xfFromR ?r" "xfFromM s2 = xfFromM ?r"
    using rl by (auto simp: prime_def beginRamp_def Let_def)
  have cf: "crossfade s2 = crossfade ?r" by (rule crossfade_cong[OF rr(1) rr(2)])
  have l0: "length (out ! 0) = ?N" using len ne by (cases out) simp_all
  show ?thesis
  proof (cases "channels st = 2")
    case False
    have nN: "?N \<le> ?n" using ch by simp
    have m: "map (\<lambda>f. crossfade s2 (xfFromM s2) f (toF32 (readerOutput s2 ! f))) [0..<?N] =
             map (\<lambda>f. crossfade ?r (xfFromM ?r) f (toF32 (?smp ! f))) [0..<?N]"
    proof (rule map_cong[OF refl])
      fix f assume "f \<in> set [0..<?N]"
      hence fl: "f < ?N" by simp
      have "f < ?n" by (rule less_le_trans[OF fl nN])
      from smp[OF this]
      show "crossfade s2 (xfFromM s2) f (toF32 (readerOutput s2 ! f)) =
            crossfade ?r (xfFromM ?r) f (toF32 (?smp ! f))"
        unfolding cf rr by (simp only:)
    qed
    show ?thesis
      unfolding d fg using False emitMono_out[OF ne l0, of s2] m
      by (simp add: expectedOutput_def Let_def)
  next
    case True
    have n2: "?n = 2 * ?N" using True by simp
    show ?thesis
    proof (cases "2 \<le> length out")
      case two: True
      have l1: "length (out ! 1) = ?N" using len two by (simp add: nth_mem)
      have mL: "map (\<lambda>f. crossfade s2 (xfFromL s2) f (toF32 (readerOutput s2 ! (2 * f)))) [0..<?N] =
                map (\<lambda>f. crossfade ?r (xfFromL ?r) f (toF32 (?smp ! (2 * f)))) [0..<?N]"
      proof (rule map_cong[OF refl])
        fix f assume "f \<in> set [0..<?N]"
        hence "2 * f < ?n" using n2 by simp
        from smp[OF this]
        show "crossfade s2 (xfFromL s2) f (toF32 (readerOutput s2 ! (2 * f))) =
              crossfade ?r (xfFromL ?r) f (toF32 (?smp ! (2 * f)))"
          unfolding cf rr by (simp only:)
      qed
      have mR: "map (\<lambda>f. crossfade s2 (xfFromR s2) f (toF32 (readerOutput s2 ! (2 * f + 1)))) [0..<?N] =
                map (\<lambda>f. crossfade ?r (xfFromR ?r) f (toF32 (?smp ! (2 * f + 1)))) [0..<?N]"
      proof (rule map_cong[OF refl])
        fix f assume "f \<in> set [0..<?N]"
        hence "2 * f + 1 < ?n" using n2 by simp
        from smp[OF this]
        show "crossfade s2 (xfFromR s2) f (toF32 (readerOutput s2 ! (2 * f + 1))) =
              crossfade ?r (xfFromR ?r) f (toF32 (?smp ! (2 * f + 1)))"
          unfolding cf rr by (simp only:)
      qed
      show ?thesis
        unfolding d fg using True two emitStereo_out2[OF two l0 l1, of s2] mL mR
        by (simp add: expectedOutput_def Let_def)
    next
      case False
      have "0 < length out" using ne by simp
      hence one: "length out = 1" using False by linarith
      have mA: "map (\<lambda>f. crossfade s2 (xfFromR s2) f
                       (crossfade s2 (xfFromL s2) f (toF32 (readerOutput s2 ! (2 * f + 1))))) [0..<?N] =
                map (\<lambda>f. crossfade ?r (xfFromR ?r) f
                       (crossfade ?r (xfFromL ?r) f (toF32 (?smp ! (2 * f + 1))))) [0..<?N]"
      proof (rule map_cong[OF refl])
        fix f assume "f \<in> set [0..<?N]"
        hence "2 * f + 1 < ?n" using n2 by simp
        from smp[OF this]
        show "crossfade s2 (xfFromR s2) f
                (crossfade s2 (xfFromL s2) f (toF32 (readerOutput s2 ! (2 * f + 1)))) =
              crossfade ?r (xfFromR ?r) f
                (crossfade ?r (xfFromL ?r) f (toF32 (?smp ! (2 * f + 1))))"
          unfolding cf rr by (simp only:)
      qed
      show ?thesis
        unfolding d fg using True False emitStereo_out1[OF one l0, of s2] mA
        by (simp add: expectedOutput_def Let_def)
    qed
  qed
qed

text \<open>
  Claim C1. In every state the worklet can reach: a quantum that finds the worklet not
  primed and fewer than \<open>targetPrerollQ * 128 * channels\<close> samples available leaves the
  state (and with it the ring's read index) as it is and fills every output channel
  with zeros; a quantum that finds the threshold reached primes the worklet, consumes
  the next \<open>128 * channels\<close> samples of the ring and, where every output array holds
  128 frames, emits exactly these samples: scaled to floats, de-interleaved and faded in
  from the held sample while the ramp lasts (\<open>expectedOutput\<close>). With no \<open>prerollMs\<close>
  option and a positive sample rate, the initial target is the base preroll
  \<open>ceil(8 * streamSR / (1000 * 128))\<close>.
\<close>

theorem priming_silence_and_preroll:
  assumes ok: "ring_ok (opt_sab opts)"
      and run: "wrun (constructor sampleRate opts) evs = Some st"
  shows "(\<not> primed st \<and>
          available (getReadInfo (reader st))
            < targetPrerollQ st * (RENDER_QUANTUM_FRAMES * channels st) \<longrightarrow>
            process st out = Some (st, map (\<lambda>c. replicate (length c) 0) out))
       \<and> (\<not> primed st \<and>
          targetPrerollQ st * (RENDER_QUANTUM_FRAMES * channels st)
            \<le> available (getReadInfo (reader st)) \<and> out \<noteq> [] \<longrightarrow>
            (\<exists>st' out'. process st out = Some (st', out') \<and> primed st' \<and>
               readPointer (reader st') =
                 (readPointer (reader st) + RENDER_QUANTUM_FRAMES * channels st)
                   mod length (storage (reader st)) \<and>
               take (RENDER_QUANTUM_FRAMES * channels st) (readerOutput st') =
                 ringContents (reader st) (RENDER_QUANTUM_FRAMES * channels st) \<and>
               ((\<forall>c \<in> set out. length c = RENDER_QUANTUM_FRAMES) \<longrightarrow>
                  out' = expectedOutput st out)))
       \<and> (opt_prerollMs opts = None \<and> 0 < sampleRate \<longrightarrow>
            targetPrerollQ (constructor sampleRate opts)
              = basePrerollQ (constructor sampleRate opts) \<and>
            int (basePrerollQ (constructor sampleRate opts))
              = \<lceil>8 * streamSR (constructor sampleRate opts) / (1000 * 128)\<rceil>)"
proof (intro conjI impI)
  assume "\<not> primed st \<and> available (getReadInfo (reader st))
            < targetPrerollQ st * (RENDER_QUANTUM_FRAMES * channels st)"
  then have "priming st" by (simp add: priming_iff)
  then show "process st out = Some (st, map (\<lambda>c. replicate (length c) 0) out)"
    by (rule process_priming)
next
  assume a: "\<not> primed st \<and>
          targetPrerollQ st * (RENDER_QUANTUM_FRAMES * channels st)
            \<le> available (getReadInfo (reader st)) \<and> out \<noteq> []"
  have w: "wf st" using wf_wrun[OF wf_constructor[OF ok] run] .
  then have "1 \<le> targetPrerollQ st" by (simp add: wf_def)
  then have "1 * (RENDER_QUANTUM_FRAMES * channels st)
               \<le> targetPrerollQ st * (RENDER_QUANTUM_FRAMES * channels st)"
    by (rule mult_le_mono1)
  then have "RENDER_QUANTUM_FRAMES * channels st
               \<le> targetPrerollQ st * (RENDER_QUANTUM_FRAMES * channels st)"
    by (simp only: mult_1)
  with a have "RENDER_QUANTUM_FRAMES * channels st \<le> available (getReadInfo (reader st))"
    by (blast intro: order_trans)
  with a have f: "fullQuantum st" by (simp add: fullQuantum_def priming_iff)
  from a have ne: "out \<noteq> []" by simp
  from full_step[OF w f ne] obtain s' out' where
    s: "process st out = Some (s', out')"
       "sameCtl s' (account (prime st) RENDER_QUANTUM_FRAMES)"
       "readPointer (reader s') =
             (readPointer (reader st) + RENDER_QUANTUM_FRAMES * channels st)
               mod length (storage (reader st))"
       "take (RENDER_QUANTUM_FRAMES * channels st) (readerOutput s') =
             ringContents (reader st) (RENDER_QUANTUM_FRAMES * channels st)"
    by blast
  have "primed (account (prime st) RENDER_QUANTUM_FRAMES)"
    using a by (simp add: account_full prime_def Let_def)
  then have p: "primed s'" using s(2) by (simp add: sameCtl_def)
  have o: "out' = snd (deliver (prime st) out (RENDER_QUANTUM_FRAMES * channels st))"
    using s(1) process_full[OF w f ne] by simp
  have e: "(\<forall>c \<in> set out. length c = RENDER_QUANTUM_FRAMES) \<longrightarrow> out' = expectedOutput st out"
    unfolding o using full_output[OF w f ne] by blast
  from s p e show "\<exists>st' out'. process st out = Some (st', out') \<and> primed st' \<and>
               readPointer (reader st') =
                 (readPointer (reader st) + RENDER_QUANTUM_FRAMES * channels st)
                   mod length (storage (reader st)) \<and>
               take (RENDER_QUANTUM_FRAMES * channels st) (readerOutput st') =
                 ringContents (reader st) (RENDER_QUANTUM_FRAMES * channels st) \<and>
               ((\<forall>c \<in> set out. length c = RENDER_QUANTUM_FRAMES) \<longrightarrow>
                  out' = expectedOutput st out)"
    by blast
next
  assume "opt_prerollMs opts = None \<and> 0 < sampleRate"
  then show "targetPrerollQ (constructor sampleRate opts) = basePrerollQ (constructor sampleRate opts)"
    using base_default(1) by blast
next
  assume "opt_prerollMs opts = None \<and> 0 < sampleRate"
  then show "int (basePrerollQ (constructor sampleRate opts))
              = \<lceil>8 * streamSR (constructor sampleRate opts) / (1000 * 128)\<rceil>"
    using base_default(2) by blast
qed

lemma demo_base: "quantaFromMs 8 48000 = 3" "quantaFromMs 40 48000 = 15"
  by (simp_all add: quantaFromMs_def RENDER_QUANTUM_FRAMES_def)

lemma demo_ctor:
  "constructor 48000 demo_opts =
     \<lparr>channels = 1, reader = \<lparr>storage = replicate 1024 0, writePointer = 0, readPointer = 0\<rparr>,
      readerOutput = replicate 128 0, streamSR = 48000, basePrerollQ = 3, targetPrerollQ = 3,
      maxPrerollQ = 15, primed = False, stableBlocks = 0, softUnderruns = 0, hardUnderruns = 0,
      rampMs = 8, rampLen = 0, rampLeft = 0, needRamp = True, xfFromL = 0, xfFromR = 0, xfFromM = 0,
      lastL = 0, lastR = 0, lastM = 0, reportedUnderrun = False, port = []\<rparr>"
  by (simp add: constructor_def demo_opts_def demo_base RENDER_QUANTUM_FRAMES_def)

lemma demo_write:
  "fst (ringWrite \<lparr>storage = replicate 1024 0, writePointer = 0, readPointer = 0\<rparr> (replicate 384 7))
    = \<lparr>storage = replicate 384 7 @ replicate 640 0, writePointer = 384, readPointer = 0\<rparr>"
  by (simp add: ringWrite_def available_eq Let_def set_at_def)

lemma demo_expected:
  "expectedOutput
     ((constructor 48000 demo_opts)
        \<lparr>reader := \<lparr>storage = replicate 384 7 @ replicate 640 0, writePointer = 384,
                     readPointer = 0\<rparr>\<rparr>)
     [replicate 128 5]
   = [map (\<lambda>f. (rat_of_nat f + 1) / 384 * (7 / 32768)) [0..<128]]"
proof -
  let ?c = "constructor 48000 demo_opts"
  let ?rb = "\<lparr>storage = replicate 384 7 @ replicate 640 0, writePointer = 384,
               readPointer = 0\<rparr>"
  let ?d = "?c\<lparr>reader := ?rb\<rparr>"
  have cf: "channels ?c = 1" "needRamp ?c" "rampLeft ?c = 0" "lastM ?c = 0"
    "streamSR ?c = 48000" "rampMs ?c = 8"
    by (simp_all add: demo_ctor)
  have rc: "ringContents ?rb 128 = replicate 128 7"
    by (rule nth_equalityI) (simp_all add: ringContents_def nth_append)
  define r where "r = beginRamp ?d"
  have rf: "rampLen r = 384" "rampLeft r = 384" "xfFromM r = 0"
    by (simp_all add: r_def beginRamp_def Let_def cf)
  have e1: "expectedOutput ?d [replicate 128 5] =
              [map (\<lambda>f. crossfade r (xfFromM r) f (toF32 (replicate 128 7 ! f))) [0..<128]]"
    using rc by (simp add: expectedOutput_def Let_def cf r_def RENDER_QUANTUM_FRAMES_def)
  have "map (\<lambda>f. crossfade r (xfFromM r) f (toF32 (replicate 128 7 ! f))) [0..<128]
        = map (\<lambda>f. (rat_of_nat f + 1) / 384 * (7 / 32768)) [0..<128]"
  proof (rule map_cong[OF refl])
    fix f :: nat assume "f \<in> set [0..<128]"
    hence fl: "f < 128" by simp
    show "crossfade r (xfFromM r) f (toF32 (replicate 128 7 ! f))
            = (rat_of_nat f + 1) / 384 * (7 / 32768)"
      using fl by (simp add: crossfade_def rampCoeff_def rf toF32_def)
  qed
  then show ?thesis unfolding e1 by simp
qed

text \<open>The statement of claim C1 at the 48 kHz worklet of \<open>demo_opts\<close>: silence before
  the preroll is there, and then the first 128 of the samples 7, faded in over the
  384 frames of the ramp.\<close>

theorem priming_silence_and_preroll_witness:
  "ring_ok (opt_sab demo_opts) \<and>
   wrun (constructor 48000 demo_opts) [] = Some (constructor 48000 demo_opts) \<and>
   \<not> primed (constructor 48000 demo_opts) \<and>
   process (constructor 48000 demo_opts) [replicate 128 5] =
      Some (constructor 48000 demo_opts, [replicate 128 0]) \<and>
   targetPrerollQ (constructor 48000 demo_opts) = 3 \<and>
   (\<exists>st' out'. process (the (wrun (constructor 48000 demo_opts) [Write (replicate 384 7)]))
                  [replicate 128 5] = Some (st', out') \<and> primed st' \<and>
       readPointer (reader st') = 128 \<and> take 128 (readerOutput st') = replicate 128 7 \<and>
       out' = [map (\<lambda>f. (rat_of_nat f + 1) / 384 * (7 / 32768)) [0..<128]])"
proof -
  let ?c = "constructor 48000 demo_opts"
  let ?d = "the (wrun ?c [Write (replicate 384 7)])"
  have ok: "ring_ok (opt_sab demo_opts)" by (simp add: ring_ok_def demo_opts_def)
  have r0: "wrun ?c [] = Some ?c" by simp
  have r1: "wrun ?c [Write (replicate 384 7)] = Some ?d" by simp
  have d: "?d = ?c\<lparr>reader := \<lparr>storage = replicate 384 7 @ replicate 640 0, writePointer = 384, readPointer = 0\<rparr>\<rparr>"
    by (simp add: demo_ctor demo_write)
  have c1: "\<not> primed ?c \<and> available (getReadInfo (reader ?c))
            < targetPrerollQ ?c * (RENDER_QUANTUM_FRAMES * channels ?c)"
    by (simp add: demo_ctor available_eq RENDER_QUANTUM_FRAMES_def)
  have c2: "\<not> primed ?d \<and> targetPrerollQ ?d * (RENDER_QUANTUM_FRAMES * channels ?d)
            \<le> available (getReadInfo (reader ?d)) \<and> [replicate 128 (5::rat)] \<noteq> []"
    unfolding d by (simp add: demo_ctor available_eq RENDER_QUANTUM_FRAMES_def)
  have c3: "\<forall>c \<in> set [replicate 128 (5::rat)]. length c = RENDER_QUANTUM_FRAMES"
    by (simp add: RENDER_QUANTUM_FRAMES_def)
  have rc: "ringContents (reader ?d) 128 = replicate 128 7"
    unfolding d by (rule nth_equalityI) (simp_all add: demo_ctor ringContents_def nth_append)
  have ex: "expectedOutput ?d [replicate 128 5] =
              [map (\<lambda>f. (rat_of_nat f + 1) / 384 * (7 / 32768)) [0..<128]]"
    unfolding d by (rule demo_expected)
  note t0 = priming_silence_and_preroll[OF ok r0, of "[replicate 128 5]"]
  note t1 = priming_silence_and_preroll[OF ok r1, of "[replicate 128 5]"]
  have a: "process ?c [replicate 128 5] = Some (?c, [replicate 128 0])"
    using t0 c1 by simp
  have b: "targetPrerollQ ?c = 3" by (simp add: demo_ctor)
  from t1 c2 c3 obtain st' out' where
    "process ?d [replicate 128 5] = Some (st', out')" "primed st'"
    "readPointer (reader st') =
       (readPointer (reader ?d) + RENDER_QUANTUM_FRAMES * channels ?d)
         mod length (storage (reader ?d))"
    "take (RENDER_QUANTUM_FRAMES * channels ?d) (readerOutput st') =
       ringContents (reader ?d) (RENDER_QUANTUM_FRAMES * channels ?d)"
    "out' = expectedOutput ?d [replicate 128 5]"
    by blast
  then have e: "\<exists>st' out'. process ?d [replicate 128 5] = Some (st', out') \<and> primed st' \<and>
       readPointer (reader st') = 128 \<and> take 128 (readerOutput st') = replicate 128 7 \<and>
       out' = [map (\<lambda>f. (rat_of_nat f + 1) / 384 * (7 / 32768)) [0..<128]]"
    using rc ex unfolding d by (simp add: demo_ctor RENDER_QUANTUM_FRAMES_def)
  show ?thesis using ok r0 c1 a b e by simp
qed

text \<open>
  Claim C5. For a ring whose indices are in range, \<open>readTo\<close> copies exactly
  \<open>min(available, target.length)\<close> samples, with \<open>available = (write - read) mod N\<close>:
  they are the next samples of the ring in order, the rest of the target is untouched,
  the read index advances by that count modulo \<open>N\<close>, and the distance left to the
  write index is the old one less the count, so the read index never passes the write
  index. In every history of writes and reads that starts from an empty ring, the
  samples read so far are a prefix of the samples written, and no more in number.
\<close>

theorem ring_reads_are_a_prefix:
  assumes ok: "ring_ok rb"
  shows "(let a = available (getReadInfo rb);
              rb' = fst (readTo rb target);
              tgt' = fst (snd (readTo rb target));
              k = snd (snd (readTo rb target))
          in int a = (int (writePointer rb) - int (readPointer rb)) mod int (length (storage rb)) \<and>
             k = min a (length target) \<and>
             take k tgt' = ringContents rb k \<and> drop k tgt' = drop k target \<and>
             readPointer rb' = (readPointer rb + k) mod length (storage rb) \<and>
             writePointer rb' = writePointer rb \<and>
             available (getReadInfo rb') + k = a)
       \<and> (writePointer rb = readPointer rb \<longrightarrow>
            prefix (readSeq (ringRun rb evs)) (written (ringRun rb evs)) \<and>
            length (readSeq (ringRun rb evs)) \<le> length (written (ringRun rb evs)))"
proof (intro conjI impI)
  note f = readTo_facts[OF ok refl refl, of target]
  have k: "min (available (getReadInfo rb)) (length target) \<le> length target" by simp
  show "let a = available (getReadInfo rb);
              rb' = fst (readTo rb target);
              tgt' = fst (snd (readTo rb target));
              k = snd (snd (readTo rb target))
          in int a = (int (writePointer rb) - int (readPointer rb)) mod int (length (storage rb)) \<and>
             k = min a (length target) \<and>
             take k tgt' = ringContents rb k \<and> drop k tgt' = drop k target \<and>
             readPointer rb' = (readPointer rb + k) mod length (storage rb) \<and>
             writePointer rb' = writePointer rb \<and>
             available (getReadInfo rb') + k = a"
    unfolding Let_def f(5) f(8) f(4) f(2) f(6)
    using avail_int[OF ok] by simp
next
  assume e: "writePointer rb = readPointer rb"
  have i: "trace_inv (ringRun rb evs)"
    unfolding ringRun_def by (rule trace_inv_foldl[OF trace_inv_init[OF ok e]])
  then show p: "prefix (readSeq (ringRun rb evs)) (written (ringRun rb evs))"
    by (simp add: trace_inv_def)
  show "length (readSeq (ringRun rb evs)) \<le> length (written (ringRun rb evs))"
    using p by (rule prefix_length_le)
qed

lemma demo_history_run:
  "ringRun demo_ring demo_history =
     \<lparr>tr_ring = \<lparr>storage = [7, 2, 3, 6], writePointer = 1, readPointer = 1\<rparr>,
      written = [1, 2, 3, 6, 7], readSeq = [1, 2, 3, 6, 7]\<rparr>"
  by (simp add: ringRun_def demo_ring_def demo_history_def ringWrite_def readTo_def
      getReadInfo_def Let_def set_at_def subarray_def)

text \<open>The statement of claim C5 at a ring of four samples.\<close>

theorem ring_reads_are_a_prefix_witness:
  "ring_ok demo_ring \<and> writePointer demo_ring = readPointer demo_ring \<and>
   readTo \<lparr>storage = [1, 2, 3, 0], writePointer = 3, readPointer = 0\<rparr> [9, 9]
     = (\<lparr>storage = [1, 2, 3, 0], writePointer = 3, readPointer = 2\<rparr>, [1, 2], 2) \<and>
   prefix (readSeq (ringRun demo_ring demo_history)) (written (ringRun demo_ring demo_history)) \<and>
   readSeq (ringRun demo_ring demo_history) = [1, 2, 3, 6, 7]"
proof -
  have ok: "ring_ok demo_ring" by (simp add: ring_ok_def demo_ring_def)
  have e: "writePointer demo_ring = readPointer demo_ring" by (simp add: demo_ring_def)
  have r: "readTo \<lparr>storage = [1, 2, 3, 0], writePointer = 3, readPointer = 0\<rparr> [9, 9]
     = (\<lparr>storage = [1, 2, 3, 0], writePointer = 3, readPointer = 2\<rparr>, [1, 2], 2)"
    by (simp add: readTo_def getReadInfo_def Let_def set_at_def subarray_def)
  have p: "prefix (readSeq (ringRun demo_ring demo_history)) (written (ringRun demo_ring demo_history))"
    using ring_reads_are_a_prefix[OF ok, of "[]" demo_history] e by simp
  show ?thesis using ok e r p by (simp add: demo_history_run)
qed


lemma rampLen_emit [simp]:
  "rampLen (fst (emitStereo st out n)) = rampLen st"
  "rampLen (fst (emitMono st out n)) = rampLen st"
  by (simp_all add: emitStereo_def emitMono_def applyRampStereo_def applyRampMono_def Let_def
      split: prod.splits if_splits)

lemma rampLen_account [simp]: "rampLen (account st n) = rampLen st"
  by (simp add: account_def Let_def)

lemma rampLen_deliver:
  "rampLen (fst (deliver s0 out aligned)) =
     rampLen (if needRamp s0 \<and> rampLeft s0 = 0 then beginRamp s0 else s0)"
  by (simp add: deliver_def Let_def case_prod_beta beginRamp_def)

lemma rampMs_default: "opt_rampMs opts = None \<Longrightarrow> rampMs (constructor sr opts) = 8"
  by (simp add: constructor_def Let_def)

text \<open>
  Claim C9 (the default ramp length). The comment on the \<open>rampMs\<close> option in the
  constructor gives its default as about 5 ms, but the field is initialised with 8 and
  nothing else sets it when the option is absent. At 48 kHz the first ramp after
  priming is therefore \<open>floor(48000 * 8 / 1000) = 384\<close> samples long, where 5 ms would
  be 240 samples.
\<close>

theorem default_ramp_is_8ms_not_5ms:
  "opt_rampMs demo_opts = None \<and>
   rampMs (constructor 48000 demo_opts) = 8 \<and>
   (\<exists>s' out'. process (the (wrun (constructor 48000 demo_opts) [Write (replicate 384 7)]))
                  [replicate 128 5] = Some (s', out') \<and>
               rampLen s' = 384 \<and>
               rampLen s' \<noteq> nat (max 1 \<lfloor>(48000 * 5) / (1000 :: rat)\<rfloor>))"
proof -
  let ?c = "constructor 48000 demo_opts"
  let ?d = "?c\<lparr>reader := \<lparr>storage = replicate 384 7 @ replicate 640 0, writePointer = 384, readPointer = 0\<rparr>\<rparr>"
  have d: "the (wrun ?c [Write (replicate 384 7)]) = ?d"
    by (simp add: demo_ctor demo_write)
  have np: "\<not> priming ?d"
    by (simp add: priming_iff demo_ctor available_eq RENDER_QUANTUM_FRAMES_def)
  have al: "alignedOf ?d = 128"
    by (simp add: alignedOf_def demo_ctor available_eq Let_def)
  have p: "process ?d [replicate 128 5] = Some (deliver (prime ?d) [replicate 128 5] 128)"
    using process_deliver[OF np, of "[replicate 128 5]"] al by simp
  have r: "rampLen (fst (deliver (prime ?d) [replicate 128 5] 128)) = 384"
    by (simp add: rampLen_deliver prime_def demo_ctor beginRamp_def)
  have "\<exists>s' out'. process ?d [replicate 128 5] = Some (s', out') \<and> rampLen s' = 384 \<and>
               rampLen s' \<noteq> nat (max 1 \<lfloor>(48000 * 5) / (1000 :: rat)\<rfloor>)"
    apply (rule exI[of _ "fst (deliver (prime ?d) [replicate 128 5] 128)"])
    apply (rule exI[of _ "snd (deliver (prime ?d) [replicate 128 5] 128)"])
    using p r by simp
  then show ?thesis unfolding d by (simp add: demo_opts_def rampMs_default)
qed

lemma alternates_snoc:
  "alternates (xs @ [m]) \<longleftrightarrow> alternates xs \<and> (xs = [] \<or> last xs \<noteq> m)"
  by (induction xs rule: alternates.induct) auto

lemma hard_step:
  "primed st \<Longrightarrow> alignedOf st = 0 \<Longrightarrow> out \<noteq> [] \<Longrightarrow>
   process st out = Some (hardUnderrun st, fillWithLast st out RENDER_QUANTUM_FRAMES)"
  using process_hard[of st out] by (simp add: priming_def)

lemma hardUnderrun_fields:
  "targetPrerollQ (hardUnderrun st) =
     (if targetPrerollQ st < maxPrerollQ st then targetPrerollQ st + 1 else targetPrerollQ st)"
  "\<not> primed (hardUnderrun st)"
  "port (hardUnderrun st) = (if reportedUnderrun st then port st else port st @ [Underrun])"
  "reportedUnderrun (hardUnderrun st)"
  "basePrerollQ (hardUnderrun st) = basePrerollQ st"
  "maxPrerollQ (hardUnderrun st) = maxPrerollQ st"
  "stableBlocks (hardUnderrun st) = 0"
  by (simp_all add: hardUnderrun_def Let_def)

lemma port_inv_sameCtl: "sameCtl a b \<Longrightarrow> port_inv a = port_inv b"
  by (simp add: port_inv_def sameCtl_def)

lemma port_inv_hard: "port_inv st \<Longrightarrow> port_inv (hardUnderrun st)"
  by (cases "port st = []") (auto simp: port_inv_def hardUnderrun_fields alternates_snoc)

lemma port_inv_prime: "port_inv (prime st) = port_inv st"
  by (simp add: port_inv_def)

lemma port_inv_account: "port_inv st \<Longrightarrow> port_inv (account st n)"
  by (cases "port st = []") (auto simp: port_inv_def account_def Let_def alternates_snoc)

lemma port_inv_process:
  assumes i: "port_inv st" and p: "process st out = Some (s', out')"
  shows "port_inv s'"
proof (cases "priming st")
  case True
  then show ?thesis using i p by (simp add: process_priming)
next
  case False
  then have ne: "out \<noteq> []" using p by (auto simp: process_def Let_def)
  show ?thesis
  proof (cases "alignedOf st = 0")
    case True
    then show ?thesis
      using False ne p port_inv_hard[of "prime st"] i by (simp add: process_hard port_inv_prime)
  next
    case a: False
    have s: "s' = fst (deliver (prime st) out (alignedOf (prime st)))"
      using False a ne p by (simp add: process_deliver)
    have "sameCtl s' (account (prime st) (alignedOf (prime st) div channels (prime st)))"
      unfolding s by (rule deliver_facts(1)[OF alignedOf_le])
    then show ?thesis
      using port_inv_account[of "prime st"] i by (simp add: port_inv_sameCtl port_inv_prime)
  qed
qed

lemma onmessage_port [simp]:
  "port (onmessage st m) = port st" "reportedUnderrun (onmessage st m) = reportedUnderrun st"
  by (simp_all add: onmessage_def Let_def)

lemma port_inv_wstep: "port_inv st \<Longrightarrow> wstep st e = Some s' \<Longrightarrow> port_inv s'"
proof (cases e)
  case (Write xs)
  assume "port_inv st" "wstep st e = Some s'"
  then show ?thesis using Write by (auto simp: port_inv_def)
next
  case (Quantum out)
  assume "port_inv st" "wstep st e = Some s'"
  then show ?thesis using Quantum by (auto dest: port_inv_process)
next
  case (Control m)
  assume "port_inv st" "wstep st e = Some s'"
  then show ?thesis using Control by (auto simp: port_inv_def)
qed

lemma port_inv_wrun: "port_inv st \<Longrightarrow> wrun st evs = Some s' \<Longrightarrow> port_inv s'"
  by (induction evs arbitrary: st) (auto split: option.splits dest: port_inv_wstep)

lemma port_inv_constructor: "port_inv (constructor sr opts)"
  by (simp add: port_inv_def constructor_def Let_def)

lemma nQuanta_simps [simp]:
  "nQuanta [] = 0" "nQuanta (Write xs # es) = nQuanta es"
  "nQuanta (Quantum out # es) = Suc (nQuanta es)" "nQuanta (Control m # es) = nQuanta es"
  by (simp_all add: nQuanta_def)

lemma full_step_ctl:
  assumes w: "wf st" and f: "fullQuantum st" and ne: "out \<noteq> []"
  shows "\<exists>s' out'. process st out = Some (s', out') \<and> wf s' \<and> primed s' \<and>
           basePrerollQ s' = basePrerollQ st \<and> maxPrerollQ s' = maxPrerollQ st \<and>
           (if 128 \<le> esb st + 1 \<and> basePrerollQ st < targetPrerollQ st
            then targetPrerollQ s' = targetPrerollQ st - 1 \<and> stableBlocks s' = 0
            else targetPrerollQ s' = targetPrerollQ st \<and> stableBlocks s' = esb st + 1)"
proof -
  from full_step[OF w f ne] obtain s' out' where
    p: "process st out = Some (s', out')" and w': "wf s'"
    and c: "sameCtl s' (account (prime st) RENDER_QUANTUM_FRAMES)"
    by blast
  have sb: "stableBlocks (prime st) = esb st" by (simp add: prime_def esb_def)
  have pr: "primed (prime st)" by (simp add: prime_def)
  let ?a = "account (prime st) RENDER_QUANTUM_FRAMES"
  have a: "primed ?a" "basePrerollQ ?a = basePrerollQ st" "maxPrerollQ ?a = maxPrerollQ st"
    "(if 128 \<le> esb st + 1 \<and> basePrerollQ st < targetPrerollQ st
            then targetPrerollQ ?a = targetPrerollQ st - 1 \<and> stableBlocks ?a = 0
            else targetPrerollQ ?a = targetPrerollQ st \<and> stableBlocks ?a = esb st + 1)"
    using sb pr by (simp_all add: account_full Let_def)
  show ?thesis
    apply (rule exI[of _ s'], rule exI[of _ out'])
    using p w' c a by (simp add: sameCtl_def)
qed

lemma fullRun_Quantum:
  assumes "fullRun st (Quantum out # es)"
  shows "fullQuantum st \<and> out \<noteq> [] \<and>
         (\<exists>s' out'. process st out = Some (s', out') \<and> fullRun s' es)"
proof -
  from assms have f: "fullQuantum st"
    and c: "(case process st out of None \<Rightarrow> False | Some (s', out') \<Rightarrow> fullRun s' es)"
    by simp_all
  from c obtain s' out' where p: "process st out = Some (s', out')" and r: "fullRun s' es"
    by (auto split: option.splits)
  have "out \<noteq> []"
  proof
    assume "out = []"
    with f have "process st out = None" by (simp add: process_None fullQuantum_def)
    with p show False by simp
  qed
  with f p r show ?thesis by blast
qed

lemma esb_write [simp]: "esb (st\<lparr>reader := r\<rparr>) = esb st"
  by (simp add: esb_def)

lemma stable_no_decrement:
  "wf st \<Longrightarrow> fullRun st evs \<Longrightarrow> esb st + nQuanta evs \<le> 127 \<Longrightarrow>
   \<exists>s'. wrun st evs = Some s' \<and> wf s' \<and> targetPrerollQ s' = targetPrerollQ st \<and>
        basePrerollQ s' = basePrerollQ st \<and> esb s' = esb st + nQuanta evs"
proof (induction evs arbitrary: st)
  case Nil
  then show ?case by simp
next
  case (Cons e es)
  show ?case
  proof (cases e)
    case (Write xs)
    let ?s = "st\<lparr>reader := fst (ringWrite (reader st) xs)\<rparr>"
    have "wf ?s" using Cons.prems(1) by (rule wf_write)
    moreover have "fullRun ?s es" using Cons.prems(2) Write by simp
    moreover have "esb ?s + nQuanta es \<le> 127" using Cons.prems(3) Write by simp
    ultimately obtain s' where "wrun ?s es = Some s'" "wf s'"
      "targetPrerollQ s' = targetPrerollQ ?s" "basePrerollQ s' = basePrerollQ ?s"
      "esb s' = esb ?s + nQuanta es"
      using Cons.IH[of ?s] by blast
    then show ?thesis using Write by simp
  next
    case (Quantum out)
    from fullRun_Quantum[OF Cons.prems(2)[unfolded Quantum]]
    obtain s1 o1 where f: "fullQuantum st" and ne: "out \<noteq> []"
      and p: "process st out = Some (s1, o1)" and fr: "fullRun s1 es" by blast
    from full_step_ctl[OF Cons.prems(1) f ne] p
    have s1: "wf s1" "primed s1" "basePrerollQ s1 = basePrerollQ st"
      "(if 128 \<le> esb st + 1 \<and> basePrerollQ st < targetPrerollQ st
            then targetPrerollQ s1 = targetPrerollQ st - 1 \<and> stableBlocks s1 = 0
            else targetPrerollQ s1 = targetPrerollQ st \<and> stableBlocks s1 = esb st + 1)"
      by auto
    have small: "\<not> 128 \<le> esb st + 1" using Cons.prems(3) Quantum by simp
    then have t1: "targetPrerollQ s1 = targetPrerollQ st" and e1: "esb s1 = esb st + 1"
      using s1 by (simp_all add: esb_def)
    have "esb s1 + nQuanta es \<le> 127" using Cons.prems(3) Quantum e1 by simp
    from Cons.IH[OF s1(1) fr this] obtain s' where "wrun s1 es = Some s'" "wf s'"
      "targetPrerollQ s' = targetPrerollQ s1" "basePrerollQ s' = basePrerollQ s1"
      "esb s' = esb s1 + nQuanta es" by blast
    then show ?thesis using Quantum p t1 e1 s1(3) by simp
  next
    case (Control m)
    then show ?thesis using Cons.prems(2) by simp
  qed
qed

lemma one_decrement:
  "wf st \<Longrightarrow> fullRun st evs \<Longrightarrow> basePrerollQ st < targetPrerollQ st \<Longrightarrow>
   max 1 (128 - esb st) \<le> nQuanta evs \<Longrightarrow> nQuanta evs \<le> max 1 (128 - esb st) + 127 \<Longrightarrow>
   \<exists>s'. wrun st evs = Some s' \<and> wf s' \<and> targetPrerollQ s' = targetPrerollQ st - 1 \<and>
        basePrerollQ s' = basePrerollQ st"
proof (induction evs arbitrary: st)
  case Nil
  then show ?case by simp
next
  case (Cons e es)
  show ?case
  proof (cases e)
    case (Write xs)
    let ?s = "st\<lparr>reader := fst (ringWrite (reader st) xs)\<rparr>"
    have "wf ?s" using Cons.prems(1) by (rule wf_write)
    moreover have "fullRun ?s es" using Cons.prems(2) Write by simp
    moreover have "basePrerollQ ?s < targetPrerollQ ?s" using Cons.prems(3) by simp
    moreover have "max 1 (128 - esb ?s) \<le> nQuanta es" using Cons.prems(4) Write by simp
    moreover have "nQuanta es \<le> max 1 (128 - esb ?s) + 127" using Cons.prems(5) Write by simp
    ultimately obtain s' where "wrun ?s es = Some s'" "wf s'"
      "targetPrerollQ s' = targetPrerollQ ?s - 1" "basePrerollQ s' = basePrerollQ ?s"
      using Cons.IH[of ?s] by blast
    then show ?thesis using Write by simp
  next
    case (Quantum out)
    from fullRun_Quantum[OF Cons.prems(2)[unfolded Quantum]]
    obtain s1 o1 where f: "fullQuantum st" and ne: "out \<noteq> []"
      and p: "process st out = Some (s1, o1)" and fr: "fullRun s1 es" by blast
    from full_step_ctl[OF Cons.prems(1) f ne] p
    have s1: "wf s1" "primed s1" "basePrerollQ s1 = basePrerollQ st"
      "(if 128 \<le> esb st + 1 \<and> basePrerollQ st < targetPrerollQ st
            then targetPrerollQ s1 = targetPrerollQ st - 1 \<and> stableBlocks s1 = 0
            else targetPrerollQ s1 = targetPrerollQ st \<and> stableBlocks s1 = esb st + 1)"
      by auto
    show ?thesis
    proof (cases "128 \<le> esb st + 1")
      case True
      then have t1: "targetPrerollQ s1 = targetPrerollQ st - 1" and e1: "esb s1 = 0"
        using s1 Cons.prems(3) by (simp_all add: esb_def)
      have "esb s1 + nQuanta es \<le> 127" using Cons.prems(5) Quantum True e1 by simp
      from stable_no_decrement[OF s1(1) fr this] obtain s' where "wrun s1 es = Some s'" "wf s'"
        "targetPrerollQ s' = targetPrerollQ s1" "basePrerollQ s' = basePrerollQ s1" by blast
      then show ?thesis using Quantum p t1 s1(3) by simp
    next
      case False
      then have t1: "targetPrerollQ s1 = targetPrerollQ st" and e1: "esb s1 = esb st + 1"
        using s1 by (simp_all add: esb_def)
      have b: "basePrerollQ s1 < targetPrerollQ s1" using Cons.prems(3) t1 s1(3) by simp
      have lo: "max 1 (128 - esb s1) \<le> nQuanta es"
        using Cons.prems(4) Quantum False e1 by simp
      have hi: "nQuanta es \<le> max 1 (128 - esb s1) + 127"
        using Cons.prems(5) Quantum False e1 by simp
      from Cons.IH[OF s1(1) fr b lo hi] obtain s' where "wrun s1 es = Some s'" "wf s'"
        "targetPrerollQ s' = targetPrerollQ s1 - 1" "basePrerollQ s' = basePrerollQ s1" by blast
      then show ?thesis using Quantum p t1 s1(3) by simp
    qed
  next
    case (Control m)
    then show ?thesis using Cons.prems(2) by simp
  qed
qed

lemma decrement_after_128:
  assumes "wf st" "fullRun st evs" "basePrerollQ st < targetPrerollQ st" "nQuanta evs = 128"
  shows "\<exists>s'. wrun st evs = Some s' \<and> targetPrerollQ s' = targetPrerollQ st - 1"
proof -
  have "max 1 (128 - esb st) \<le> nQuanta evs" "nQuanta evs \<le> max 1 (128 - esb st) + 127"
    using assms(4) by simp_all
  from one_decrement[OF assms(1-3) this] show ?thesis by blast
qed

lemma write_step:
  assumes w: "wf st"
  shows "wf (st\<lparr>reader := fst (ringWrite (reader st) xs)\<rparr>)"
    and "length (storage (fst (ringWrite (reader st) xs))) = length (storage (reader st))"
    and "available (getReadInfo (fst (ringWrite (reader st) xs))) =
           available (getReadInfo (reader st)) +
           min (length xs) (length (storage (reader st)) - 1 - available (getReadInfo (reader st)))"
proof -
  have ok: "ring_ok (reader st)" using w by (simp add: wf_def)
  note f = ringWrite_facts[OF ok refl refl, of xs]
  show "wf (st\<lparr>reader := fst (ringWrite (reader st) xs)\<rparr>)" by (rule wf_write[OF w])
  show "length (storage (fst (ringWrite (reader st) xs))) = length (storage (reader st))"
    by (rule f(3))
  show "available (getReadInfo (fst (ringWrite (reader st) xs))) =
           available (getReadInfo (reader st)) +
           min (length xs) (length (storage (reader st)) - 1 - available (getReadInfo (reader st)))"
    using f(5) by (simp add: min.commute)
qed

lemma quantum_full:
  assumes w: "wf st" and f: "fullQuantum st" and ne: "out \<noteq> []"
  shows "\<exists>s'. wstep st (Quantum out) = Some s' \<and> wf s' \<and> primed s' \<and>
           channels s' = channels st \<and>
           length (storage (reader s')) = length (storage (reader st)) \<and>
           available (getReadInfo (reader s')) + RENDER_QUANTUM_FRAMES * channels st
             = available (getReadInfo (reader st)) \<and>
           basePrerollQ s' = basePrerollQ st \<and> maxPrerollQ s' = maxPrerollQ st \<and>
           port s' = (if reportedUnderrun st then port st @ [Recovered] else port st) \<and>
           \<not> reportedUnderrun s' \<and>
           (if 128 \<le> esb st + 1 \<and> basePrerollQ st < targetPrerollQ st
            then targetPrerollQ s' = targetPrerollQ st - 1 \<and> stableBlocks s' = 0
            else targetPrerollQ s' = targetPrerollQ st \<and> stableBlocks s' = esb st + 1) \<and>
           (\<forall>es. fullRun st (Quantum out # es) = fullRun s' es)"
proof -
  from full_step[OF w f ne] obtain s' out' where
    p: "process st out = Some (s', out')" and w': "wf s'"
    and c: "sameCtl s' (account (prime st) RENDER_QUANTUM_FRAMES)"
    and s: "storage (reader s') = storage (reader st)"
    and a: "available (getReadInfo (reader s')) + RENDER_QUANTUM_FRAMES * channels st
             = available (getReadInfo (reader st))"
    by blast
  have sb: "stableBlocks (prime st) = esb st" by (simp add: prime_def esb_def)
  have pr: "primed (prime st)" by (simp add: prime_def)
  let ?a = "account (prime st) RENDER_QUANTUM_FRAMES"
  have k: "primed ?a" "basePrerollQ ?a = basePrerollQ st" "maxPrerollQ ?a = maxPrerollQ st"
    "channels ?a = channels st"
    "port ?a = (if reportedUnderrun st then port st @ [Recovered] else port st)"
    "\<not> reportedUnderrun ?a"
    "(if 128 \<le> esb st + 1 \<and> basePrerollQ st < targetPrerollQ st
            then targetPrerollQ ?a = targetPrerollQ st - 1 \<and> stableBlocks ?a = 0
            else targetPrerollQ ?a = targetPrerollQ st \<and> stableBlocks ?a = esb st + 1)"
    using sb pr by (simp_all add: account_full Let_def)
  have fr: "\<forall>es. fullRun st (Quantum out # es) = fullRun s' es"
    using p f by simp
  show ?thesis
    apply (rule exI[of _ s'])
    using p w' c s a k fr by (simp add: sameCtl_def)
qed

lemma hard_quantum:
  assumes "primed st" "alignedOf st = 0" "out \<noteq> []"
  shows "wstep st (Quantum out) = Some (hardUnderrun st)"
  using hard_step[OF assms] by simp

lemma alignedOf_zero: "available (getReadInfo (reader st)) = 0 \<Longrightarrow> alignedOf st = 0"
  by (simp add: alignedOf_def Let_def)

lemma fullQuantumI:
  "primed st \<or> targetPrerollQ st * (RENDER_QUANTUM_FRAMES * channels st)
       \<le> available (getReadInfo (reader st)) \<Longrightarrow>
   RENDER_QUANTUM_FRAMES * channels st \<le> available (getReadInfo (reader st)) \<Longrightarrow> fullQuantum st"
  by (auto simp: fullQuantum_def priming_def)

lemma fullRun_steady:
  assumes "wf st" "primed st" "channels st = 1" "out \<noteq> []"
    "available (getReadInfo (reader st)) + 128 < length (storage (reader st))"
  shows "fullRun st (concat (replicate n [Write (replicate 128 v), Quantum out]))"
  using assms
proof (induction n arbitrary: st)
  case 0
  then show ?case by simp
next
  case (Suc n)
  let ?s = "st\<lparr>reader := fst (ringWrite (reader st) (replicate 128 v))\<rparr>"
  note ws = write_step[OF Suc.prems(1), of "replicate 128 v"]
  have av: "available (getReadInfo (reader ?s)) = available (getReadInfo (reader st)) + 128"
    using ws(3) Suc.prems(5) by (simp add: min_def)
  have fq: "fullQuantum ?s"
    using Suc.prems(2,3) av by (intro fullQuantumI) (simp_all add: RENDER_QUANTUM_FRAMES_def)
  from quantum_full[OF ws(1) fq Suc.prems(4)] obtain s' where
    s': "wf s'" "primed s'" "channels s' = channels ?s"
        "length (storage (reader s')) = length (storage (reader ?s))"
        "available (getReadInfo (reader s')) + RENDER_QUANTUM_FRAMES * channels ?s
             = available (getReadInfo (reader ?s))"
        "\<forall>es. fullRun ?s (Quantum out # es) = fullRun s' es"
    by blast
  have a': "available (getReadInfo (reader s')) + 128 < length (storage (reader s'))"
    using s'(4,5) av ws(2) Suc.prems(3,5) by (simp add: RENDER_QUANTUM_FRAMES_def)
  have "fullRun s' (concat (replicate n [Write (replicate 128 v), Quantum out]))"
    using Suc.IH[OF s'(1) s'(2) _ Suc.prems(4) a'] s'(3) Suc.prems(3) by simp
  then show ?case using s'(6) by simp
qed

lemma nQuanta_steady [simp]:
  "nQuanta (concat (replicate n [Write xs, Quantum out])) = n"
  by (induction n) simp_all

lemma nQuanta_append [simp]: "nQuanta (xs @ ys) = nQuanta xs + nQuanta ys"
  by (simp add: nQuanta_def)

lemma wrun_append:
  "wrun st (xs @ ys) = (case wrun st xs of None \<Rightarrow> None | Some s \<Rightarrow> wrun s ys)"
  by (induction xs arbitrary: st) (auto split: option.splits)


lemma drain:
  assumes "wf st" "channels st = 1" "out \<noteq> []" "\<not> reportedUnderrun st"
    "primed st \<or> targetPrerollQ st * 128 \<le> available (getReadInfo (reader st))"
    "available (getReadInfo (reader st)) = k * 128" "esb st + k < 128" "0 < k"
  shows "\<exists>s'. wrun st (replicate k (Quantum out)) = Some s' \<and> wf s' \<and> primed s' \<and>
           channels s' = 1 \<and> \<not> reportedUnderrun s' \<and> port s' = port st \<and>
           length (storage (reader s')) = length (storage (reader st)) \<and>
           available (getReadInfo (reader s')) = 0 \<and>
           targetPrerollQ s' = targetPrerollQ st \<and> basePrerollQ s' = basePrerollQ st \<and>
           maxPrerollQ s' = maxPrerollQ st"
  using assms
proof (induction k arbitrary: st)
  case 0
  then show ?case by simp
next
  case (Suc k)
  have fq: "fullQuantum st"
    using Suc.prems(2,5,6) by (intro fullQuantumI) (auto simp: RENDER_QUANTUM_FRAMES_def)
  from quantum_full[OF Suc.prems(1) fq Suc.prems(3)] obtain s1 where
    s1: "wstep st (Quantum out) = Some s1" "wf s1" "primed s1" "channels s1 = channels st"
        "length (storage (reader s1)) = length (storage (reader st))"
        "available (getReadInfo (reader s1)) + RENDER_QUANTUM_FRAMES * channels st
             = available (getReadInfo (reader st))"
        "basePrerollQ s1 = basePrerollQ st" "maxPrerollQ s1 = maxPrerollQ st"
        "port s1 = (if reportedUnderrun st then port st @ [Recovered] else port st)"
        "\<not> reportedUnderrun s1"
        "(if 128 \<le> esb st + 1 \<and> basePrerollQ st < targetPrerollQ st
            then targetPrerollQ s1 = targetPrerollQ st - 1 \<and> stableBlocks s1 = 0
            else targetPrerollQ s1 = targetPrerollQ st \<and> stableBlocks s1 = esb st + 1)"
    by blast
  have small: "\<not> 128 \<le> esb st + 1" using Suc.prems(7) by simp
  then have t1: "targetPrerollQ s1 = targetPrerollQ st" and e1: "esb s1 = esb st + 1"
    using s1(3,11) by (simp_all add: esb_def)
  have a1: "available (getReadInfo (reader s1)) = k * 128"
    using s1(6) Suc.prems(2,6) by (simp add: RENDER_QUANTUM_FRAMES_def)
  have p1: "port s1 = port st" using s1(9) Suc.prems(4) by simp
  show ?case
  proof (cases "k = 0")
    case True
    then show ?thesis using s1 t1 a1 p1 Suc.prems(2) by (simp del: wstep.simps)
  next
    case False
    then have k: "0 < k" by simp
    have "esb s1 + k < 128" using e1 Suc.prems(7) by simp
    from Suc.IH[OF s1(2) _ Suc.prems(3) s1(10) _ a1 this k] s1(3,4) Suc.prems(2)
    obtain s' where "wrun s1 (replicate k (Quantum out)) = Some s'" "wf s'" "primed s'"
      "channels s' = 1" "\<not> reportedUnderrun s'" "port s' = port s1"
      "length (storage (reader s')) = length (storage (reader s1))"
      "available (getReadInfo (reader s')) = 0"
      "targetPrerollQ s' = targetPrerollQ s1" "basePrerollQ s' = basePrerollQ s1"
      "maxPrerollQ s' = maxPrerollQ s1" by auto
    then show ?thesis using s1 t1 p1 by (simp del: wstep.simps)
  qed
qed

lemma ce_quanta: "quantaFromMs 60 8000 = 4" "quantaFromMs 40 8000 = 3"
  by code_simp+

lemma ce_ctor:
  "constructor 48000 ce_opts =
     \<lparr>channels = 1, reader = \<lparr>storage = replicate 1024 0, writePointer = 0, readPointer = 0\<rparr>,
      readerOutput = replicate 128 0, streamSR = 8000, basePrerollQ = 4, targetPrerollQ = 4,
      maxPrerollQ = 3, primed = False, stableBlocks = 0, softUnderruns = 0, hardUnderruns = 0,
      rampMs = 8, rampLen = 0, rampLeft = 0, needRamp = True, xfFromL = 0, xfFromR = 0, xfFromM = 0,
      lastL = 0, lastR = 0, lastM = 0, reportedUnderrun = False, port = []\<rparr>"
  by (simp add: constructor_def ce_opts_def ce_quanta RENDER_QUANTUM_FRAMES_def)

lemma ce_state_facts:
  "wrun (constructor 48000 ce_opts) ce_events = Some ce_state"
  "wf ce_state" "primed ce_state" "alignedOf ce_state = 0"
  "targetPrerollQ ce_state = 4" "maxPrerollQ ce_state = 3" "basePrerollQ ce_state = 4"
proof -
  let ?c = "constructor 48000 ce_opts"
  let ?s = "?c\<lparr>reader := fst (ringWrite (reader ?c) (replicate 512 7))\<rparr>"
  have ok: "ring_ok (opt_sab ce_opts)" by (simp add: ce_opts_def ring_ok_def)
  have w: "wf ?c" by (rule wf_constructor[OF ok])
  note ws = write_step[OF w, of "replicate 512 7"]
  have a0: "available (getReadInfo (reader ?c)) = 0" by (simp add: ce_ctor available_eq)
  have n: "length (storage (reader ?c)) = 1024" by (simp add: ce_ctor)
  have av: "available (getReadInfo (reader ?s)) = 4 * 128" using ws(3) a0 n by simp
  have f: "channels ?s = 1" "\<not> reportedUnderrun ?s" "targetPrerollQ ?s = 4" "esb ?s + 4 < 128"
     "basePrerollQ ?s = 4" "maxPrerollQ ?s = 3"
    by (simp_all add: ce_ctor esb_def)
  have pr: "primed ?s \<or> targetPrerollQ ?s * 128 \<le> available (getReadInfo (reader ?s))"
    using av f(3) by simp
  from drain[OF ws(1) f(1) _ f(2) pr av f(4), of "[replicate 128 0]"]
  obtain s' where s': "wrun ?s (replicate 4 (Quantum [replicate 128 0])) = Some s'" "wf s'"
    "primed s'" "available (getReadInfo (reader s')) = 0"
    "targetPrerollQ s' = targetPrerollQ ?s" "basePrerollQ s' = basePrerollQ ?s"
    "maxPrerollQ s' = maxPrerollQ ?s" by auto
  have r: "wrun ?c ce_events = Some s'"
    using s'(1) unfolding ce_events_def by simp
  then have e: "ce_state = s'" by (simp add: ce_state_def)
  show "wrun ?c ce_events = Some ce_state" using r e by simp
  show "wf ce_state" "primed ce_state" using s' e by simp_all
  show "alignedOf ce_state = 0" using s'(4) e by (simp add: alignedOf_zero)
  show "targetPrerollQ ce_state = 4" "maxPrerollQ ce_state = 3" "basePrerollQ ce_state = 4"
    using s'(5-7) e f by simp_all
qed

text \<open>
  Claim C2 as stated fails where the target is above the maximum: with \<open>prerollMs = 60\<close>
  at 8 kHz the target starts at 4 quanta and the maximum is 3, and a hard underrun
  leaves the target at 4 although it does not equal the maximum.
\<close>

theorem hard_underrun_above_max_counterexample:
  "primed ce_state \<and> alignedOf ce_state = 0 \<and>
   targetPrerollQ ce_state = 4 \<and> maxPrerollQ ce_state = 3 \<and>
   targetPrerollQ ce_state \<noteq> maxPrerollQ ce_state \<and>
   wstep ce_state (Quantum [replicate 128 0]) \<noteq> None \<and>
   targetPrerollQ (the (wstep ce_state (Quantum [replicate 128 0]))) = 4 \<and>
   targetPrerollQ (the (wstep ce_state (Quantum [replicate 128 0])))
     \<noteq> targetPrerollQ ce_state + 1"
proof -
  have "wstep ce_state (Quantum [replicate 128 0]) = Some (hardUnderrun ce_state)"
    by (rule hard_quantum) (simp_all add: ce_state_facts)
  then show ?thesis by (simp add: ce_state_facts hardUnderrun_fields del: wstep.simps)
qed

text \<open>
  Claim C2, amended. In every state the worklet can reach: (a) a quantum that finds the
  worklet primed and no channel-aligned sample available raises \<open>targetPrerollQ\<close> by
  exactly 1 if it is below \<open>maxPrerollQ\<close> and leaves it unchanged otherwise, un-primes
  the worklet, and posts \<open>underrun\<close> once, that is unless one is already reported; the
  posted messages never repeat, so no second \<open>underrun\<close> comes before a \<open>recovered\<close>,
  and the first message is an \<open>underrun\<close>; (b) over any 128 consecutive full quanta
  that start with the target above the base, the target drops by exactly 1. Hence from
  base 3 and target 3 (maximum above 3) a hard underrun gives target 4, and 128 full
  quanta after it give target 3 again.
\<close>

theorem adaptive_preroll:
  assumes ok: "ring_ok (opt_sab opts)"
      and run: "wrun (constructor sampleRate opts) evs = Some st"
  shows "(primed st \<and> alignedOf st = 0 \<and> out \<noteq> [] \<longrightarrow>
            (\<exists>s' out'. process st out = Some (s', out') \<and>
               targetPrerollQ s' =
                 (if targetPrerollQ st < maxPrerollQ st then targetPrerollQ st + 1
                  else targetPrerollQ st) \<and>
               \<not> primed s' \<and> reportedUnderrun s' \<and>
               port s' = (if reportedUnderrun st then port st else port st @ [Underrun])))
       \<and> alternates (port st) \<and> (port st \<noteq> [] \<longrightarrow> hd (port st) = Underrun)
       \<and> (basePrerollQ st < targetPrerollQ st \<and> fullRun st qs \<and> nQuanta qs = 128 \<longrightarrow>
            (\<exists>s'. wrun st qs = Some s' \<and> targetPrerollQ s' = targetPrerollQ st - 1))
       \<and> (primed st \<and> alignedOf st = 0 \<and> out \<noteq> [] \<and>
          basePrerollQ st = 3 \<and> targetPrerollQ st = 3 \<and> 3 < maxPrerollQ st \<and>
          wstep st (Quantum out) = Some s1 \<and> fullRun s1 qs \<and> nQuanta qs = 128 \<longrightarrow>
            targetPrerollQ s1 = 4 \<and>
            (\<exists>s2. wrun s1 qs = Some s2 \<and> targetPrerollQ s2 = 3))"
proof -
  have w: "wf st" by (rule wf_wrun[OF wf_constructor[OF ok] run])
  have pi: "port_inv st" by (rule port_inv_wrun[OF port_inv_constructor run])
  have a: "primed st \<and> alignedOf st = 0 \<and> out \<noteq> [] \<longrightarrow>
            (\<exists>s' out'. process st out = Some (s', out') \<and>
               targetPrerollQ s' =
                 (if targetPrerollQ st < maxPrerollQ st then targetPrerollQ st + 1
                  else targetPrerollQ st) \<and>
               \<not> primed s' \<and> reportedUnderrun s' \<and>
               port s' = (if reportedUnderrun st then port st else port st @ [Underrun]))"
    using hard_step[of st out] by (auto simp: hardUnderrun_fields)
  have b: "alternates (port st)" "port st \<noteq> [] \<longrightarrow> hd (port st) = Underrun"
    using pi by (simp_all add: port_inv_def)
  have c: "basePrerollQ st < targetPrerollQ st \<and> fullRun st qs \<and> nQuanta qs = 128 \<longrightarrow>
            (\<exists>s'. wrun st qs = Some s' \<and> targetPrerollQ s' = targetPrerollQ st - 1)"
    using decrement_after_128[OF w] by blast
  have d: "primed st \<and> alignedOf st = 0 \<and> out \<noteq> [] \<and>
          basePrerollQ st = 3 \<and> targetPrerollQ st = 3 \<and> 3 < maxPrerollQ st \<and>
          wstep st (Quantum out) = Some s1 \<and> fullRun s1 qs \<and> nQuanta qs = 128 \<longrightarrow>
            targetPrerollQ s1 = 4 \<and>
            (\<exists>s2. wrun s1 qs = Some s2 \<and> targetPrerollQ s2 = 3)"
  proof
    assume h: "primed st \<and> alignedOf st = 0 \<and> out \<noteq> [] \<and>
          basePrerollQ st = 3 \<and> targetPrerollQ st = 3 \<and> 3 < maxPrerollQ st \<and>
          wstep st (Quantum out) = Some s1 \<and> fullRun s1 qs \<and> nQuanta qs = 128"
    then have "wstep st (Quantum out) = Some (hardUnderrun st)"
      by (intro hard_quantum) simp_all
    with h have s1: "s1 = hardUnderrun st" by (simp del: wstep.simps)
    have t: "targetPrerollQ s1 = 4" "basePrerollQ s1 = 3"
      using h by (simp_all add: s1 hardUnderrun_fields)
    have w1: "wf s1" unfolding s1 by (rule wf_hard[OF w])
    from decrement_after_128[OF w1, of qs] h t
    have "\<exists>s2. wrun s1 qs = Some s2 \<and> targetPrerollQ s2 = 3" by simp
    with t show "targetPrerollQ s1 = 4 \<and> (\<exists>s2. wrun s1 qs = Some s2 \<and> targetPrerollQ s2 = 3)"
      by simp
  qed
  from a b c d show ?thesis by blast
qed

lemma demo_drained_facts:
  "wrun (constructor 48000 demo_opts) demo_events = Some demo_drained"
  "wf demo_drained" "primed demo_drained" "alignedOf demo_drained = 0"
  "targetPrerollQ demo_drained = 3" "maxPrerollQ demo_drained = 15" "basePrerollQ demo_drained = 3"
  "channels demo_drained = 1" "length (storage (reader demo_drained)) = 1024"
  "available (getReadInfo (reader demo_drained)) = 0"
  "\<not> reportedUnderrun demo_drained" "port demo_drained = []"
proof -
  let ?c = "constructor 48000 demo_opts"
  let ?s = "?c\<lparr>reader := fst (ringWrite (reader ?c) (replicate 384 7))\<rparr>"
  have ok: "ring_ok (opt_sab demo_opts)" by (simp add: demo_opts_def ring_ok_def)
  have w: "wf ?c" by (rule wf_constructor[OF ok])
  note ws = write_step[OF w, of "replicate 384 7"]
  have a0: "available (getReadInfo (reader ?c)) = 0" by (simp add: demo_ctor available_eq)
  have n: "length (storage (reader ?c)) = 1024" by (simp add: demo_ctor)
  have av: "available (getReadInfo (reader ?s)) = 3 * 128" using ws(3) a0 n by simp
  have f: "channels ?s = 1" "\<not> reportedUnderrun ?s" "targetPrerollQ ?s = 3" "esb ?s + 3 < 128"
     "basePrerollQ ?s = 3" "maxPrerollQ ?s = 15" "port ?s = []"
    by (simp_all add: demo_ctor esb_def)
  have pr: "primed ?s \<or> targetPrerollQ ?s * 128 \<le> available (getReadInfo (reader ?s))"
    using av f(3) by simp
  from drain[OF ws(1) f(1) _ f(2) pr av f(4), of "[replicate 128 0]"]
  obtain s' where s': "wrun ?s (replicate 3 (Quantum [replicate 128 0])) = Some s'" "wf s'"
    "primed s'" "available (getReadInfo (reader s')) = 0"
    "targetPrerollQ s' = targetPrerollQ ?s" "basePrerollQ s' = basePrerollQ ?s"
    "maxPrerollQ s' = maxPrerollQ ?s" "channels s' = 1"
    "length (storage (reader s')) = length (storage (reader ?s))"
    "\<not> reportedUnderrun s'" "port s' = port ?s" by auto
  have r: "wrun ?c demo_events = Some s'"
    using s'(1) unfolding demo_events_def by simp
  then have e: "demo_drained = s'" by (simp add: demo_drained_def)
  show "wrun ?c demo_events = Some demo_drained" using r e by simp
  show "wf demo_drained" "primed demo_drained" "channels demo_drained = 1"
    "available (getReadInfo (reader demo_drained)) = 0" "\<not> reportedUnderrun demo_drained"
    using s' e by simp_all
  show "alignedOf demo_drained = 0" using s'(4) e by (simp add: alignedOf_zero)
  show "targetPrerollQ demo_drained = 3" "maxPrerollQ demo_drained = 15"
    "basePrerollQ demo_drained = 3" "port demo_drained = []"
    using s'(5-7,11) e f by simp_all
  show "length (storage (reader demo_drained)) = 1024" using s'(9) e ws(2) n by simp
qed

lemma demo_refill_full: "fullRun (hardUnderrun demo_drained) demo_refill"
proof -
  let ?h = "hardUnderrun demo_drained"
  let ?s = "?h\<lparr>reader := fst (ringWrite (reader ?h) (replicate 512 7))\<rparr>"
  have wh: "wf ?h" by (rule wf_hard[OF demo_drained_facts(2)])
  note ws = write_step[OF wh, of "replicate 512 7"]
  have h: "channels ?h = 1" "targetPrerollQ ?h = 4" "length (storage (reader ?h)) = 1024"
    "available (getReadInfo (reader ?h)) = 0"
    by (simp_all add: hardUnderrun_fields demo_drained_facts hardUnderrun_def Let_def)
  have av: "available (getReadInfo (reader ?s)) = 512" using ws(3) h by simp
  have fq: "fullQuantum ?s"
    using av h by (intro fullQuantumI) (simp_all add: RENDER_QUANTUM_FRAMES_def hardUnderrun_def Let_def)
  from quantum_full[OF ws(1) fq, of "[replicate 128 0]"] obtain s' where
    s': "wf s'" "primed s'" "channels s' = channels ?s"
        "length (storage (reader s')) = length (storage (reader ?s))"
        "available (getReadInfo (reader s')) + RENDER_QUANTUM_FRAMES * channels ?s
             = available (getReadInfo (reader ?s))"
        "\<forall>es. fullRun ?s (Quantum [replicate 128 0] # es) = fullRun s' es"
    by blast
  have c: "channels s' = 1" using s'(3) h(1) by (simp add: hardUnderrun_def Let_def)
  have a': "available (getReadInfo (reader s')) + 128 < length (storage (reader s'))"
    using s'(4,5) av ws(2) h by (simp add: RENDER_QUANTUM_FRAMES_def hardUnderrun_def Let_def)
  have "fullRun s' (concat (replicate 127 [Write (replicate 128 7), Quantum [replicate 128 0]]))"
    by (rule fullRun_steady[OF s'(1) s'(2) c _ a']) simp
  then show ?thesis unfolding demo_refill_def using s'(6) by simp
qed

text \<open>The statement of claim C2 at the 48 kHz worklet of \<open>demo_opts\<close>.\<close>

theorem adaptive_preroll_witness:
  "ring_ok (opt_sab demo_opts) \<and>
   wrun (constructor 48000 demo_opts) demo_events = Some demo_drained \<and>
   primed demo_drained \<and> alignedOf demo_drained = 0 \<and>
   basePrerollQ demo_drained = 3 \<and> targetPrerollQ demo_drained = 3 \<and>
   maxPrerollQ demo_drained = 15 \<and>
   wstep demo_drained (Quantum [replicate 128 0]) = Some (hardUnderrun demo_drained) \<and>
   targetPrerollQ (hardUnderrun demo_drained) = 4 \<and>
   \<not> primed (hardUnderrun demo_drained) \<and>
   port (hardUnderrun demo_drained) = [Underrun] \<and>
   fullRun (hardUnderrun demo_drained) demo_refill \<and> nQuanta demo_refill = 128 \<and>
   map_option targetPrerollQ (wrun (hardUnderrun demo_drained) demo_refill) = Some 3"
proof -
  let ?out = "[replicate 128 (0::rat)]"
  let ?h = "hardUnderrun demo_drained"
  have ok: "ring_ok (opt_sab demo_opts)" by (simp add: demo_opts_def ring_ok_def)
  note r = demo_drained_facts(1)
  have hs: "wstep demo_drained (Quantum ?out) = Some ?h"
    by (rule hard_quantum) (simp_all add: demo_drained_facts)
  have r2: "wrun (constructor 48000 demo_opts) (demo_events @ [Quantum ?out]) = Some ?h"
    using r hs by (simp add: wrun_append del: wstep.simps)
  have n: "nQuanta demo_refill = 128" by (simp add: demo_refill_def)
  have hf: "targetPrerollQ ?h = 4" "basePrerollQ ?h = 3" "\<not> primed ?h" "port ?h = [Underrun]"
    by (simp_all add: hardUnderrun_fields demo_drained_facts)
  note A = adaptive_preroll[OF ok r, of ?out demo_refill ?h]
  note B = adaptive_preroll[OF ok r2, of ?out demo_refill ?h]
  from A have "\<exists>s' out'. process demo_drained ?out = Some (s', out') \<and>
       targetPrerollQ s' = (if targetPrerollQ demo_drained < maxPrerollQ demo_drained
          then targetPrerollQ demo_drained + 1 else targetPrerollQ demo_drained) \<and>
       \<not> primed s' \<and> reportedUnderrun s' \<and>
       port s' = (if reportedUnderrun demo_drained then port demo_drained
                  else port demo_drained @ [Underrun])"
    using demo_drained_facts(3,4) by blast
  then have a1: "\<exists>s' out'. process demo_drained ?out = Some (s', out') \<and>
       targetPrerollQ s' = 4 \<and> \<not> primed s'"
    by (auto simp: demo_drained_facts)
  from A hs demo_refill_full n
  have a2: "\<exists>s2. wrun ?h demo_refill = Some s2 \<and> targetPrerollQ s2 = 3"
    by (simp add: demo_drained_facts del: wstep.simps)
  from B demo_refill_full n hf
  have b1: "\<exists>s'. wrun ?h demo_refill = Some s' \<and> targetPrerollQ s' = 3"
    by simp
  then have m: "map_option targetPrerollQ (wrun ?h demo_refill) = Some 3" by auto
  show ?thesis
    using ok r hs n hf m demo_refill_full a1 a2
    by (simp add: demo_drained_facts del: wstep.simps)
qed


section \<open>Properties of the session layer\<close>


lemma mic_stop_stopped [simp]: "\<not> proc (mic_stop m)"
  by (simp add: mic_stop_def)








lemma chunkLoop_ok:
  "0 < cs \<Longrightarrow> \<exists>envs. chunkLoop rid cs dat off = Some envs \<and>
      concat (map env_chunk envs) = drop off dat \<and>
      (\<forall>e \<in> set envs. env_chunk e \<noteq> [] \<and> length (env_chunk e) \<le> cs \<and>
                       env_total e = length dat \<and> env_id e = rid)"
proof (induction rid cs dat off rule: chunkLoop.induct)
  case (1 rid chunkSize dat offset)
  show ?case
  proof (cases "offset < length dat")
    case False
    then show ?thesis by (subst chunkLoop.simps) simp
  next
    case True
    define e where "e = min (offset + chunkSize) (length dat)"
    define env where "env = \<lparr>env_id = rid, env_offset = offset, env_total = length dat,
                      env_isLast = (e \<ge> length dat),
                      env_chunk = take (e - offset) (drop offset dat)\<rparr>"
    have ne: "chunkSize \<noteq> 0" using "1.prems" by simp
    from "1.IH"[OF True ne e_def env_def "1.prems"] obtain envs where
      r: "chunkLoop rid chunkSize dat e = Some envs"
         "concat (map env_chunk envs) = drop e dat"
         "\<forall>x \<in> set envs. env_chunk x \<noteq> [] \<and> length (env_chunk x) \<le> chunkSize \<and>
                       env_total x = length dat \<and> env_id x = rid"
      by blast
    have u: "chunkLoop rid chunkSize dat offset = Some (env # envs)"
      using True ne r(1) by (subst chunkLoop.simps) (simp add: Let_def e_def[symmetric] env_def[symmetric])
    have eo: "offset < e" "e \<le> length dat" "e - offset \<le> chunkSize"
      using True "1.prems" by (simp_all add: e_def)
    have c: "env_chunk env = take (e - offset) (drop offset dat)" by (simp add: env_def)
    have "take (e - offset) (drop offset dat) @ drop e dat = drop offset dat"
      using eo by (metis add_diff_inverse_nat drop_drop less_imp_le_nat not_less append_take_drop_id add.commute)
    then have cc: "concat (map env_chunk (env # envs)) = drop offset dat"
      using r(2) c by simp
    have p: "env_chunk env \<noteq> [] \<and> length (env_chunk env) \<le> chunkSize \<and>
             env_total env = length dat \<and> env_id env = rid"
      using eo True by (simp add: env_def)
    show ?thesis
      apply (rule exI[of _ "env # envs"])
      using u cc p r(3) by simp
  qed
qed

lemma sv_audioChunks_facts:
  assumes d: "ad_data a = Some d"
  shows "\<exists>st' envs info.
           sv_audioChunks dtm rid st a = Some st' \<and>
           sv_mic st' = sv_mic st \<and> sv_micLog st' = sv_micLog st \<and> sv_sent st' = sv_sent st \<and>
           sv_pairTimeout st' = sv_pairTimeout st \<and> sv_timeouts st' = sv_timeouts st \<and>
           sv_now st' = sv_now st \<and> sv_started st' = sv_started st \<and>
           sv_stopping st' = sv_stopping st \<and> sv_isStopping st' = sv_isStopping st \<and>
           sv_webContents st' = sv_webContents st \<and>
           sv_shuttingDown st' = sv_shuttingDown st \<and>
           (sv_webContents st \<longrightarrow>
              sv_toRenderer st' = sv_toRenderer st @ map (\<lambda>e. AudioChunk e a) envs @ info \<and>
              concat (map env_chunk envs) = d \<and>
              (\<forall>e \<in> set envs. env_chunk e \<noteq> [] \<and> length (env_chunk e) \<le> 64 * 1024) \<and>
              (info = [] \<or> (\<exists>meta. info = [EvAudioInfo meta])))"
proof -
  from chunkLoop_ok[of "64 * 1024" rid d 0] obtain envs where
    e: "chunkLoop rid (64 * 1024) d 0 = Some envs" "concat (map env_chunk envs) = d"
       "\<forall>e \<in> set envs. env_chunk e \<noteq> [] \<and> length (env_chunk e) \<le> 64 * 1024"
    by auto
  show ?thesis
  proof (cases "sv_webContents st")
    case False
    then show ?thesis
      using d by (auto simp: sv_audioChunks_def sendChunked_def sv_send_def split: option.splits)
  next
    case True
    let ?s1 = "st\<lparr>sv_toRenderer := sv_toRenderer st @ map (\<lambda>e. AudioChunk e a) envs\<rparr>"
    have sc: "sendChunked (\<lambda>e. AudioChunk e a) rid (ad_data a) (64 * 1024) st = Some ?s1"
      using True d e(1) by (simp add: sendChunked_def)
    show ?thesis
    proof (cases "\<not> sv_audioInfoSent st \<and> dtm (decodeType a) \<noteq> None")
      case t: True
      then obtain meta where m: "dtm (decodeType a) = Some meta" by auto
      have r: "sv_audioChunks dtm rid st a =
                 Some ((sv_send (EvAudioInfo meta) ?s1)\<lparr>sv_audioInfoSent := True\<rparr>)"
        using sc t m by (simp add: sv_audioChunks_def)
      show ?thesis
        apply (rule exI[of _ "(sv_send (EvAudioInfo meta) ?s1)\<lparr>sv_audioInfoSent := True\<rparr>"])
        apply (rule exI[of _ envs], rule exI[of _ "[EvAudioInfo meta]"])
        using r e(2,3) by (simp add: sv_send_def)
    next
      case f: False
      have r: "sv_audioChunks dtm rid st a = Some ?s1"
        using sc f by (auto simp: sv_audioChunks_def split: option.splits)
      show ?thesis
        apply (rule exI[of _ ?s1], rule exI[of _ envs], rule exI[of _ "[]"])
        using r e(2,3) by simp
    qed
  qed
qed

lemma sv_audio_other:
  assumes "sv_onDriverMessage plat dtm rid st (AudioData a) = Some st'"
      and "sv_mic st' \<noteq> sv_mic st \<or> sv_micLog st' \<noteq> sv_micLog st"
  shows "ad_data a = None \<and>
         (command a = Some AudioSiriStart \<or> command a = Some AudioPhonecallStart \<or>
          command a = Some AudioSiriStop \<or> command a = Some AudioPhonecallStop)"
proof (cases "ad_data a")
  case (Some d)
  from sv_audioChunks_facts[OF Some, of dtm rid st] assms Some
  show ?thesis by (auto simp: sv_onDriverMessage_def split: if_splits)
next
  case None
  show ?thesis
  proof (cases "command a")
    case n: None
    then show ?thesis using assms None by (auto simp: sv_onDriverMessage_def split: if_splits)
  next
    case (Some c)
    then show ?thesis using assms None
      by (auto simp: sv_onDriverMessage_def sv_audioCommand_def split: if_splits)
  qed
qed

text \<open>
  Claim C10. In \<open>CarplayService\<close>, an \<open>AudioData\<close> message that carries data leaves
  the microphone alone, whatever its command field, and sends nothing to the driver;
  with a renderer attached, what goes to the renderer is the data, cut into chunks of
  at most 64 KiB in order, and after them at most one \<open>audioInfo\<close> event. And
  whenever an \<open>AudioData\<close> message changes the microphone or calls one of its methods,
  the message carries a command and no data.
\<close>

theorem audio_data_excludes_command:
  assumes d: "ad_data a = Some d"
  shows "(\<exists>st' envs info.
           sv_onDriverMessage plat dtm rid st (AudioData a) = Some st' \<and>
           sv_mic st' = sv_mic st \<and> sv_micLog st' = sv_micLog st \<and> sv_sent st' = sv_sent st \<and>
           (sv_webContents st \<longrightarrow>
              sv_toRenderer st' = sv_toRenderer st @ map (\<lambda>e. AudioChunk e a) envs @ info \<and>
              concat (map env_chunk envs) = d \<and>
              (\<forall>e \<in> set envs. env_chunk e \<noteq> [] \<and> length (env_chunk e) \<le> 64 * 1024) \<and>
              (info = [] \<or> (\<exists>meta. info = [EvAudioInfo meta]))))
       \<and> (\<forall>b s s'. sv_onDriverMessage plat dtm rid s (AudioData b) = Some s' \<and>
              (sv_mic s' \<noteq> sv_mic s \<or> sv_micLog s' \<noteq> sv_micLog s) \<longrightarrow>
              ad_data b = None \<and> command b \<noteq> None)"
proof
  from sv_audioChunks_facts[OF d, of dtm rid st] obtain st' envs info where
    f: "sv_audioChunks dtm rid st a = Some st'"
       "sv_mic st' = sv_mic st" "sv_micLog st' = sv_micLog st" "sv_sent st' = sv_sent st"
       "sv_webContents st \<longrightarrow>
              sv_toRenderer st' = sv_toRenderer st @ map (\<lambda>e. AudioChunk e a) envs @ info \<and>
              concat (map env_chunk envs) = d \<and>
              (\<forall>e \<in> set envs. env_chunk e \<noteq> [] \<and> length (env_chunk e) \<le> 64 * 1024) \<and>
              (info = [] \<or> (\<exists>meta. info = [EvAudioInfo meta]))"
    by blast
  show "\<exists>st' envs info.
           sv_onDriverMessage plat dtm rid st (AudioData a) = Some st' \<and>
           sv_mic st' = sv_mic st \<and> sv_micLog st' = sv_micLog st \<and> sv_sent st' = sv_sent st \<and>
           (sv_webContents st \<longrightarrow>
              sv_toRenderer st' = sv_toRenderer st @ map (\<lambda>e. AudioChunk e a) envs @ info \<and>
              concat (map env_chunk envs) = d \<and>
              (\<forall>e \<in> set envs. env_chunk e \<noteq> [] \<and> length (env_chunk e) \<le> 64 * 1024) \<and>
              (info = [] \<or> (\<exists>meta. info = [EvAudioInfo meta])))"
  proof (cases "sv_webContents st")
    case True
    then have "sv_onDriverMessage plat dtm rid st (AudioData a) = Some st'"
      using d f(1) by (simp add: sv_onDriverMessage_def)
    with f show ?thesis by blast
  next
    case False
    then have "sv_onDriverMessage plat dtm rid st (AudioData a) = Some st"
      by (simp add: sv_onDriverMessage_def)
    with False show ?thesis by auto
  qed
next
  show "\<forall>b s s'. sv_onDriverMessage plat dtm rid s (AudioData b) = Some s' \<and>
              (sv_mic s' \<noteq> sv_mic s \<or> sv_micLog s' \<noteq> sv_micLog s) \<longrightarrow>
              ad_data b = None \<and> command b \<noteq> None"
    using sv_audio_other by blast
qed

lemma demo_chunks:
  "chunkLoop ''id'' (64 * 1024) [1, 2, 3, 4] 0 =
     Some [\<lparr>env_id = ''id'', env_offset = 0, env_total = 4, env_isLast = True,
            env_chunk = [1, 2, 3, 4]\<rparr>]"
proof -
  have e: "chunkLoop ''id'' (64 * 1024) [1, 2, 3, 4] 4 = Some []"
    by (subst chunkLoop.simps) simp
  show ?thesis by (subst chunkLoop.simps) (simp add: e)
qed

text \<open>The statement of claim C10 at a message with four bytes of data and a command.\<close>

theorem audio_data_excludes_command_witness:
  "ad_data pcmWithCommand = Some [1, 2, 3, 4] \<and>
   command pcmWithCommand = Some AudioSiriStart \<and>
   sv_onDriverMessage Linux (\<lambda>t. None) ''id'' (sv_new False) (AudioData pcmWithCommand)
     = Some ((sv_new False)\<lparr>sv_toRenderer :=
         [AudioChunk \<lparr>env_id = ''id'', env_offset = 0, env_total = 4, env_isLast = True,
                      env_chunk = [1, 2, 3, 4]\<rparr> pcmWithCommand]\<rparr>) \<and>
   sv_micLog (the (sv_onDriverMessage Linux (\<lambda>t. None) ''id'' (sv_new False)
                     (AudioData pcmWithCommand))) = [] \<and>
   sv_onDriverMessage Linux (\<lambda>t. None) ''id'' (sv_new False) (AudioData siriStart)
     = Some ((sv_new False)\<lparr>sv_mic := Some \<lparr>proc = True\<rparr>, sv_micLog := [MicStart]\<rparr>) \<and>
   ad_data siriStart = None \<and> command siriStart \<noteq> None"
proof -
  have d: "ad_data pcmWithCommand = Some [1, 2, 3, 4]" by (simp add: pcmWithCommand_def)
  have r: "sv_onDriverMessage Linux (\<lambda>t. None) ''id'' (sv_new False) (AudioData pcmWithCommand)
     = Some ((sv_new False)\<lparr>sv_toRenderer :=
         [AudioChunk \<lparr>env_id = ''id'', env_offset = 0, env_total = 4, env_isLast = True,
                      env_chunk = [1, 2, 3, 4]\<rparr> pcmWithCommand]\<rparr>)"
    by (simp add: sv_onDriverMessage_def sv_audioChunks_def sendChunked_def d demo_chunks)
       (simp add: sv_new_def)
  have s: "sv_onDriverMessage Linux (\<lambda>t. None) ''id'' (sv_new False) (AudioData siriStart)
     = Some ((sv_new False)\<lparr>sv_mic := Some \<lparr>proc = True\<rparr>, sv_micLog := [MicStart]\<rparr>)"
    by (simp add: sv_onDriverMessage_def siriStart_def sv_audioCommand_def sv_new_def
        mic_start_def mic_stop_def Let_def)
  note t = audio_data_excludes_command[OF d, of Linux "\<lambda>t. None" "''id''" "sv_new False"]
  have m: "sv_mic ((sv_new False)\<lparr>sv_mic := Some \<lparr>proc = True\<rparr>, sv_micLog := [MicStart]\<rparr>)
             \<noteq> sv_mic (sv_new False)"
    by (simp add: sv_new_def)
  from t[THEN conjunct2, rule_format, where b=siriStart and s="sv_new False"] s m
  have a: "ad_data siriStart = None \<and> command siriStart \<noteq> None" by simp
  from t[THEN conjunct1] obtain st' where
    "sv_onDriverMessage Linux (\<lambda>t. None) ''id'' (sv_new False) (AudioData pcmWithCommand) = Some st'"
    "sv_micLog st' = sv_micLog (sv_new False)" by blast
  then have b: "sv_micLog (the (sv_onDriverMessage Linux (\<lambda>t. None) ''id'' (sv_new False)
                     (AudioData pcmWithCommand))) = []"
    by (simp add: sv_new_def)
  show ?thesis using d r s a b by (simp add: pcmWithCommand_def)
qed

section \<open>The pair timeout\<close>

lemma wifiPairs_simps [simp]:
  "wifiPairs [] = 0"
  "wifiPairs (xs @ [SendCommand ''wifiPair'']) = Suc (wifiPairs xs)"
  by (simp_all add: wifiPairs_def)

lemma duration_append [simp]: "duration (xs @ ys) = duration xs + duration ys"
  by (induction xs rule: duration.induct) simp_all

lemma cp_run_append: "cp_run plat st (xs @ ys) = cp_run plat (cp_run plat st xs) ys"
  by (simp add: cp_run_def)

lemma cp_run_Cons: "cp_run plat st (e # es) = cp_run plat (cp_step plat st e) es"
  by (simp add: cp_run_def)

text \<open>The wrapper with no timeout pending, and with the one of its field pending.\<close>

lemma cp_clear_fields:
  "cp_sent (cp_clearPairTimeout st) = cp_sent st"
  "cp_now (cp_clearPairTimeout st) = cp_now st"
  "cp_pairTimeout (cp_clearPairTimeout st) = None"
  by (simp_all add: cp_clearPairTimeout_def split: option.splits)

lemma cp_clear_idle:
  "pending (cp_timeouts st) = [] \<Longrightarrow> pending (cp_timeouts (cp_clearPairTimeout st)) = []"
  by (simp add: cp_clearPairTimeout_def clearTimeout_def split: option.splits)

lemma cp_clear_armed:
  "pending (cp_timeouts st) = [(h, due)] \<Longrightarrow> cp_pairTimeout st = Some h \<Longrightarrow>
   pending (cp_timeouts (cp_clearPairTimeout st)) = []"
  by (simp add: cp_clearPairTimeout_def clearTimeout_def)

lemma cp_msg_fields:
  "cp_sent (cp_onDriverMessage plat st m) = cp_sent st"
  "cp_now (cp_onDriverMessage plat st m) = cp_now st"
  by (simp_all add: cp_onDriverMessage_def cp_micRouting_def cp_dispatch_def cp_emit_def
      cp_clear_fields cp_clearFrameInterval_def Let_def
      split: message.splits option.splits AudioCommand.splits)

lemma cp_msg_timeouts:
  "cp_timeouts (cp_onDriverMessage plat st m) =
     (if cancels (Recv m) then cp_timeouts (cp_clearPairTimeout st) else cp_timeouts st)"
  "cp_pairTimeout (cp_onDriverMessage plat st m) =
     (if cancels (Recv m) then None else cp_pairTimeout st)"
  by (cases m,
      simp_all add: cp_onDriverMessage_def cp_micRouting_def cp_dispatch_def cp_emit_def
        cp_clear_fields cp_clearFrameInterval_def Let_def
        split: option.splits AudioCommand.splits)+

lemma cp_stop_fields:
  "cp_sent (cp_stop st) = cp_sent st" "cp_now (cp_stop st) = cp_now st"
  "cp_timeouts (cp_stop st) = cp_timeouts (cp_clearPairTimeout st)"
  "cp_pairTimeout (cp_stop st) = None"
  by (simp_all add: cp_stop_def cp_clearFrameInterval_def cp_clear_fields)

lemma cp_step_now: "cp_now (cp_step plat st e) = cp_now st + duration [e]"
  by (cases e) (simp_all add: cp_msg_fields cp_elapse_def Let_def cp_stop_fields)

lemma cp_step_idle:
  assumes "pending (cp_timeouts st) = []"
  shows "pending (cp_timeouts (cp_step plat st e)) = [] \<and>
         cp_sent (cp_step plat st e) = cp_sent st"
  using assms
  by (cases e)
     (simp_all add: cp_msg_fields cp_msg_timeouts cp_clear_idle cp_stop_fields
        cp_elapse_def Let_def dueBy_def expire_def)

lemma cp_run_idle:
  "pending (cp_timeouts st) = [] \<Longrightarrow>
   pending (cp_timeouts (cp_run plat st evs)) = [] \<and> cp_sent (cp_run plat st evs) = cp_sent st"
proof (induction evs arbitrary: st)
  case Nil
  then show ?case by (simp add: cp_run_def)
next
  case (Cons e es)
  from cp_step_idle[OF Cons.prems, of plat e] Cons.IH[of "cp_step plat st e"]
  show ?case by (simp add: cp_run_Cons)
qed

lemma cp_step_cancel:
  assumes "cancels e"
      and "pending (cp_timeouts st) = [] \<or>
           (pending (cp_timeouts st) = [(h, due)] \<and> cp_pairTimeout st = Some h)"
  shows "pending (cp_timeouts (cp_step plat st e)) = [] \<and>
         cp_sent (cp_step plat st e) = cp_sent st"
proof -
  have c: "pending (cp_timeouts (cp_clearPairTimeout st)) = []"
    using assms(2) cp_clear_idle[of st] cp_clear_armed[of st h due] by blast
  show ?thesis using assms(1) c
    by (cases e) (simp_all add: cp_msg_fields cp_msg_timeouts cp_stop_fields)
qed

lemma cp_step_early:
  assumes "pending (cp_timeouts st) = [] \<or>
           (pending (cp_timeouts st) = [(h, due)] \<and> cp_pairTimeout st = Some h)"
      and "cp_now st + duration [e] < due"
  shows "(pending (cp_timeouts (cp_step plat st e)) = [] \<or>
          (pending (cp_timeouts (cp_step plat st e)) = [(h, due)] \<and>
           cp_pairTimeout (cp_step plat st e) = Some h)) \<and>
         cp_sent (cp_step plat st e) = cp_sent st"
proof (cases "pending (cp_timeouts st) = []")
  case True
  then show ?thesis using cp_step_idle[OF True, of plat e] by simp
next
  case False
  with assms(1) have a: "pending (cp_timeouts st) = [(h, due)]" "cp_pairTimeout st = Some h"
    by auto
  show ?thesis
  proof (cases "cancels e")
    case True
    then show ?thesis using cp_step_cancel[OF True assms(1), of plat] by simp
  next
    case nc: False
    show ?thesis
    proof (cases e)
      case (Recv m)
      then show ?thesis using nc a by (simp add: cp_msg_fields cp_msg_timeouts)
    next
      case (Elapse d)
      then show ?thesis using a assms(2)
        by (simp add: cp_elapse_def Let_def dueBy_def expire_def)
    next
      case Stop
      then show ?thesis using nc by simp
    qed
  qed
qed

lemma cp_run_early:
  "pending (cp_timeouts st) = [] \<or>
     (pending (cp_timeouts st) = [(h, due)] \<and> cp_pairTimeout st = Some h) \<Longrightarrow>
   cp_now st + duration evs < due \<Longrightarrow>
   (pending (cp_timeouts (cp_run plat st evs)) = [] \<or>
     (pending (cp_timeouts (cp_run plat st evs)) = [(h, due)] \<and>
      cp_pairTimeout (cp_run plat st evs) = Some h)) \<and>
   cp_sent (cp_run plat st evs) = cp_sent st"
proof (induction evs arbitrary: st)
  case Nil
  then show ?case by (simp add: cp_run_def)
next
  case (Cons e es)
  have d: "duration (e # es) = duration [e] + duration es"
    using duration_append[of "[e]" es] by simp
  have l: "cp_now st + duration [e] < due" using Cons.prems(2) d by simp
  note s = cp_step_early[OF Cons.prems(1) l, of plat]
  have "cp_now (cp_step plat st e) + duration es < due"
    using Cons.prems(2) d by (simp add: cp_step_now)
  from Cons.IH[OF conjunct1[OF s] this] s show ?case by (simp add: cp_run_Cons)
qed

lemma cp_step_armed:
  assumes "\<not> cancels e" "pending (cp_timeouts st) = [(h, due)]" "cp_pairTimeout st = Some h"
      and "cp_now st < due"
  shows "cp_now st + duration [e] < due \<longrightarrow>
           pending (cp_timeouts (cp_step plat st e)) = [(h, due)] \<and>
           cp_pairTimeout (cp_step plat st e) = Some h \<and>
           cp_sent (cp_step plat st e) = cp_sent st"
    and "due \<le> cp_now st + duration [e] \<longrightarrow>
           pending (cp_timeouts (cp_step plat st e)) = [] \<and>
           cp_sent (cp_step plat st e) = cp_sent st @ [SendCommand ''wifiPair'']"
proof -
  show "cp_now st + duration [e] < due \<longrightarrow>
           pending (cp_timeouts (cp_step plat st e)) = [(h, due)] \<and>
           cp_pairTimeout (cp_step plat st e) = Some h \<and>
           cp_sent (cp_step plat st e) = cp_sent st"
    using assms
    by (cases e)
       (simp_all add: cp_msg_fields cp_msg_timeouts cp_elapse_def Let_def dueBy_def expire_def)
  show "due \<le> cp_now st + duration [e] \<longrightarrow>
           pending (cp_timeouts (cp_step plat st e)) = [] \<and>
           cp_sent (cp_step plat st e) = cp_sent st @ [SendCommand ''wifiPair'']"
  proof (cases e)
    case (Recv m)
    then show ?thesis using assms by (simp add: cp_msg_fields cp_msg_timeouts)
  next
    case (Elapse d)
    then show ?thesis using assms by (simp add: cp_elapse_def Let_def dueBy_def expire_def)
  next
    case Stop
    then show ?thesis using assms by simp
  qed
qed

lemma cp_run_armed:
  "\<forall>e \<in> set evs. \<not> cancels e \<Longrightarrow> pending (cp_timeouts st) = [(h, due)] \<Longrightarrow>
   cp_pairTimeout st = Some h \<Longrightarrow> cp_now st < due \<Longrightarrow>
   due \<le> cp_now st + duration evs \<Longrightarrow>
   pending (cp_timeouts (cp_run plat st evs)) = [] \<and>
   cp_sent (cp_run plat st evs) = cp_sent st @ [SendCommand ''wifiPair'']"
proof (induction evs arbitrary: st)
  case Nil
  then show ?case by simp
next
  case (Cons e es)
  have d: "duration (e # es) = duration [e] + duration es"
    using duration_append[of "[e]" es] by simp
  have nc: "\<not> cancels e" using Cons.prems(1) by simp
  note s = cp_step_armed[OF nc Cons.prems(2) Cons.prems(3) Cons.prems(4), of plat]
  show ?case
  proof (cases "cp_now st + duration [e] < due")
    case True
    with s have k: "pending (cp_timeouts (cp_step plat st e)) = [(h, due)]"
      "cp_pairTimeout (cp_step plat st e) = Some h"
      "cp_sent (cp_step plat st e) = cp_sent st" by simp_all
    have n: "cp_now (cp_step plat st e) < due" using True by (simp add: cp_step_now)
    have "due \<le> cp_now (cp_step plat st e) + duration es"
      using Cons.prems(5) d by (simp add: cp_step_now)
    from Cons.IH[OF _ k(1) k(2) n this] Cons.prems(1) k(3) show ?thesis
      by (simp add: cp_run_Cons)
  next
    case False
    with s have k: "pending (cp_timeouts (cp_step plat st e)) = []"
      "cp_sent (cp_step plat st e) = cp_sent st @ [SendCommand ''wifiPair'']" by simp_all
    from cp_run_idle[OF k(1), of plat es] k show ?thesis by (simp add: cp_run_Cons)
  qed
qed

lemma cp_init_facts:
  assumes "pending (cp_timeouts st) = []"
  shows "pending (cp_timeouts (cp_initialiseAfterReconnect st)) =
           [(nextHandle (cp_timeouts st), cp_now st + 15000)]"
    and "cp_pairTimeout (cp_initialiseAfterReconnect st) = Some (nextHandle (cp_timeouts st))"
    and "cp_now (cp_initialiseAfterReconnect st) = cp_now st"
    and "cp_sent (cp_initialiseAfterReconnect st) = cp_sent st"
  using assms by (simp_all add: cp_initialiseAfterReconnect_def setTimeout_def)

lemma cp_session:
  assumes idle: "pending (cp_timeouts st) = []"
  shows "(\<forall>e \<in> set pre. \<not> cancels e) \<and> 15000 \<le> duration pre \<longrightarrow>
           wifiPairs (cp_sent (cp_run plat (cp_initialiseAfterReconnect st) (pre @ post)))
             = wifiPairs (cp_sent st) + 1"
    and "duration pre < 15000 \<and> cancels e \<longrightarrow>
           wifiPairs (cp_sent (cp_run plat (cp_initialiseAfterReconnect st) (pre @ e # post)))
             = wifiPairs (cp_sent st)"
proof -
  let ?s0 = "cp_initialiseAfterReconnect st"
  note f = cp_init_facts[OF idle]
  show "(\<forall>e \<in> set pre. \<not> cancels e) \<and> 15000 \<le> duration pre \<longrightarrow>
           wifiPairs (cp_sent (cp_run plat ?s0 (pre @ post))) = wifiPairs (cp_sent st) + 1"
  proof
    assume a: "(\<forall>e \<in> set pre. \<not> cancels e) \<and> 15000 \<le> duration pre"
    have "pending (cp_timeouts (cp_run plat ?s0 pre)) = [] \<and>
          cp_sent (cp_run plat ?s0 pre) = cp_sent ?s0 @ [SendCommand ''wifiPair'']"
      using a f by (intro cp_run_armed[OF _ f(1) f(2)]) simp_all
    then have "cp_sent (cp_run plat ?s0 (pre @ post)) = cp_sent st @ [SendCommand ''wifiPair'']"
      using cp_run_idle[of "cp_run plat ?s0 pre" plat post] f by (simp add: cp_run_append)
    then show "wifiPairs (cp_sent (cp_run plat ?s0 (pre @ post))) = wifiPairs (cp_sent st) + 1"
      by simp
  qed
  show "duration pre < 15000 \<and> cancels e \<longrightarrow>
           wifiPairs (cp_sent (cp_run plat ?s0 (pre @ e # post))) = wifiPairs (cp_sent st)"
  proof
    assume a: "duration pre < 15000 \<and> cancels e"
    have p: "(pending (cp_timeouts (cp_run plat ?s0 pre)) = [] \<or>
           (pending (cp_timeouts (cp_run plat ?s0 pre)) =
              [(nextHandle (cp_timeouts st), cp_now st + 15000)] \<and>
            cp_pairTimeout (cp_run plat ?s0 pre) = Some (nextHandle (cp_timeouts st)))) \<and>
          cp_sent (cp_run plat ?s0 pre) = cp_sent ?s0"
      using a f by (intro cp_run_early) simp_all
    let ?s1 = "cp_step plat (cp_run plat ?s0 pre) e"
    from cp_step_cancel[OF conjunct2[OF a] conjunct1[OF p], of plat] p f
    have c: "pending (cp_timeouts ?s1) = []" "cp_sent ?s1 = cp_sent st" by simp_all
    have "cp_run plat ?s0 (pre @ e # post) = cp_run plat ?s1 post"
      by (simp add: cp_run_def)
    then have "cp_sent (cp_run plat ?s0 (pre @ e # post)) = cp_sent st"
      using cp_run_idle[OF c(1), of plat post] c by simp
    then show "wifiPairs (cp_sent (cp_run plat ?s0 (pre @ e # post))) = wifiPairs (cp_sent st)"
      by simp
  qed
qed

lemma sv_duration_append [simp]: "sv_duration (xs @ ys) = sv_duration xs + sv_duration ys"
  by (induction xs rule: sv_duration.induct) simp_all

lemma sv_run_append:
  "sv_run plat dtm rid st (xs @ ys) =
     (case sv_run plat dtm rid st xs of None \<Rightarrow> None | Some s \<Rightarrow> sv_run plat dtm rid s ys)"
  by (induction xs arbitrary: st) (simp_all split: option.splits)

lemma sendChunked_some:
  assumes "0 < cs"
  shows "\<exists>xs. sendChunked mk rid dat cs st = Some (st\<lparr>sv_toRenderer := xs\<rparr>)"
proof (cases "sv_webContents st \<and> dat \<noteq> None")
  case False
  have "st = st\<lparr>sv_toRenderer := sv_toRenderer st\<rparr>" by simp
  moreover have "sendChunked mk rid dat cs st = Some st"
    using False by (auto simp: sendChunked_def)
  ultimately show ?thesis by metis
next
  case True
  then obtain d where d: "dat = Some d" by auto
  from chunkLoop_ok[OF assms, of rid d 0] obtain envs where
    "chunkLoop rid cs d 0 = Some envs" by auto
  then show ?thesis using True d
    by (auto simp: sendChunked_def simp del: chunkLoop.simps)
qed

lemma sv_sameTimers_refl [simp]: "sv_sameTimers st st"
  by (simp add: sv_sameTimers_def)

lemma sv_msg_plain:
  assumes "\<not> sv_cancels (SvRecv m)"
  shows "\<exists>s. sv_onDriverMessage plat dtm rid st m = Some s \<and> sv_sameTimers s st"
proof (cases "sv_webContents st")
  case False
  then show ?thesis by (simp add: sv_onDriverMessage_def)
next
  case True
  show ?thesis
  proof (cases m)
    case (Plugged p)
    then show ?thesis using assms by simp
  next
    case Unplugged
    then show ?thesis using assms by simp
  next
    case (VideoData v)
    let ?s2 = "sv_send (EvResolution (width v) (height v))
                 (if \<not> sv_firstFrameLogged st then st\<lparr>sv_firstFrameLogged := True\<rparr> else st)"
    from sendChunked_some[of "512 * 1024" VideoChunk rid "vd_data v" ?s2]
    obtain xs where "sendChunked VideoChunk rid (vd_data v) (512 * 1024) ?s2
                       = Some (?s2\<lparr>sv_toRenderer := xs\<rparr>)" by auto
    then show ?thesis using True VideoData
      by (simp add: sv_onDriverMessage_def Let_def sv_sameTimers_def sv_send_def)
  next
    case (AudioData a)
    show ?thesis
    proof (cases "ad_data a")
      case (Some d)
      from sv_audioChunks_facts[OF Some, of dtm rid st] obtain s where
        "sv_audioChunks dtm rid st a = Some s" "sv_sameTimers s st"
        unfolding sv_sameTimers_def by blast
      then show ?thesis using True AudioData Some by (simp add: sv_onDriverMessage_def)
    next
      case None
      have "sv_sameTimers (sv_audioCommand plat st c) st" for c
        by (simp add: sv_audioCommand_def sv_micStop_def sv_sameTimers_def Let_def
              split: option.splits)
      then show ?thesis using True AudioData None
        by (simp add: sv_onDriverMessage_def split: option.splits)
    qed
  next
    case (MediaData p)
    then show ?thesis using True
      by (simp add: sv_onDriverMessage_def sv_sameTimers_def sv_send_def)
  next
    case (Command c)
    then show ?thesis using True
      by (simp add: sv_onDriverMessage_def sv_sameTimers_def sv_send_def)
  next
    case OtherMessage
    then show ?thesis using True by (simp add: sv_onDriverMessage_def)
  qed
qed

lemma sv_clear_fields:
  "sv_sent (sv_clearTimeouts st) = sv_sent st" "sv_now (sv_clearTimeouts st) = sv_now st"
  "sv_webContents (sv_clearTimeouts st) = sv_webContents st"
  "sv_shuttingDown (sv_clearTimeouts st) = sv_shuttingDown st"
  "sv_started (sv_clearTimeouts st) = sv_started st"
  "sv_stopping (sv_clearTimeouts st) = sv_stopping st"
  "sv_isStopping (sv_clearTimeouts st) = sv_isStopping st"
  "sv_isStarting (sv_clearTimeouts st) = sv_isStarting st"
  "pending (sv_timeouts st) = [] \<Longrightarrow> pending (sv_timeouts (sv_clearTimeouts st)) = []"
  "pending (sv_timeouts st) = [(h, due)] \<Longrightarrow> sv_pairTimeout st = Some h \<Longrightarrow>
     pending (sv_timeouts (sv_clearTimeouts st)) = []"
  by (simp_all add: sv_clearTimeouts_def clearTimeout_def Let_def split: option.splits)

lemma sv_start_fields:
  "sv_sent (sv_start st) = sv_sent st" "sv_now (sv_start st) = sv_now st"
  "sv_webContents (sv_start st) = sv_webContents st"
  "sv_shuttingDown (sv_start st) = sv_shuttingDown st"
  "sv_timeouts (sv_start st) = sv_timeouts st"
  by (simp_all add: sv_start_def Let_def)

lemma sv_stop_fields:
  "sv_sent (sv_stop st) = sv_sent st" "sv_now (sv_stop st) = sv_now st"
  "sv_webContents (sv_stop st) = sv_webContents st"
  "sv_shuttingDown (sv_stop st) = sv_shuttingDown st"
  "pending (sv_timeouts st) = [] \<Longrightarrow> pending (sv_timeouts (sv_stop st)) = []"
  "sv_armed st h due \<Longrightarrow> pending (sv_timeouts (sv_stop st)) = []"
  by (simp_all add: sv_stop_def sv_clear_fields sv_armed_def)

lemma sv_stopDone_fields:
  "sv_sent (sv_stopDone st) = sv_sent st" "sv_now (sv_stopDone st) = sv_now st"
  "sv_webContents (sv_stopDone st) = sv_webContents st"
  "sv_shuttingDown (sv_stopDone st) = sv_shuttingDown st"
  "sv_timeouts (sv_stopDone st) = sv_timeouts st"
  by (simp_all add: sv_stopDone_def sv_micStop_def split: option.splits)

lemma sv_send_fields:
  "sv_sent (sv_send ev st) = sv_sent st" "sv_now (sv_send ev st) = sv_now st"
  "sv_webContents (sv_send ev st) = sv_webContents st"
  "sv_shuttingDown (sv_send ev st) = sv_shuttingDown st"
  "sv_timeouts (sv_send ev st) = sv_timeouts st"
  "sv_pairTimeout (sv_send ev st) = sv_pairTimeout st"
  "sv_started (sv_send ev st) = sv_started st"
  "sv_stopping (sv_send ev st) = sv_stopping st"
  "sv_isStopping (sv_send ev st) = sv_isStopping st"
  "sv_isStarting (sv_send ev st) = sv_isStarting st"
  by (simp_all add: sv_send_def)

lemma sv_armed_send [simp]: "sv_armed (sv_send ev st) h due = sv_armed st h due"
  by (simp add: sv_armed_def sv_send_fields)

text \<open>A \<open>Plugged\<close> or \<open>Unplugged\<close> message.\<close>

lemma sv_msg_plug:
  assumes "sv_cancels (SvRecv m)"
  shows "\<exists>s. sv_onDriverMessage plat dtm rid st m = Some s \<and>
           sv_sent s = sv_sent st \<and> sv_now s = sv_now st \<and>
           sv_webContents s = sv_webContents st \<and> sv_shuttingDown s = sv_shuttingDown st \<and>
           (pending (sv_timeouts st) = [] \<longrightarrow> pending (sv_timeouts s) = []) \<and>
           (sv_armed st h due \<and> sv_live st \<longrightarrow> pending (sv_timeouts s) = [])"
proof (cases "sv_webContents st")
  case False
  then show ?thesis by (simp add: sv_onDriverMessage_def sv_live_def)
next
  case True
  show ?thesis
  proof (cases m)
    case (Plugged p)
    have a: "sv_armed st h due \<Longrightarrow> sv_started (sv_send EvPlugged (sv_clearTimeouts st))"
      by (simp add: sv_armed_def sv_send_fields sv_clear_fields)
    show ?thesis using True Plugged a
      by (auto simp: sv_onDriverMessage_def Let_def sv_send_fields sv_clear_fields
            sv_start_fields sv_armed_def)
  next
    case Unplugged
    show ?thesis using True Unplugged
      by (auto simp: sv_onDriverMessage_def Let_def sv_send_fields sv_stop_fields sv_live_def
            sv_armed_def)
  qed (use assms in simp_all)
qed

lemma sv_elapse_fields:
  "sv_now (sv_elapse st d) = sv_now st + d"
  "sv_webContents (sv_elapse st d) = sv_webContents st"
  "sv_shuttingDown (sv_elapse st d) = sv_shuttingDown st"
  "sv_pairTimeout (sv_elapse st d) = sv_pairTimeout st"
  "sv_started (sv_elapse st d) = sv_started st"
  "sv_stopping (sv_elapse st d) = sv_stopping st"
  "sv_isStopping (sv_elapse st d) = sv_isStopping st"
  "pending (sv_timeouts st) = [] \<Longrightarrow>
     pending (sv_timeouts (sv_elapse st d)) = [] \<and> sv_sent (sv_elapse st d) = sv_sent st"
  "pending (sv_timeouts st) = [(h, due)] \<Longrightarrow> sv_now st + d < due \<Longrightarrow>
     pending (sv_timeouts (sv_elapse st d)) = [(h, due)] \<and>
     sv_sent (sv_elapse st d) = sv_sent st"
  "pending (sv_timeouts st) = [(h, due)] \<Longrightarrow> due \<le> sv_now st + d \<Longrightarrow>
     pending (sv_timeouts (sv_elapse st d)) = [] \<and>
     sv_sent (sv_elapse st d) = sv_sent st @ [SendCommand ''wifiPair'']"
  by (simp_all add: sv_elapse_def Let_def dueBy_def expire_def)

lemma sv_step_idle:
  assumes "pending (sv_timeouts st) = []"
  shows "\<exists>s. sv_step plat dtm rid st e = Some s \<and> pending (sv_timeouts s) = [] \<and>
           sv_sent s = sv_sent st"
proof (cases e)
  case (SvRecv m)
  show ?thesis
  proof (cases "sv_cancels (SvRecv m)")
    case True
    from sv_msg_plug[OF True, of plat dtm rid st] assms SvRecv show ?thesis by auto
  next
    case False
    from sv_msg_plain[OF False, of plat dtm rid st] assms SvRecv show ?thesis
      by (auto simp: sv_sameTimers_def)
  qed
next
  case (SvElapse d)
  then show ?thesis using sv_elapse_fields(8)[OF assms] by simp
next
  case SvStop
  then show ?thesis using assms by (simp add: sv_stop_fields)
next
  case SvStopDone
  then show ?thesis using assms by (simp add: sv_stopDone_fields)
qed

lemma sv_run_idle:
  "pending (sv_timeouts st) = [] \<Longrightarrow>
   \<exists>s. sv_run plat dtm rid st evs = Some s \<and> sv_sent s = sv_sent st"
proof (induction evs arbitrary: st)
  case Nil
  then show ?case by simp
next
  case (Cons e es)
  from sv_step_idle[OF Cons.prems, of plat dtm rid e] obtain s1 where
    s: "sv_step plat dtm rid st e = Some s1" "pending (sv_timeouts s1) = []"
       "sv_sent s1 = sv_sent st" by blast
  from Cons.IH[OF s(2)] s show ?case by simp
qed

lemma sv_step_now:
  "sv_step plat dtm rid st e = Some s \<Longrightarrow>
   sv_now s = sv_now st + sv_duration [e] \<and> sv_live s = sv_live st"
proof (cases e)
  case (SvRecv m)
  assume a: "sv_step plat dtm rid st e = Some s"
  show ?thesis
  proof (cases "sv_cancels (SvRecv m)")
    case True
    from sv_msg_plug[OF True, of plat dtm rid st] a SvRecv show ?thesis
      by (auto simp: sv_live_def)
  next
    case False
    from sv_msg_plain[OF False, of plat dtm rid st] a SvRecv show ?thesis
      by (auto simp: sv_sameTimers_def sv_live_def)
  qed
next
  case (SvElapse d)
  assume "sv_step plat dtm rid st e = Some s"
  then show ?thesis using SvElapse by (auto simp: sv_elapse_fields sv_live_def)
next
  case SvStop
  assume "sv_step plat dtm rid st e = Some s"
  then show ?thesis using SvStop by (auto simp: sv_stop_fields sv_live_def)
next
  case SvStopDone
  assume "sv_step plat dtm rid st e = Some s"
  then show ?thesis using SvStopDone
    by (auto simp: sv_stopDone_fields sv_live_def split: if_splits)
qed

lemma sv_step_cancel:
  assumes "sv_cancels e" "sv_live st"
      and "pending (sv_timeouts st) = [] \<or> sv_armed st h due"
  shows "\<exists>s. sv_step plat dtm rid st e = Some s \<and> pending (sv_timeouts s) = [] \<and>
           sv_sent s = sv_sent st"
proof (cases "pending (sv_timeouts st) = []")
  case True
  then show ?thesis by (rule sv_step_idle)
next
  case False
  with assms(3) have ar: "sv_armed st h due" by simp
  show ?thesis
  proof (cases e)
    case (SvRecv m)
    with assms(1) have c: "sv_cancels (SvRecv m)" by simp
    from sv_msg_plug[OF c, of plat dtm rid st h due] ar assms(2) SvRecv show ?thesis by auto
  next
    case SvStop
    then show ?thesis using sv_stop_fields(6)[OF ar] by (simp add: sv_stop_fields)
  qed (use assms(1) in simp_all)
qed

lemma sv_step_armed:
  assumes "\<not> sv_cancels e" "sv_armed st h due" "sv_now st < due"
  shows "\<exists>s. sv_step plat dtm rid st e = Some s \<and>
           (sv_now st + sv_duration [e] < due \<longrightarrow> sv_armed s h due \<and> sv_sent s = sv_sent st) \<and>
           (due \<le> sv_now st + sv_duration [e] \<longrightarrow>
              pending (sv_timeouts s) = [] \<and>
              sv_sent s = sv_sent st @ [SendCommand ''wifiPair''])"
proof (cases e)
  case (SvRecv m)
  with assms(1) have c: "\<not> sv_cancels (SvRecv m)" by simp
  from sv_msg_plain[OF c, of plat dtm rid st] obtain s where
    s: "sv_onDriverMessage plat dtm rid st m = Some s" "sv_sameTimers s st" by blast
  have "sv_armed s h due" using assms(2) s(2) by (simp add: sv_armed_def sv_sameTimers_def)
  moreover have "\<not> due \<le> sv_now st" using assms(3) by simp
  ultimately show ?thesis using SvRecv s
    by (simp add: sv_sameTimers_def)
next
  case (SvElapse d)
  have p: "pending (sv_timeouts st) = [(h, due)]" using assms(2) by (simp add: sv_armed_def)
  show ?thesis
  proof (cases "sv_now st + d < due")
    case True
    from sv_elapse_fields(9)[OF p True] assms(2) True SvElapse show ?thesis
      by (simp add: sv_armed_def sv_elapse_fields(4-7))
  next
    case False
    hence "due \<le> sv_now st + d" by simp
    from sv_elapse_fields(10)[OF p this] False SvElapse show ?thesis by simp
  qed
next
  case SvStop
  then show ?thesis using assms(1) by simp
next
  case SvStopDone
  then show ?thesis using assms(2) assms(3) by (auto simp: sv_armed_def)
qed

lemma sv_run_early:
  "pending (sv_timeouts st) = [] \<or> sv_armed st h due \<Longrightarrow> sv_live st \<Longrightarrow>
   sv_now st + sv_duration evs < due \<Longrightarrow>
   \<exists>s. sv_run plat dtm rid st evs = Some s \<and>
       (pending (sv_timeouts s) = [] \<or> sv_armed s h due) \<and> sv_live s \<and>
       sv_sent s = sv_sent st"
proof (induction evs arbitrary: st)
  case Nil
  then show ?case by simp
next
  case (Cons e es)
  have d: "sv_duration (e # es) = sv_duration [e] + sv_duration es"
    using sv_duration_append[of "[e]" es] by simp
  have l: "sv_now st + sv_duration [e] < due" using Cons.prems(3) d by simp
  have "\<exists>s1. sv_step plat dtm rid st e = Some s1 \<and>
          (pending (sv_timeouts s1) = [] \<or> sv_armed s1 h due) \<and> sv_sent s1 = sv_sent st"
  proof (cases "sv_cancels e")
    case True
    from sv_step_cancel[OF True Cons.prems(2) Cons.prems(1), of plat dtm rid]
    show ?thesis by blast
  next
    case False
    show ?thesis
    proof (cases "pending (sv_timeouts st) = []")
      case True
      from sv_step_idle[OF True, of plat dtm rid e] show ?thesis by blast
    next
      case ne: False
      with Cons.prems(1) have ar: "sv_armed st h due" by simp
      have "sv_now st < due" using l by simp
      from sv_step_armed[OF False ar this, of plat dtm rid] l show ?thesis by auto
    qed
  qed
  then obtain s1 where s: "sv_step plat dtm rid st e = Some s1"
    "pending (sv_timeouts s1) = [] \<or> sv_armed s1 h due" "sv_sent s1 = sv_sent st" by blast
  note n = sv_step_now[OF s(1)]
  have "sv_live s1" using n Cons.prems(2) by simp
  moreover have "sv_now s1 + sv_duration es < due" using n Cons.prems(3) d by simp
  ultimately show ?case using Cons.IH[OF s(2)] s by simp
qed

lemma sv_run_armed:
  "\<forall>e \<in> set evs. \<not> sv_cancels e \<Longrightarrow> sv_armed st h due \<Longrightarrow> sv_now st < due \<Longrightarrow>
   due \<le> sv_now st + sv_duration evs \<Longrightarrow>
   \<exists>s. sv_run plat dtm rid st evs = Some s \<and>
       sv_sent s = sv_sent st @ [SendCommand ''wifiPair''] \<and> pending (sv_timeouts s) = []"
proof (induction evs arbitrary: st)
  case Nil
  then show ?case by simp
next
  case (Cons e es)
  have d: "sv_duration (e # es) = sv_duration [e] + sv_duration es"
    using sv_duration_append[of "[e]" es] by simp
  have nc: "\<not> sv_cancels e" using Cons.prems(1) by simp
  from sv_step_armed[OF nc Cons.prems(2) Cons.prems(3), of plat dtm rid] obtain s1 where
    s: "sv_step plat dtm rid st e = Some s1"
       "sv_now st + sv_duration [e] < due \<longrightarrow> sv_armed s1 h due \<and> sv_sent s1 = sv_sent st"
       "due \<le> sv_now st + sv_duration [e] \<longrightarrow>
          pending (sv_timeouts s1) = [] \<and> sv_sent s1 = sv_sent st @ [SendCommand ''wifiPair'']"
    by blast
  note n = sv_step_now[OF s(1)]
  show ?case
  proof (cases "sv_now st + sv_duration [e] < due")
    case True
    with s have k: "sv_armed s1 h due" "sv_sent s1 = sv_sent st" by simp_all
    have a: "sv_now s1 < due" using True n by simp
    have b: "due \<le> sv_now s1 + sv_duration es" using Cons.prems(4) d n by simp
    from Cons.IH[OF _ k(1) a b] Cons.prems(1) k(2) s(1) show ?thesis by simp
  next
    case False
    with s have k: "pending (sv_timeouts s1) = []"
      "sv_sent s1 = sv_sent st @ [SendCommand ''wifiPair'']" by simp_all
    have "\<exists>s. sv_run plat dtm rid s1 es = Some s \<and> sv_sent s = sv_sent s1 \<and>
            pending (sv_timeouts s) = []"
      using k(1)
    proof (induction es arbitrary: s1)
      case Nil
      then show ?case by simp
    next
      case (Cons x xs)
      from sv_step_idle[OF Cons.prems, of plat dtm rid x] obtain s2 where
        "sv_step plat dtm rid s1 x = Some s2" "pending (sv_timeouts s2) = []"
        "sv_sent s2 = sv_sent s1" by blast
      then show ?case using Cons.IH[of s2] by simp
    qed
    then show ?thesis using k(2) s(1) by auto
  qed
qed

lemma sv_startDone_facts:
  assumes "pending (sv_timeouts sv) = []" "\<not> sv_stopping sv" "\<not> sv_isStopping sv"
  shows "sv_armed (sv_startDone True sv) (nextHandle (sv_timeouts sv)) (sv_now sv + 15000)"
    and "sv_now (sv_startDone True sv) = sv_now sv"
    and "sv_sent (sv_startDone True sv) = sv_sent sv"
    and "sv_live (sv_startDone True sv) = sv_live sv"
  using assms by (simp_all add: sv_startDone_def setTimeout_def sv_armed_def sv_live_def)

lemma sv_session:
  assumes idle: "pending (sv_timeouts sv) = []" and live: "sv_webContents sv" "\<not> sv_shuttingDown sv"
      and ns: "\<not> sv_stopping sv" "\<not> sv_isStopping sv"
  shows "(\<forall>e \<in> set pre. \<not> sv_cancels e) \<and> 15000 \<le> sv_duration pre \<longrightarrow>
           (\<exists>s. sv_run plat dtm rid (sv_startDone True sv) (pre @ post) = Some s \<and>
                wifiPairs (sv_sent s) = wifiPairs (sv_sent sv) + 1)"
    and "sv_duration pre < 15000 \<and> sv_cancels e \<longrightarrow>
           (\<exists>s. sv_run plat dtm rid (sv_startDone True sv) (pre @ e # post) = Some s \<and>
                wifiPairs (sv_sent s) = wifiPairs (sv_sent sv))"
proof -
  let ?s0 = "sv_startDone True sv"
  note f = sv_startDone_facts[OF idle ns]
  have l0: "sv_live ?s0" using f(4) live by (simp add: sv_live_def)
  show "(\<forall>e \<in> set pre. \<not> sv_cancels e) \<and> 15000 \<le> sv_duration pre \<longrightarrow>
           (\<exists>s. sv_run plat dtm rid ?s0 (pre @ post) = Some s \<and>
                wifiPairs (sv_sent s) = wifiPairs (sv_sent sv) + 1)"
  proof
    assume a: "(\<forall>e \<in> set pre. \<not> sv_cancels e) \<and> 15000 \<le> sv_duration pre"
    have "\<exists>s. sv_run plat dtm rid ?s0 pre = Some s \<and>
            sv_sent s = sv_sent ?s0 @ [SendCommand ''wifiPair''] \<and> pending (sv_timeouts s) = []"
      using a f by (intro sv_run_armed[OF _ f(1)]) simp_all
    then obtain s1 where s1: "sv_run plat dtm rid ?s0 pre = Some s1"
      "sv_sent s1 = sv_sent sv @ [SendCommand ''wifiPair'']" "pending (sv_timeouts s1) = []"
      using f(3) by auto
    from sv_run_idle[OF s1(3), of plat dtm rid post] obtain s2 where
      "sv_run plat dtm rid s1 post = Some s2" "sv_sent s2 = sv_sent s1" by blast
    then show "\<exists>s. sv_run plat dtm rid ?s0 (pre @ post) = Some s \<and>
                wifiPairs (sv_sent s) = wifiPairs (sv_sent sv) + 1"
      using s1 by (simp add: sv_run_append)
  qed
  show "sv_duration pre < 15000 \<and> sv_cancels e \<longrightarrow>
           (\<exists>s. sv_run plat dtm rid ?s0 (pre @ e # post) = Some s \<and>
                wifiPairs (sv_sent s) = wifiPairs (sv_sent sv))"
  proof
    assume a: "sv_duration pre < 15000 \<and> sv_cancels e"
    have "\<exists>s. sv_run plat dtm rid ?s0 pre = Some s \<and>
       (pending (sv_timeouts s) = [] \<or>
        sv_armed s (nextHandle (sv_timeouts sv)) (sv_now sv + 15000)) \<and> sv_live s \<and>
       sv_sent s = sv_sent ?s0"
      using a f by (intro sv_run_early[OF _ l0]) simp_all
    then obtain s1 where s1: "sv_run plat dtm rid ?s0 pre = Some s1"
      "pending (sv_timeouts s1) = [] \<or>
        sv_armed s1 (nextHandle (sv_timeouts sv)) (sv_now sv + 15000)"
      "sv_live s1" "sv_sent s1 = sv_sent sv"
      using f(3) by auto
    from sv_step_cancel[OF conjunct2[OF a] s1(3) s1(2), of plat dtm rid] obtain s2 where
      s2: "sv_step plat dtm rid s1 e = Some s2" "pending (sv_timeouts s2) = []"
          "sv_sent s2 = sv_sent s1" by blast
    from sv_run_idle[OF s2(2), of plat dtm rid post] obtain s3 where
      "sv_run plat dtm rid s2 post = Some s3" "sv_sent s3 = sv_sent s2" by blast
    then show "\<exists>s. sv_run plat dtm rid ?s0 (pre @ e # post) = Some s \<and>
                wifiPairs (sv_sent s) = wifiPairs (sv_sent sv)"
      using s1 s2 by (simp add: sv_run_append)
  qed
qed

text \<open>
  Claim C4, amended. Where no pair timeout of an earlier start is pending, the start of
  the driver (\<open>initialiseAfterReconnect\<close> of the \<open>Carplay\<close> wrapper, the successful end
  of \<open>start\<close> of \<open>CarplayService\<close>) sets one pair timeout, due 15000 ms later. If
  the session then runs for 15000 ms or more without an event that clears the timeout,
  \<open>wifiPair\<close> is sent exactly once, whatever follows; if such an event comes before
  the 15000 ms are over, \<open>wifiPair\<close> is never sent in that session. The events that
  clear it are, in the wrapper, a \<open>Plugged\<close>, \<open>VideoData\<close>, \<open>AudioData\<close> or
  \<open>MediaData\<close> message and \<open>stop\<close>; in the service (with a renderer attached, not
  shutting down and no stop under way at the start), a \<open>Plugged\<close> message and a stop,
  called directly or by an \<open>Unplugged\<close> message.
\<close>

theorem pair_timeout:
  assumes "pending (cp_timeouts st) = []"
      and "pending (sv_timeouts sv) = []"
      and "sv_webContents sv" "\<not> sv_shuttingDown sv" "\<not> sv_stopping sv" "\<not> sv_isStopping sv"
  shows "(\<exists>h. cp_pairTimeout (cp_initialiseAfterReconnect st) = Some h \<and>
              pending (cp_timeouts (cp_initialiseAfterReconnect st)) = [(h, cp_now st + 15000)])
   \<and> ((\<forall>e \<in> set pre. \<not> cancels e) \<and> 15000 \<le> duration pre \<longrightarrow>
        wifiPairs (cp_sent (cp_run plat (cp_initialiseAfterReconnect st) (pre @ post)))
          = wifiPairs (cp_sent st) + 1)
   \<and> (duration pre < 15000 \<and> cancels e \<longrightarrow>
        wifiPairs (cp_sent (cp_run plat (cp_initialiseAfterReconnect st) (pre @ e # post)))
          = wifiPairs (cp_sent st))
   \<and> (\<exists>h. sv_pairTimeout (sv_startDone True sv) = Some h \<and>
              pending (sv_timeouts (sv_startDone True sv)) = [(h, sv_now sv + 15000)])
   \<and> ((\<forall>e \<in> set spre. \<not> sv_cancels e) \<and> 15000 \<le> sv_duration spre \<longrightarrow>
        (\<exists>s. sv_run plat dtm rid (sv_startDone True sv) (spre @ spost) = Some s \<and>
             wifiPairs (sv_sent s) = wifiPairs (sv_sent sv) + 1))
   \<and> (sv_duration spre < 15000 \<and> sv_cancels se \<longrightarrow>
        (\<exists>s. sv_run plat dtm rid (sv_startDone True sv) (spre @ se # spost) = Some s \<and>
             wifiPairs (sv_sent s) = wifiPairs (sv_sent sv)))"
proof (intro conjI)
  show "\<exists>h. cp_pairTimeout (cp_initialiseAfterReconnect st) = Some h \<and>
          pending (cp_timeouts (cp_initialiseAfterReconnect st)) = [(h, cp_now st + 15000)]"
    using cp_init_facts(1,2)[OF assms(1)] by simp
  show "\<exists>h. sv_pairTimeout (sv_startDone True sv) = Some h \<and>
          pending (sv_timeouts (sv_startDone True sv)) = [(h, sv_now sv + 15000)]"
    using sv_startDone_facts(1)[OF assms(2) assms(5) assms(6)] by (simp add: sv_armed_def)
qed (rule cp_session[OF assms(1)] sv_session[OF assms(2-6)])+

text \<open>The statement of claim C4 at two sessions of a new wrapper and two of a new
  service.\<close>

theorem pair_timeout_witness:
  "pending (cp_timeouts (cp_new False (\<lambda>p. None))) = [] \<and>
   pending (sv_timeouts (sv_new False)) = [] \<and> sv_webContents (sv_new False) \<and>
   \<not> sv_shuttingDown (sv_new False) \<and> \<not> sv_stopping (sv_new False) \<and>
   \<not> sv_isStopping (sv_new False) \<and>
   \<not> cancels (Recv Unplugged) \<and> \<not> cancels (Elapse 15000) \<and>
   15000 \<le> duration [Recv Unplugged, Elapse 15000] \<and>
   wifiPairs (cp_sent (cp_run Linux (cp_initialiseAfterReconnect (cp_new False (\<lambda>p. None)))
       ([Recv Unplugged, Elapse 15000] @ [Recv (VideoData aVideo), Elapse 20000]))) = 1 \<and>
   duration [Elapse 14999] < 15000 \<and> cancels (Recv (VideoData aVideo)) \<and>
   wifiPairs (cp_sent (cp_run Linux (cp_initialiseAfterReconnect (cp_new False (\<lambda>p. None)))
       ([Elapse 14999] @ Recv (VideoData aVideo) # [Elapse 20000]))) = 0 \<and>
   \<not> sv_cancels (SvRecv (VideoData aVideo)) \<and> \<not> sv_cancels (SvElapse 15000) \<and>
   15000 \<le> sv_duration [SvRecv (VideoData aVideo), SvElapse 15000] \<and>
   map_option (\<lambda>s. wifiPairs (sv_sent s))
     (sv_run Linux (\<lambda>t. None) ''id'' (sv_startDone True (sv_new False))
        ([SvRecv (VideoData aVideo), SvElapse 15000] @ [SvRecv (Plugged 3), SvElapse 20000]))
     = Some 1 \<and>
   sv_duration [SvElapse 14999] < 15000 \<and> sv_cancels (SvRecv (Plugged 3)) \<and>
   map_option (\<lambda>s. wifiPairs (sv_sent s))
     (sv_run Linux (\<lambda>t. None) ''id'' (sv_startDone True (sv_new False))
        ([SvElapse 14999] @ SvRecv (Plugged 3) # [SvElapse 20000]))
     = Some 0"
proof -
  have h: "pending (cp_timeouts (cp_new False (\<lambda>p. None))) = []"
    "pending (sv_timeouts (sv_new False)) = []" "sv_webContents (sv_new False)"
    "\<not> sv_shuttingDown (sv_new False)" "\<not> sv_stopping (sv_new False)"
    "\<not> sv_isStopping (sv_new False)"
    by (simp_all add: cp_new_def sv_new_def noTimeouts_def)
  have g: "(\<forall>e \<in> set [Recv Unplugged, Elapse 15000]. \<not> cancels e) \<and>
           15000 \<le> duration [Recv Unplugged, Elapse 15000]"
    "duration [Elapse 14999] < 15000 \<and> cancels (Recv (VideoData aVideo))"
    "(\<forall>e \<in> set [SvRecv (VideoData aVideo), SvElapse 15000]. \<not> sv_cancels e) \<and>
           15000 \<le> sv_duration [SvRecv (VideoData aVideo), SvElapse 15000]"
    "sv_duration [SvElapse 14999] < 15000 \<and> sv_cancels (SvRecv (Plugged 3))"
    "wifiPairs (cp_sent (cp_new False (\<lambda>p. None))) = 0"
    "wifiPairs (sv_sent (sv_new False)) = 0"
    by (simp_all add: cp_new_def sv_new_def)
  note a = pair_timeout[OF h, of "[Recv Unplugged, Elapse 15000]" Linux
             "[Recv (VideoData aVideo), Elapse 20000]" "Recv (VideoData aVideo)"
             "[SvRecv (VideoData aVideo), SvElapse 15000]" "\<lambda>t. None" "''id''"
             "[SvRecv (Plugged 3), SvElapse 20000]" "SvRecv (Plugged 3)"]
  note b = pair_timeout[OF h, of "[Elapse 14999]" Linux
             "[Elapse 20000]" "Recv (VideoData aVideo)"
             "[SvElapse 14999]" "\<lambda>t. None" "''id''"
             "[SvElapse 20000]" "SvRecv (Plugged 3)"]
  from a g have 1: "wifiPairs (cp_sent (cp_run Linux
       (cp_initialiseAfterReconnect (cp_new False (\<lambda>p. None)))
       ([Recv Unplugged, Elapse 15000] @ [Recv (VideoData aVideo), Elapse 20000]))) = 1"
    by simp
  from b g have 2: "wifiPairs (cp_sent (cp_run Linux
       (cp_initialiseAfterReconnect (cp_new False (\<lambda>p. None)))
       ([Elapse 14999] @ Recv (VideoData aVideo) # [Elapse 20000]))) = 0"
    by simp
  from a g have "\<exists>s. sv_run Linux (\<lambda>t. None) ''id'' (sv_startDone True (sv_new False))
        ([SvRecv (VideoData aVideo), SvElapse 15000] @ [SvRecv (Plugged 3), SvElapse 20000])
          = Some s \<and> wifiPairs (sv_sent s) = 1"
    by simp
  then have 3: "map_option (\<lambda>s. wifiPairs (sv_sent s))
     (sv_run Linux (\<lambda>t. None) ''id'' (sv_startDone True (sv_new False))
        ([SvRecv (VideoData aVideo), SvElapse 15000] @ [SvRecv (Plugged 3), SvElapse 20000]))
     = Some 1" by auto
  from b g have "\<exists>s. sv_run Linux (\<lambda>t. None) ''id'' (sv_startDone True (sv_new False))
        ([SvElapse 14999] @ SvRecv (Plugged 3) # [SvElapse 20000])
          = Some s \<and> wifiPairs (sv_sent s) = 0"
    by simp
  then have 4: "map_option (\<lambda>s. wifiPairs (sv_sent s))
     (sv_run Linux (\<lambda>t. None) ''id'' (sv_startDone True (sv_new False))
        ([SvElapse 14999] @ SvRecv (Plugged 3) # [SvElapse 20000]))
     = Some 0" by auto
  from h g 1 2 3 4 show ?thesis by simp
qed

text \<open>
  Claim C4 as stated fails in three ways. In the wrapper a \<open>Plugged\<close> message clears
  the timeout: no media message arrives, and yet \<open>wifiPair\<close> is not sent. In
  \<open>CarplayService\<close> a \<open>VideoData\<close> message does not clear the timeout that \<open>start\<close>
  set: \<open>wifiPair\<close> is sent after 15000 ms although video arrived before. And when the
  wrapper's \<open>initialiseAfterReconnect\<close> runs a second time 5000 ms after the first, the
  first timeout stays pending: the video message that follows clears the second only,
  and \<open>wifiPair\<close> is sent.
\<close>

theorem pair_timeout_counterexample:
  "\<not> isMedia (Recv (Plugged 3)) \<and> \<not> isMedia (Elapse 15000) \<and>
   wifiPairs (cp_sent (cp_run Linux (cp_initialiseAfterReconnect (cp_new False (\<lambda>p. None)))
       [Recv (Plugged 3), Elapse 15000])) = 0 \<and>
   isMedia (Recv (VideoData aVideo)) \<and>
   map_option (\<lambda>s. wifiPairs (sv_sent s))
     (sv_run Linux (\<lambda>t. None) ''id'' (sv_startDone True (sv_new False))
        [SvRecv (VideoData aVideo), SvElapse 15000]) = Some 1 \<and>
   wifiPairs (cp_sent (cp_run Linux
       (cp_initialiseAfterReconnect
          (cp_run Linux (cp_initialiseAfterReconnect (cp_new False (\<lambda>p. None))) [Elapse 5000]))
       [Recv (VideoData aVideo), Elapse 20000])) = 1"
  by (simp add: cp_run_def cp_initialiseAfterReconnect_def cp_new_def cp_onDriverMessage_def
      cp_micRouting_def cp_dispatch_def cp_emit_def cp_clearPairTimeout_def
      cp_clearFrameInterval_def cp_elapse_def Let_def wifiPairs_def
      sv_startDone_def sv_new_def sv_onDriverMessage_def sendChunked_def sv_send_def
      sv_elapse_def aVideo_def
      noTimeouts_def setTimeout_def clearTimeout_def dueBy_def expire_def)

section \<open>Properties of the video worker\<close>

lemma decodeRest_cases:
  "decodeRest st f = st \<or>
   (isConfigured st \<and> \<not> awaitingValidKeyframe st \<and>
    decodeRest st f = decode (if f_key f then KeyChunk else DeltaChunk) f st)"
  by (simp add: decodeRest_def)

lemma decode_fields [simp]:
  "lastSPS (decode ty f st) = lastSPS st"
  "awaitingValidKeyframe (decode ty f st) = awaitingValidKeyframe st"
  "isConfigured (decode ty f st) = isConfigured st"
  "submitted (decode ty f st) = submitted st @ [\<lparr>c_type = ty, c_data = f\<rparr>]"
  by (simp_all add: decode_def)

lemma gate_inv_mono:
  assumes "gate_inv fs st"
  shows "gate_inv (fs @ [f]) st"
proof -
  have 1: "lastSPS st \<noteq> None \<longrightarrow> (\<exists>g \<in> set (fs @ [f]). f_sps g \<noteq> None)"
    using assms by (auto simp: gate_inv_def)
  have 2: "\<not> awaitingValidKeyframe st \<longrightarrow> submitted st \<noteq> []"
    using assms by (simp add: gate_inv_def)
  have 3: "submitted st \<noteq> [] \<longrightarrow>
        (\<exists>pre fa post. fs @ [f] = pre @ fa # post \<and> f_key fa \<and>
           (\<exists>g \<in> set (pre @ [fa]). f_sps g \<noteq> None) \<and>
           hd (submitted st) = \<lparr>c_type = KeyChunk, c_data = fa\<rparr>)"
  proof
    assume "submitted st \<noteq> []"
    with assms obtain pre fa post where
      h: "fs = pre @ fa # post" "f_key fa" "\<exists>g \<in> set (pre @ [fa]). f_sps g \<noteq> None"
         "hd (submitted st) = \<lparr>c_type = KeyChunk, c_data = fa\<rparr>"
      unfolding gate_inv_def by blast
    have "fs @ [f] = pre @ fa # (post @ [f])" using h(1) by simp
    with h(2-4) show "\<exists>pre fa post. fs @ [f] = pre @ fa # post \<and> f_key fa \<and>
           (\<exists>g \<in> set (pre @ [fa]). f_sps g \<noteq> None) \<and>
           hd (submitted st) = \<lparr>c_type = KeyChunk, c_data = fa\<rparr>"
      by blast
  qed
  from 1 2 3 show ?thesis unfolding gate_inv_def by blast
qed

lemma gate_inv_decodeRest:
  assumes "gate_inv fs st"
  shows "gate_inv fs (decodeRest st f)"
proof -
  from decodeRest_cases[of st f] show ?thesis
  proof
    assume "decodeRest st f = st"
    then show ?thesis using assms by simp
  next
    assume a: "isConfigured st \<and> \<not> awaitingValidKeyframe st \<and>
      decodeRest st f = decode (if f_key f then KeyChunk else DeltaChunk) f st"
    then have ne: "submitted st \<noteq> []" using assms by (simp add: gate_inv_def)
    then show ?thesis using assms a by (simp add: gate_inv_def)
  qed
qed

lemma gate_inv_noteSPS:
  assumes "gate_inv fs st"
  shows "gate_inv (fs @ [f]) (noteSPS st f)"
proof -
  have m: "gate_inv (fs @ [f]) st" by (rule gate_inv_mono[OF assms])
  show ?thesis
  proof (cases "f_sps f \<noteq> None \<and> \<not> isConfigured st")
    case True
    then have "noteSPS st f = st\<lparr>lastSPS := f_sps f\<rparr>" by (simp add: noteSPS_def)
    moreover have "gate_inv (fs @ [f]) (st\<lparr>lastSPS := f_sps f\<rparr>)"
      using m True unfolding gate_inv_def by simp
    ultimately show ?thesis by simp
  next
    case False
    then have "noteSPS st f = st" by (auto simp: noteSPS_def)
    with m show ?thesis by simp
  qed
qed

lemma configureDecoder_cases:
  "configureDecoder env st cfg = (False, st) \<or>
   configureDecoder env st cfg = (True, st\<lparr>isConfigured := True\<rparr>)"
  by (simp add: configureDecoder_def)

lemma gate_inv_firstKeyframe:
  assumes i: "gate_inv (fs @ [f]) s1" and k: "f_key f" and l: "lastSPS s1 \<noteq> None"
  shows "gate_inv (fs @ [f]) (firstKeyframe env s1 f)"
proof (cases "getDecoderConfig env (the (lastSPS s1))")
  case None
  then show ?thesis using gate_inv_decodeRest[OF i] by (simp add: firstKeyframe_def)
next
  case (Some cfg)
  from configureDecoder_cases[of env s1 cfg] show ?thesis
  proof
    assume "configureDecoder env s1 cfg = (False, s1)"
    then show ?thesis using Some gate_inv_decodeRest[OF i] by (simp add: firstKeyframe_def)
  next
    assume c: "configureDecoder env s1 cfg = (True, s1\<lparr>isConfigured := True\<rparr>)"
    let ?s3 = "decode KeyChunk f (s1\<lparr>isConfigured := True\<rparr>)"
    have p: "firstKeyframe env s1 f =
               (if f_decodeThrows f then ?s3 else ?s3\<lparr>awaitingValidKeyframe := False\<rparr>)"
      using Some c by (simp add: firstKeyframe_def Let_def)
    have sp: "\<exists>g \<in> set (fs @ [f]). f_sps g \<noteq> None"
      using i l by (simp add: gate_inv_def)
    have h: "submitted ?s3 \<noteq> []" by simp
    have hd3: "submitted s1 = [] \<Longrightarrow> hd (submitted ?s3) = \<lparr>c_type = KeyChunk, c_data = f\<rparr>"
      by simp
    have hd3': "submitted s1 \<noteq> [] \<Longrightarrow> hd (submitted ?s3) = hd (submitted s1)"
      by simp
    have e: "\<exists>pre fa post. fs @ [f] = pre @ fa # post \<and> f_key fa \<and>
                    (\<exists>g \<in> set (pre @ [fa]). f_sps g \<noteq> None) \<and>
                    hd (submitted ?s3) = \<lparr>c_type = KeyChunk, c_data = fa\<rparr>"
    proof (cases "submitted s1 = []")
      case True
      show ?thesis
        apply (rule exI[of _ fs], rule exI[of _ f], rule exI[of _ "[]"])
        using k sp hd3[OF True] by simp
    next
      case False
      with i obtain pre fa post where
        "fs @ [f] = pre @ fa # post" "f_key fa" "\<exists>g \<in> set (pre @ [fa]). f_sps g \<noteq> None"
        "hd (submitted s1) = \<lparr>c_type = KeyChunk, c_data = fa\<rparr>"
        unfolding gate_inv_def by blast
      then show ?thesis using hd3'[OF False] by metis
    qed
    have l3: "lastSPS ?s3 \<noteq> None \<longrightarrow> (\<exists>g \<in> set (fs @ [f]). f_sps g \<noteq> None)"
      using sp by blast
    have g: "gate_inv (fs @ [f]) ?s3"
      unfolding gate_inv_def using l3 h e by blast
    have g': "gate_inv (fs @ [f]) (?s3\<lparr>awaitingValidKeyframe := False\<rparr>)"
      using g h unfolding gate_inv_def by simp
    from g g' p show ?thesis by simp
  qed
qed

lemma gate_inv_step:
  assumes i: "gate_inv fs st"
  shows "gate_inv (fs @ [f]) (processRaw env st f)"
proof (cases "f_byteLength f = 0")
  case True
  then show ?thesis using gate_inv_mono[OF i] by (simp add: processRaw_def)
next
  case False
  have i1: "gate_inv (fs @ [f]) (noteSPS st f)" by (rule gate_inv_noteSPS[OF i])
  show ?thesis
    using False i1 gate_inv_decodeRest[OF i1, of f] gate_inv_firstKeyframe[OF i1, of env]
    by (simp add: processRaw_def Let_def)
qed

lemma gate_inv_feed:
  "gate_inv fs0 st \<Longrightarrow> gate_inv (fs0 @ fs) (feed env st fs)"
  unfolding feed_def
proof (induction fs arbitrary: fs0 st)
  case Nil
  then show ?case by simp
next
  case (Cons f fs)
  from Cons.IH[OF gate_inv_step[OF Cons.prems, of f env]] show ?case by simp
qed

lemma gate_inv_new: "gate_inv [] (newWorker hw sw)"
  by (simp add: gate_inv_def newWorker_def)

lemma awaiting_drops:
  "awaitingValidKeyframe st \<Longrightarrow> \<not> f_key f \<Longrightarrow>
   submitted (processRaw env st f) = submitted st \<and>
   awaitingValidKeyframe (processRaw env st f) \<and>
   isConfigured (processRaw env st f) = isConfigured st"
  by (simp add: processRaw_def noteSPS_def Let_def)

lemma no_key_no_decode:
  "\<forall>f \<in> set fs. \<not> f_key f \<Longrightarrow> awaitingValidKeyframe st \<Longrightarrow>
   submitted (feed env st fs) = submitted st \<and> awaitingValidKeyframe (feed env st fs)"
  unfolding feed_def
proof (induction fs arbitrary: st)
  case Nil
  then show ?case by simp
next
  case (Cons f fs)
  from awaiting_drops[of st f env] Cons.prems
  have a: "submitted (processRaw env st f) = submitted st" "awaitingValidKeyframe (processRaw env st f)"
    by simp_all
  from Cons.IH[OF _ a(2)] Cons.prems(1) a(1) show ?case by simp
qed

text \<open>
  Claim C6. Whatever frames a new worker is fed: if anything was handed to the decoder,
  the first chunk handed over is the key chunk of a keyframe of the stream, and an SPS
  was observed in that frame or before it. While the worker awaits a valid keyframe, a
  frame that is not a keyframe is dropped without decoding, and the worker keeps
  waiting. A stream without keyframes (P-slices only) has nothing decoded, hence
  nothing presented, since frames are drawn from the decoder's output only. And when
  after such a start a keyframe with an SPS arrives that the decoder can be configured
  for, exactly that keyframe has been submitted.
\<close>

theorem keyframe_gating:
  "(submitted (feed env (newWorker hw sw) fs) \<noteq> [] \<longrightarrow>
      (\<exists>pre f post. fs = pre @ f # post \<and> f_key f \<and>
         (\<exists>g \<in> set (pre @ [f]). f_sps g \<noteq> None) \<and>
         hd (submitted (feed env (newWorker hw sw) fs)) = \<lparr>c_type = KeyChunk, c_data = f\<rparr>))
   \<and> (awaitingValidKeyframe st \<and> \<not> f_key f' \<longrightarrow>
        submitted (processRaw env st f') = submitted st \<and>
        awaitingValidKeyframe (processRaw env st f'))
   \<and> ((\<forall>f \<in> set fs. \<not> f_key f) \<longrightarrow> submitted (feed env (newWorker hw sw) fs) = [])
   \<and> ((\<forall>f \<in> set ps. \<not> f_key f) \<and> f_key k \<and> f_sps k \<noteq> None \<and> f_byteLength k \<noteq> 0 \<and>
       getDecoderConfig env (the (f_sps k)) \<noteq> None \<and>
       (hw \<and> configuresHw env (the (getDecoderConfig env (the (f_sps k)))) \<or>
        sw \<and> configuresSw env (the (getDecoderConfig env (the (f_sps k))))) \<longrightarrow>
        submitted (feed env (newWorker hw sw) (ps @ [k])) = [\<lparr>c_type = KeyChunk, c_data = k\<rparr>])"
proof (intro conjI impI)
  assume "submitted (feed env (newWorker hw sw) fs) \<noteq> []"
  then show "\<exists>pre f post. fs = pre @ f # post \<and> f_key f \<and>
         (\<exists>g \<in> set (pre @ [f]). f_sps g \<noteq> None) \<and>
         hd (submitted (feed env (newWorker hw sw) fs)) = \<lparr>c_type = KeyChunk, c_data = f\<rparr>"
    using gate_inv_feed[OF gate_inv_new[of hw sw], where fs=fs and env=env]
    by (simp add: gate_inv_def)
next
  assume "awaitingValidKeyframe st \<and> \<not> f_key f'"
  then show "submitted (processRaw env st f') = submitted st"
    and "awaitingValidKeyframe (processRaw env st f')"
    using awaiting_drops[of st f' env] by simp_all
next
  assume "\<forall>f \<in> set fs. \<not> f_key f"
  then show "submitted (feed env (newWorker hw sw) fs) = []"
    using no_key_no_decode[of fs "newWorker hw sw" env] by (simp add: newWorker_def)
next
  assume a: "(\<forall>f \<in> set ps. \<not> f_key f) \<and> f_key k \<and> f_sps k \<noteq> None \<and> f_byteLength k \<noteq> 0 \<and>
       getDecoderConfig env (the (f_sps k)) \<noteq> None \<and>
       (hw \<and> configuresHw env (the (getDecoderConfig env (the (f_sps k)))) \<or>
        sw \<and> configuresSw env (the (getDecoderConfig env (the (f_sps k)))))"
  let ?s = "feed env (newWorker hw sw) ps"
  have s: "submitted ?s = []" "awaitingValidKeyframe ?s"
    using no_key_no_decode[of ps "newWorker hw sw" env] a by (simp_all add: newWorker_def)
  have nc: "\<not> isConfigured ?s \<and> rendererHwSupported ?s = hw \<and> rendererSwSupported ?s = sw"
    using a
  proof (induction ps rule: rev_induct)
    case Nil
    then show ?case by (simp add: feed_def newWorker_def)
  next
    case (snoc f fs)
    let ?t = "feed env (newWorker hw sw) fs"
    have aw: "awaitingValidKeyframe ?t"
      using no_key_no_decode[of fs "newWorker hw sw" env] snoc.prems by (simp add: newWorker_def)
    have "feed env (newWorker hw sw) (fs @ [f]) = processRaw env ?t f" by (simp add: feed_def)
    moreover have "\<not> f_key f" using snoc.prems by simp
    ultimately show ?case using snoc aw by (auto simp: processRaw_def noteSPS_def Let_def)
  qed
  obtain cfg where cfg: "getDecoderConfig env (the (f_sps k)) = Some cfg" using a by auto
  have cd: "configureDecoder env (?s\<lparr>lastSPS := f_sps k\<rparr>) cfg = (True, ?s\<lparr>lastSPS := f_sps k, isConfigured := True\<rparr>)"
    using a nc cfg by (auto simp: configureDecoder_def)
  have "feed env (newWorker hw sw) (ps @ [k]) = processRaw env ?s k" by (simp add: feed_def)
  also have "submitted (processRaw env ?s k) = [\<lparr>c_type = KeyChunk, c_data = k\<rparr>]"
    using a nc s cfg cd by (auto simp: processRaw_def noteSPS_def firstKeyframe_def Let_def)
  finally show "submitted (feed env (newWorker hw sw) (ps @ [k])) = [\<lparr>c_type = KeyChunk, c_data = k\<rparr>]" .
qed

lemma demo_feed:
  "submitted (feed goodEnv (newWorker True True) [pSlice, spsIdr, pSlice]) =
     [\<lparr>c_type = KeyChunk, c_data = spsIdr\<rparr>, \<lparr>c_type = DeltaChunk, c_data = pSlice\<rparr>]"
  "submitted (feed goodEnv (newWorker True True) [pSlice, pSlice]) = []"
  "submitted (processRaw goodEnv (newWorker True True) pSlice) = []"
  by (simp_all add: feed_def processRaw_def noteSPS_def firstKeyframe_def decodeRest_def
      configureDecoder_def decode_def newWorker_def goodEnv_def pSlice_def spsIdr_def Let_def)

text \<open>The statement of claim C6 at a P-slice followed by a frame with SPS and IDR.\<close>

theorem keyframe_gating_witness:
  "submitted (feed goodEnv (newWorker True True) [pSlice, spsIdr, pSlice]) \<noteq> [] \<and>
   hd (submitted (feed goodEnv (newWorker True True) [pSlice, spsIdr, pSlice]))
     = \<lparr>c_type = KeyChunk, c_data = spsIdr\<rparr> \<and>
   awaitingValidKeyframe (newWorker True True) \<and> \<not> f_key pSlice \<and>
   submitted (processRaw goodEnv (newWorker True True) pSlice) = [] \<and>
   submitted (feed goodEnv (newWorker True True) [pSlice, pSlice]) = [] \<and>
   f_key spsIdr \<and> f_sps spsIdr \<noteq> None \<and>
   submitted (feed goodEnv (newWorker True True) ([pSlice] @ [spsIdr]))
     = [\<lparr>c_type = KeyChunk, c_data = spsIdr\<rparr>]"
proof -
  have h: "awaitingValidKeyframe (newWorker True True)" "\<not> f_key pSlice" "f_key spsIdr"
    "f_sps spsIdr \<noteq> None" "f_byteLength spsIdr \<noteq> 0"
    "getDecoderConfig goodEnv (the (f_sps spsIdr)) \<noteq> None"
    "configuresHw goodEnv (the (getDecoderConfig goodEnv (the (f_sps spsIdr))))"
    "\<forall>f \<in> set [pSlice]. \<not> f_key f" "\<forall>f \<in> set [pSlice, pSlice]. \<not> f_key f"
    by (simp_all add: newWorker_def pSlice_def spsIdr_def goodEnv_def)
  note a = keyframe_gating[of goodEnv True True "[pSlice, spsIdr, pSlice]"
             "newWorker True True" pSlice "[pSlice]" spsIdr]
  note b = keyframe_gating[of goodEnv True True "[pSlice, pSlice]"
             "newWorker True True" pSlice "[pSlice]" spsIdr]
  from a h have 1: "submitted (feed goodEnv (newWorker True True) ([pSlice] @ [spsIdr]))
     = [\<lparr>c_type = KeyChunk, c_data = spsIdr\<rparr>]" by blast
  from a h have 2: "submitted (processRaw goodEnv (newWorker True True) pSlice)
     = submitted (newWorker True True)" by blast
  from b h have 3: "submitted (feed goodEnv (newWorker True True) [pSlice, pSlice]) = []" by blast
  from a demo_feed(1) have 4: "\<exists>pre f post. [pSlice, spsIdr, pSlice] = pre @ f # post \<and> f_key f \<and>
         (\<exists>g \<in> set (pre @ [f]). f_sps g \<noteq> None) \<and>
         hd (submitted (feed goodEnv (newWorker True True) [pSlice, spsIdr, pSlice]))
           = \<lparr>c_type = KeyChunk, c_data = f\<rparr>" by simp
  show ?thesis using h(1-4) 1 2 3 4 demo_feed by (simp add: newWorker_def)
qed


section \<open>Properties of the touch input\<close>

lemma to01_in01: "in01 (to01 v)"
  by (cases v) (auto simp: to01_def in01_def isFinite_def js_gt_def Let_def)

lemma clamp01_in01: "v \<noteq> NaN \<Longrightarrow> in01 (clamp01 v)"
  by (cases v) (auto simp: clamp01_def in01_def js_gt_def)

lemma to01_clamp01: "in01 (to01 (clamp01 v))"
  by (rule to01_in01)

text \<open>
  Claim C8 (every coordinate is normalised into the interval from 0 to 1, \<open>NaN\<close>
  and the infinities included). \<open>to01\<close> does so, and \<open>clamp01\<close> does so for every
  value but \<open>NaN\<close>, which it returns as it is, both of its comparisons being false.
  \<open>norm\<close> produces a \<open>NaN\<close> when the rectangle has no width and the pointer is at
  its left edge (0 / 0). The single-touch path sends the result of \<open>norm\<close> as it is;
  only the multi-touch handler of the main process applies \<open>to01\<close> afterwards.
\<close>

theorem clamp01_passes_NaN:
  "clamp01 NaN = NaN \<and> \<not> in01 (clamp01 NaN) \<and>
   norm flatRect (Fin 100) (Fin 50) = (NaN, NaN) \<and>
   \<not> in01 (fst (norm flatRect (Fin 100) (Fin 50))) \<and>
   in01 (clamp01 PosInf) \<and> in01 (clamp01 NegInf) \<and>
   in01 (to01 NaN) \<and> in01 (to01 PosInf) \<and> in01 (to01 NegInf)"
  by (simp add: clamp01_def in01_def norm_def flatRect_def to01_def isFinite_def js_gt_def)

section \<open>Properties of the multi-touch hook\<close>

lemma framePoints_ids: "map mt_id (framePoints ov act) = map fst act"
  by (simp add: framePoints_def case_prod_beta)

lemma frameOk_framePoints:
  assumes "distinct (map fst act)"
  shows "frameOk act (\<lambda>i. case map_of ov i of Some a \<Rightarrow> a | None \<Rightarrow> Move) (framePoints ov act)"
proof -
  have ids: "map mt_id (framePoints ov act) = map fst act" by (rule framePoints_ids)
  have "mt_id ` set (framePoints ov act) = fst ` set act"
    using arg_cong[OF ids, of set] by simp
  moreover have "\<forall>p \<in> set (framePoints ov act).
      map_of act (mt_id p) = Some (mt_x p, mt_y p) \<and>
      mt_action p = (case map_of ov (mt_id p) of Some a \<Rightarrow> a | None \<Rightarrow> Move)"
    using assms by (auto simp: framePoints_def)
  ultimately show ?thesis using assms unfolding frameOk_def ids by blast
qed

lemma sendFullFrame_nonempty:
  "active st \<noteq> [] \<Longrightarrow>
   sendFullFrame ov st = st\<lparr>sentMulti := sentMulti st @ [framePoints ov (active st)]\<rparr>"
  by (simp add: sendFullFrame_def Let_def framePoints_def)

lemma update_nonempty [simp]: "AList.update k v al \<noteq> []"
  by (cases al) auto

lemma update_fresh: "k \<notin> fst ` set al \<Longrightarrow> AList.update k v al = al @ [(k, v)]"
  by (induction al) auto

lemma update_snd_distinct:
  "distinct (map snd al) \<Longrightarrow> k \<notin> fst ` set al \<Longrightarrow> v \<notin> snd ` set al \<Longrightarrow>
   distinct (map snd (AList.update k v al))"
  by (simp add: update_fresh)

lemma update_snd_set:
  "k \<notin> fst ` set al \<Longrightarrow> snd ` set (AList.update k v al) = insert v (snd ` set al)"
  by (simp add: update_fresh)

lemma update_fst_set: "fst ` set (AList.update k v al) = insert k (fst ` set al)"
  using AList.dom_update[of k v al] by simp

lemma delete_set: "set (AList.delete k al) = {p \<in> set al. fst p \<noteq> k}"
  by (auto simp: AList.delete_eq)

lemma delete_snd_distinct: "distinct (map snd al) \<Longrightarrow> distinct (map snd (AList.delete k al))"
  by (simp add: AList.delete_eq distinct_map_filter)

lemma delete_fst_set: "fst ` set (AList.delete k al) = fst ` set al - {k}"
  by (auto simp: delete_set)

lemma delete_snd_set:
  assumes "distinct (map snd al)" "map_of al k = Some v" "distinct (map fst al)"
  shows "snd ` set (AList.delete k al) = snd ` set al - {v}"
proof -
  have mem: "(k, v) \<in> set al" using assms(2) by (rule map_of_SomeD)
  have inj: "inj_on snd (set al)" using assms(1) by (simp add: distinct_map)
  show ?thesis
  proof (rule set_eqI, rule iffI)
    fix s assume "s \<in> snd ` set (AList.delete k al)"
    then obtain p where p: "p \<in> set al" "fst p \<noteq> k" "s = snd p" by (auto simp: delete_set)
    have "s \<noteq> v"
    proof
      assume "s = v"
      hence "snd p = snd (k, v)" using p by simp
      hence "p = (k, v)" by (rule inj_onD[OF inj _ p(1) mem])
      thus False using p(2) by simp
    qed
    thus "s \<in> snd ` set al - {v}" using p by auto
  next
    fix s assume "s \<in> snd ` set al - {v}"
    then obtain p where p: "p \<in> set al" "s = snd p" "snd p \<noteq> v" by auto
    have "fst p \<noteq> k"
    proof
      assume "fst p = k"
      hence "(k, snd p) \<in> set al" using p(1) by (metis prod.collapse)
      hence "map_of al k = Some (snd p)" using assms(3) by (rule map_of_is_SomeI[rotated])
      thus False using assms(2) p(3) by simp
    qed
    thus "s \<in> snd ` set (AList.delete k al)" using p by (auto simp: delete_set)
  qed
qed

lemma map_of_in_snd: "map_of al k = Some v \<Longrightarrow> v \<in> snd ` set al"
  by (metis map_of_SomeD snd_conv image_eqI)

lemma map_of_None_fst: "map_of al k = None \<longleftrightarrow> k \<notin> fst ` set al"
  by (simp add: map_of_eq_None_iff)

lemma touch_inv_new: "touch_inv newTouch"
  by (simp add: touch_inv_def newTouch_def activeSlots_def slotsInUse_def)

lemma alloc_facts:
  assumes inv: "touch_inv st" and al: "alloc pid st = (s, s1)"
  shows "map_of (slotByPointerId s1) pid = Some s"
    and "\<And>q. q \<noteq> pid \<Longrightarrow> map_of (slotByPointerId s1) q = map_of (slotByPointerId st) q"
    and "slotsInUse s1 = insert s (slotsInUse st)"
    and "map_of (slotByPointerId st) pid = None \<Longrightarrow> s \<notin> slotsInUse st"
    and "\<And>s0. map_of (slotByPointerId st) pid = Some s0 \<Longrightarrow> s = s0 \<and> s1 = st"
    and "active s1 = active st" and "sentMulti s1 = sentMulti st"
    and "sentTouch s1 = sentTouch st" and "mouseDown s1 = mouseDown st"
    and "distinct (map fst (slotByPointerId s1))"
    and "distinct (map snd (slotByPointerId s1))"
    and "distinct (freeSlots s1)"
    and "set (freeSlots s1) \<inter> slotsInUse s1 = {}"
    and "\<forall>x \<in> set (freeSlots s1) \<union> slotsInUse s1. x < nextSlot s1"
proof -
  note I = inv[unfolded touch_inv_def]
  show "map_of (slotByPointerId s1) pid = Some s"
    using al by (auto simp: alloc_def AList.update_conv' split: option.splits if_splits)
  show "\<And>q. q \<noteq> pid \<Longrightarrow> map_of (slotByPointerId s1) q = map_of (slotByPointerId st) q"
    using al by (auto simp: alloc_def AList.update_conv' split: option.splits if_splits)
  show "\<And>s0. map_of (slotByPointerId st) pid = Some s0 \<Longrightarrow> s = s0 \<and> s1 = st"
    using al by (auto simp: alloc_def)
  show "active s1 = active st" "sentMulti s1 = sentMulti st"
       "sentTouch s1 = sentTouch st" "mouseDown s1 = mouseDown st"
    using al by (auto simp: alloc_def split: option.splits if_splits)
  show "distinct (map fst (slotByPointerId s1))"
    using al I by (auto simp: alloc_def AList.distinct_update split: option.splits if_splits)
  have fresh: "s \<notin> slotsInUse st" if n: "map_of (slotByPointerId st) pid = None"
  proof (cases "freeSlots st = []")
    case True
    hence "s = nextSlot st" using al n by (simp add: alloc_def)
    thus ?thesis using I by auto
  next
    case False
    hence "s = last (freeSlots st)" using al n by (simp add: alloc_def)
    hence "s \<in> set (freeSlots st)" using False by simp
    thus ?thesis using I by auto
  qed
  show "map_of (slotByPointerId st) pid = None \<Longrightarrow> s \<notin> slotsInUse st" by (rule fresh)
  show use: "slotsInUse s1 = insert s (slotsInUse st)"
  proof (cases "map_of (slotByPointerId st) pid")
    case (Some s0)
    hence "s = s0" "s1 = st" using al by (auto simp: alloc_def)
    thus ?thesis using Some by (auto simp: slotsInUse_def dest: map_of_in_snd)
  next
    case None
    hence k: "pid \<notin> fst ` set (slotByPointerId st)" by (simp add: map_of_None_fst)
    have "slotByPointerId s1 = AList.update pid s (slotByPointerId st)"
      using al None by (auto simp: alloc_def split: if_splits)
    thus ?thesis using update_snd_set[OF k] by (simp add: slotsInUse_def)
  qed
  show "distinct (map snd (slotByPointerId s1))"
  proof (cases "map_of (slotByPointerId st) pid")
    case (Some s0)
    hence "s1 = st" using al by (auto simp: alloc_def)
    thus ?thesis using I by simp
  next
    case None
    hence k: "pid \<notin> fst ` set (slotByPointerId st)" by (simp add: map_of_None_fst)
    have "slotByPointerId s1 = AList.update pid s (slotByPointerId st)"
      using al None by (auto simp: alloc_def split: if_splits)
    thus ?thesis using update_snd_distinct[OF _ k, of s] I fresh[OF None]
      by (simp add: slotsInUse_def)
  qed
  show "distinct (freeSlots s1)"
    using al I by (auto simp: alloc_def distinct_butlast split: option.splits if_splits)
  show "set (freeSlots s1) \<inter> slotsInUse s1 = {}"
  proof (cases "map_of (slotByPointerId st) pid")
    case (Some s0)
    hence "s1 = st" using al by (auto simp: alloc_def)
    thus ?thesis using I by simp
  next
    case None
    show ?thesis
    proof (cases "freeSlots st = []")
      case True
      hence "freeSlots s1 = []" using al None by (auto simp: alloc_def)
      thus ?thesis by simp
    next
      case False
      hence f: "freeSlots s1 = butlast (freeSlots st)" "s = last (freeSlots st)"
        using al None by (auto simp: alloc_def)
      have "freeSlots st = butlast (freeSlots st) @ [s]" using False f by simp
      hence "s \<notin> set (butlast (freeSlots st))" using I
        by (metis distinct_append distinct.simps(2) disjoint_iff list.set_intros(1) not_distinct_conv_prefix)
      moreover have "set (butlast (freeSlots st)) \<subseteq> set (freeSlots st)"
        by (auto dest: in_set_butlastD)
      ultimately show ?thesis using I f use by auto
    qed
  qed
  show "\<forall>x \<in> set (freeSlots s1) \<union> slotsInUse s1. x < nextSlot s1"
  proof (cases "map_of (slotByPointerId st) pid")
    case (Some s0)
    hence "s1 = st" using al by (auto simp: alloc_def)
    thus ?thesis using I by simp
  next
    case None
    show ?thesis
    proof (cases "freeSlots st = []")
      case True
      hence "freeSlots s1 = []" "s = nextSlot st" "nextSlot s1 = nextSlot st + 1"
        using al None by (auto simp: alloc_def)
      moreover have "\<forall>x \<in> slotsInUse st. x < nextSlot st" using I by blast
      ultimately show ?thesis using use by (auto simp: less_Suc_eq)
    next
      case False
      hence f: "freeSlots s1 = butlast (freeSlots st)" "s = last (freeSlots st)"
         "nextSlot s1 = nextSlot st"
        using al None by (auto simp: alloc_def)
      have "s \<in> set (freeSlots st)" using False f by simp
      moreover have "set (butlast (freeSlots st)) \<subseteq> set (freeSlots st)"
        by (auto dest: in_set_butlastD)
      ultimately show ?thesis using I f use by auto
    qed
  qed
qed

lemma down_eq:
  assumes "pointerType e \<noteq> ''mouse''" "alloc (pointerId e) st = (s, s1)"
  shows "onPointerDown st e =
           s1\<lparr>active := AList.update s (norm (currentTarget e) (clientX e) (clientY e)) (active s1),
              sentMulti := sentMulti s1 @
                [framePoints [(s, Down)]
                   (AList.update s (norm (currentTarget e) (clientX e) (clientY e)) (active s1))]\<rparr>"
  using assms by (simp add: onPointerDown_def case_prod_beta Let_def sendFullFrame_nonempty)

lemma move_eq:
  assumes "pointerType e \<noteq> ''mouse''" "map_of (slotByPointerId st) (pointerId e) = Some s"
  shows "onPointerMove st e =
           st\<lparr>active := AList.update s (norm (currentTarget e) (clientX e) (clientY e)) (active st),
              sentMulti := sentMulti st @
                [framePoints []
                   (AList.update s (norm (currentTarget e) (clientX e) (clientY e)) (active st))]\<rparr>"
  using assms by (simp add: onPointerMove_def case_prod_beta Let_def sendFullFrame_nonempty)

lemma finish_eq:
  assumes "pointerType e \<noteq> ''mouse''" "map_of (slotByPointerId st) (pointerId e) = Some s"
  shows "finishPointer st e =
           st\<lparr>active := AList.delete s
                 (AList.update s (norm (currentTarget e) (clientX e) (clientY e)) (active st)),
              sentMulti := sentMulti st @
                [framePoints [(s, Up)]
                   (AList.update s (norm (currentTarget e) (clientX e) (clientY e)) (active st))],
              slotByPointerId := AList.delete (pointerId e) (slotByPointerId st),
              freeSlots := freeSlots st @ [s]\<rparr>"
  using assms
  by (simp add: finishPointer_def case_prod_beta Let_def sendFullFrame_nonempty free_def)

lemma unmapped_eq:
  assumes "pointerType e \<noteq> ''mouse''" "map_of (slotByPointerId st) (pointerId e) = None"
  shows "onPointerMove st e = st" "finishPointer st e = st"
  using assms by (simp_all add: onPointerMove_def finishPointer_def case_prod_beta)

lemma mouse_eq:
  assumes "pointerType e = ''mouse''"
  shows "slotByPointerId (onPointerDown st e) = slotByPointerId st"
        "active (onPointerDown st e) = active st"
        "freeSlots (onPointerDown st e) = freeSlots st"
        "nextSlot (onPointerDown st e) = nextSlot st"
        "sentMulti (onPointerDown st e) = sentMulti st"
        "slotByPointerId (onPointerMove st e) = slotByPointerId st"
        "active (onPointerMove st e) = active st"
        "freeSlots (onPointerMove st e) = freeSlots st"
        "nextSlot (onPointerMove st e) = nextSlot st"
        "sentMulti (onPointerMove st e) = sentMulti st"
        "slotByPointerId (finishPointer st e) = slotByPointerId st"
        "active (finishPointer st e) = active st"
        "freeSlots (finishPointer st e) = freeSlots st"
        "nextSlot (finishPointer st e) = nextSlot st"
        "sentMulti (finishPointer st e) = sentMulti st"
  using assms
  by (simp_all add: onPointerDown_def onPointerMove_def finishPointer_def case_prod_beta
        sendTouch_def)

lemma touch_inv_cong:
  assumes "touch_inv st" "slotByPointerId st' = slotByPointerId st" "active st' = active st"
    "freeSlots st' = freeSlots st" "nextSlot st' = nextSlot st"
  shows "touch_inv st'"
  using assms by (simp add: touch_inv_def activeSlots_def slotsInUse_def)

lemma touch_inv_down:
  assumes inv: "touch_inv st"
  shows "touch_inv (onPointerDown st e)"
proof (cases "pointerType e = ''mouse''")
  case True
  show ?thesis by (rule touch_inv_cong[OF inv mouse_eq(1-4)[OF True]])
next
  case False
  obtain s s1 where al: "alloc (pointerId e) st = (s, s1)" by (cases "alloc (pointerId e) st")
  note F = alloc_facts[OF inv al]
  note I = inv[unfolded touch_inv_def]
  have "activeSlots st = slotsInUse st" using I by simp
  thus ?thesis
    unfolding down_eq[OF False al] touch_inv_def
    using F(10-14) F(3) F(6) I
    by (simp add: activeSlots_def slotsInUse_def update_fst_set AList.distinct_update)
qed

lemma touch_inv_move:
  assumes inv: "touch_inv st"
  shows "touch_inv (onPointerMove st e)"
proof (cases "pointerType e = ''mouse''")
  case True
  show ?thesis by (rule touch_inv_cong[OF inv mouse_eq(6-9)[OF True]])
next
  case False
  note I = inv[unfolded touch_inv_def]
  show ?thesis
  proof (cases "map_of (slotByPointerId st) (pointerId e)")
    case None
    thus ?thesis using unmapped_eq(1)[OF False None] inv by simp
  next
    case (Some s)
    hence "s \<in> slotsInUse st" by (auto simp: slotsInUse_def dest: map_of_in_snd)
    hence "s \<in> fst ` set (active st)" using I by (simp add: activeSlots_def)
    hence "insert s (fst ` set (active st)) = fst ` set (active st)" by auto
    thus ?thesis
      unfolding move_eq[OF False Some] touch_inv_def using I
      by (simp add: activeSlots_def slotsInUse_def update_fst_set AList.distinct_update)
  qed
qed

lemma touch_inv_finish:
  assumes inv: "touch_inv st"
  shows "touch_inv (finishPointer st e)"
proof (cases "pointerType e = ''mouse''")
  case True
  show ?thesis by (rule touch_inv_cong[OF inv mouse_eq(11-14)[OF True]])
next
  case False
  note I = inv[unfolded touch_inv_def]
  show ?thesis
  proof (cases "map_of (slotByPointerId st) (pointerId e)")
    case None
    thus ?thesis using unmapped_eq(2)[OF False None] inv by simp
  next
    case (Some s)
    have d: "snd ` set (AList.delete (pointerId e) (slotByPointerId st)) = slotsInUse st - {s}"
      using delete_snd_set[OF _ Some] I by (simp add: slotsInUse_def)
    have u: "s \<in> slotsInUse st" using Some by (auto simp: slotsInUse_def dest: map_of_in_snd)
    hence nf: "s \<notin> set (freeSlots st)" using I by auto
    have a: "fst ` set (active st) = slotsInUse st" using I by (simp add: activeSlots_def)
    have b: "\<forall>x \<in> set (freeSlots st) \<union> slotsInUse st. x < nextSlot st" using I by blast
    let ?st' = "finishPointer st e"
    have f: "slotByPointerId ?st' = AList.delete (pointerId e) (slotByPointerId st)"
      "active ?st' = AList.delete s
         (AList.update s (norm (currentTarget e) (clientX e) (clientY e)) (active st))"
      "freeSlots ?st' = freeSlots st @ [s]" "nextSlot ?st' = nextSlot st"
      by (simp_all add: finish_eq[OF False Some])
    have use: "slotsInUse ?st' = slotsInUse st - {s}" using d f(1) by (simp add: slotsInUse_def)
    have act: "activeSlots ?st' = slotsInUse st - {s}"
      using a f(2) by (simp add: activeSlots_def delete_fst_set update_fst_set)
    have g1: "distinct (map fst (slotByPointerId ?st'))"
      using I f(1) by (simp add: AList.distinct_delete)
    have g2: "distinct (map snd (slotByPointerId ?st'))"
      using I f(1) by (simp add: delete_snd_distinct)
    have g3: "distinct (map fst (active ?st'))"
      using I f(2) by (simp add: AList.distinct_delete AList.distinct_update)
    have g4: "distinct (freeSlots ?st')" using I nf f(3) by simp
    have g5: "set (freeSlots ?st') \<inter> slotsInUse ?st' = {}"
    proof -
      have "set (freeSlots st) \<inter> slotsInUse st = {}" using I by simp
      thus ?thesis unfolding use f(3) by auto
    qed
    have g6: "\<forall>x \<in> set (freeSlots ?st') \<union> slotsInUse ?st'. x < nextSlot ?st'"
      unfolding use f(3) f(4) using b u by auto
    show ?thesis unfolding touch_inv_def using g1 g2 g3 g4 g5 g6 act use by simp
  qed
qed

lemma touch_inv_handle: "touch_inv st \<Longrightarrow> touch_inv (handle st ev)"
  by (cases ev) (simp_all add: touch_inv_down touch_inv_move touch_inv_finish)

lemma touch_inv_handleAll: "touch_inv st \<Longrightarrow> touch_inv (handleAll st evs)"
  unfolding handleAll_def by (induction evs arbitrary: st) (simp_all add: touch_inv_handle)

lemma frameOk_cong:
  assumes "frameOk act f fr" "\<And>i. i \<in> fst ` set act \<Longrightarrow> f i = g i"
  shows "frameOk act g fr"
  using assms unfolding frameOk_def by (metis image_eqI)

lemma frame_down:
  assumes "distinct (map fst act)"
  shows "frameOk act (\<lambda>i. if i = s then Down else Move) (framePoints [(s, Down)] act)"
  by (rule frameOk_cong[OF frameOk_framePoints[OF assms]]) simp

lemma frame_up:
  assumes "distinct (map fst act)"
  shows "frameOk act (\<lambda>i. if i = s then Up else Move) (framePoints [(s, Up)] act)"
  by (rule frameOk_cong[OF frameOk_framePoints[OF assms]]) simp

lemma frame_move:
  assumes "distinct (map fst act)"
  shows "frameOk act (\<lambda>i. Move) (framePoints [] act)"
  by (rule frameOk_cong[OF frameOk_framePoints[OF assms]]) simp

lemma down_kept:
  assumes inv: "touch_inv st" and F: "pointerType e \<noteq> ''mouse''"
    and m: "map_of (slotByPointerId st) q = Some s"
  shows "map_of (slotByPointerId (onPointerDown st e)) q = Some s"
proof -
  obtain t s1 where al: "alloc (pointerId e) st = (t, s1)" by (cases "alloc (pointerId e) st")
  note A = alloc_facts[OF inv al]
  have "map_of (slotByPointerId s1) q = Some s"
  proof (cases "q = pointerId e")
    case True
    thus ?thesis using A(5)[of s] m by simp
  next
    case False
    thus ?thesis using A(2) m by simp
  qed
  thus ?thesis by (simp add: down_eq[OF F al])
qed

lemma move_kept: "slotByPointerId (onPointerMove st e) = slotByPointerId st"
  by (simp add: onPointerMove_def case_prod_beta sendTouch_def sendFullFrame_def Let_def
        split: option.splits)

lemma finish_kept:
  assumes inv: "touch_inv st" and F: "pointerType e \<noteq> ''mouse''"
    and m: "map_of (slotByPointerId st) q = Some s"
  shows "map_of (slotByPointerId (finishPointer st e)) q = Some s \<or>
         (q = pointerId e \<and> map_of (slotByPointerId (finishPointer st e)) q = None \<and>
          s \<notin> slotsInUse (finishPointer st e))"
proof (cases "map_of (slotByPointerId st) (pointerId e)")
  case None
  thus ?thesis using m unmapped_eq(2)[OF F None] by simp
next
  case (Some t)
  note I = inv[unfolded touch_inv_def]
  have d: "snd ` set (AList.delete (pointerId e) (slotByPointerId st)) = slotsInUse st - {t}"
    using delete_snd_set[OF _ Some] I by (simp add: slotsInUse_def)
  show ?thesis
  proof (cases "q = pointerId e")
    case True
    hence "t = s" using m Some by simp
    thus ?thesis using True d
      by (simp add: finish_eq[OF F Some] AList.delete_conv' slotsInUse_def)
  next
    case False
    thus ?thesis using m by (simp add: finish_eq[OF F Some] AList.delete_conv')
  qed
qed

lemma slots_kept:
  assumes inv: "touch_inv st" and m: "map_of (slotByPointerId st) q = Some s"
  shows "map_of (slotByPointerId (handle st ev)) q = Some s \<or>
         (pointerType (eventOf ev) \<noteq> ''mouse'' \<and> finishes ev \<and> q = pointerId (eventOf ev) \<and>
          map_of (slotByPointerId (handle st ev)) q = None \<and> s \<notin> slotsInUse (handle st ev))"
proof (cases "pointerType (eventOf ev) = ''mouse''")
  case True
  thus ?thesis using m mouse_eq[OF True, of st] by (cases ev) simp_all
next
  case False
  show ?thesis
  proof (cases ev)
    case (PointerDown e)
    thus ?thesis using False down_kept[OF inv _ m, of e] by simp
  next
    case (PointerMove e)
    thus ?thesis using m by (simp add: move_kept)
  next
    case (PointerUp e)
    thus ?thesis using False finish_kept[OF inv _ m, of e] by auto
  next
    case (PointerCancel e)
    thus ?thesis using False finish_kept[OF inv _ m, of e] by auto
  next
    case (LostPointerCapture e)
    thus ?thesis using False finish_kept[OF inv _ m, of e] by auto
  qed
qed

lemma down_new:
  assumes inv: "touch_inv st" and F: "pointerType e \<noteq> ''mouse''"
    and m: "map_of (slotByPointerId (onPointerDown st e)) q = Some s"
  shows "map_of (slotByPointerId st) q = Some s \<or>
         (q = pointerId e \<and> map_of (slotByPointerId st) q = None \<and> s \<notin> slotsInUse st)"
proof -
  obtain t s1 where al: "alloc (pointerId e) st = (t, s1)" by (cases "alloc (pointerId e) st")
  note A = alloc_facts[OF inv al]
  have m1: "map_of (slotByPointerId s1) q = Some s" using m by (simp add: down_eq[OF F al])
  show ?thesis
  proof (cases "q = pointerId e")
    case False
    thus ?thesis using A(2) m1 by simp
  next
    case True
    hence ts: "t = s" using A(1) m1 by simp
    show ?thesis
    proof (cases "map_of (slotByPointerId st) (pointerId e)")
      case None
      thus ?thesis using True A(4) ts by simp
    next
      case (Some s0)
      thus ?thesis using True A(5)[OF Some] ts by simp
    qed
  qed
qed

lemma finish_new:
  assumes m: "map_of (slotByPointerId (finishPointer st e)) q = Some s"
  shows "map_of (slotByPointerId st) q = Some s"
proof (cases "pointerType e = ''mouse''")
  case True
  thus ?thesis using m mouse_eq(11)[OF True, of st] by simp
next
  case False
  show ?thesis
  proof (cases "map_of (slotByPointerId st) (pointerId e)")
    case None
    thus ?thesis using m unmapped_eq(2)[OF False None] by simp
  next
    case (Some t)
    thus ?thesis using m
      by (simp add: finish_eq[OF False Some] AList.delete_conv' split: if_splits)
  qed
qed

lemma slots_new:
  assumes inv: "touch_inv st" and m: "map_of (slotByPointerId (handle st ev)) q = Some s"
  shows "map_of (slotByPointerId st) q = Some s \<or>
         (pointerType (eventOf ev) \<noteq> ''mouse'' \<and> ev = PointerDown (eventOf ev) \<and>
          q = pointerId (eventOf ev) \<and> map_of (slotByPointerId st) q = None \<and>
          s \<notin> slotsInUse st)"
proof (cases ev)
  case (PointerDown e)
  show ?thesis
  proof (cases "pointerType e = ''mouse''")
    case True
    thus ?thesis using m PointerDown mouse_eq(1)[OF True, of st] by simp
  next
    case False
    thus ?thesis using PointerDown m down_new[OF inv False, of q s] by auto
  qed
next
  case (PointerMove e)
  thus ?thesis using m by (simp add: move_kept)
next
  case (PointerUp e)
  thus ?thesis using m finish_new[of st e q s] by simp
next
  case (PointerCancel e)
  thus ?thesis using m finish_new[of st e q s] by simp
next
  case (LostPointerCapture e)
  thus ?thesis using m finish_new[of st e q s] by simp
qed

lemma down_frame:
  assumes inv: "touch_inv st" and F: "pointerType e \<noteq> ''mouse''"
  shows "case map_of (slotByPointerId (onPointerDown st e)) (pointerId e) of
           None \<Rightarrow> False
         | Some s \<Rightarrow>
             sentMulti (onPointerDown st e) = sentMulti st @ [last (sentMulti (onPointerDown st e))] \<and>
             frameOk (active (onPointerDown st e)) (\<lambda>i. if i = s then Down else Move)
               (last (sentMulti (onPointerDown st e))) \<and>
             map_of (active (onPointerDown st e)) s =
               Some (norm (currentTarget e) (clientX e) (clientY e)) \<and>
             (\<forall>i. i \<noteq> s \<longrightarrow> map_of (active (onPointerDown st e)) i = map_of (active st) i)"
proof -
  obtain t s1 where al: "alloc (pointerId e) st = (t, s1)" by (cases "alloc (pointerId e) st")
  note A = alloc_facts[OF inv al]
  note I = inv[unfolded touch_inv_def]
  have d: "distinct (map fst (AList.update t (norm (currentTarget e) (clientX e) (clientY e))
             (active st)))"
    using I by (simp add: AList.distinct_update)
  show ?thesis
    using A(1) A(6) A(7) frame_down[OF d, of t]
    by (simp add: down_eq[OF F al] AList.update_conv')
qed

lemma move_frame:
  assumes inv: "touch_inv st" and F: "pointerType e \<noteq> ''mouse''"
    and m: "map_of (slotByPointerId st) (pointerId e) = Some s"
  shows "sentMulti (onPointerMove st e) = sentMulti st @ [last (sentMulti (onPointerMove st e))] \<and>
         frameOk (active (onPointerMove st e)) (\<lambda>i. Move) (last (sentMulti (onPointerMove st e))) \<and>
         map_of (active (onPointerMove st e)) s =
           Some (norm (currentTarget e) (clientX e) (clientY e)) \<and>
         (\<forall>i. i \<noteq> s \<longrightarrow> map_of (active (onPointerMove st e)) i = map_of (active st) i)"
proof -
  note I = inv[unfolded touch_inv_def]
  have d: "distinct (map fst (AList.update s (norm (currentTarget e) (clientX e) (clientY e))
             (active st)))"
    using I by (simp add: AList.distinct_update)
  show ?thesis using frame_move[OF d]
    by (simp add: move_eq[OF F m] AList.update_conv')
qed

lemma finish_frame:
  assumes inv: "touch_inv st" and F: "pointerType e \<noteq> ''mouse''"
    and m: "map_of (slotByPointerId st) (pointerId e) = Some s"
  shows "sentMulti (finishPointer st e) = sentMulti st @ [last (sentMulti (finishPointer st e))] \<and>
         frameOk (AList.update s (norm (currentTarget e) (clientX e) (clientY e)) (active st))
           (\<lambda>i. if i = s then Up else Move) (last (sentMulti (finishPointer st e))) \<and>
         map_of (active (finishPointer st e)) = (map_of (active st))(s := None)"
proof -
  note I = inv[unfolded touch_inv_def]
  have d: "distinct (map fst (AList.update s (norm (currentTarget e) (clientX e) (clientY e))
             (active st)))"
    using I by (simp add: AList.distinct_update)
  show ?thesis using frame_up[OF d, of s]
    by (simp add: finish_eq[OF F m] AList.update_conv' AList.delete_conv')
qed

text \<open>
  Claim C7. Let \<open>st\<close> be the state of the hook after any sequence of pointer events and
  \<open>st'\<close> the state after one more event \<open>ev\<close> of pointer \<open>pid\<close>. Then the slots of the
  active pointers are the slots allocated and not released, and distinct pointers have
  distinct slots. A pointer keeps its slot unless the event is its own up, cancel or lost
  capture, after which the slot is no longer in use. A slot is given to a pointer only by
  that pointer's down event, and it was not in use then. A down event of a touch pointer
  sends one frame that lists every active pointer once at its current position, the
  pointer that went down with \<open>Down\<close> and the others with \<open>Move\<close>; a move of a pointer
  that is down sends such a frame with \<open>Move\<close> throughout; an up, cancel or lost capture
  of a pointer that is down sends one with \<open>Up\<close> for that pointer, at the position of the
  event, and \<open>Move\<close> for the others, and then drops the pointer. A move or an end of a
  pointer that is not down changes nothing, and an event of a mouse, which goes the
  single-touch way, leaves the frames, the positions and the slots alone.
\<close>

theorem multi_touch_snapshots:
  "let st = handleAll newTouch evs; st' = handle st ev; e = eventOf ev;
       pid = pointerId e; pos = norm (currentTarget e) (clientX e) (clientY e);
       touch = (pointerType e \<noteq> ''mouse'')
   in activeSlots st' = slotsInUse st' \<and>
      distinct (map snd (slotByPointerId st')) \<and>
      distinct (map fst (active st')) \<and>
      (\<forall>q s. map_of (slotByPointerId st) q = Some s \<longrightarrow>
         map_of (slotByPointerId st') q = Some s \<or>
         (touch \<and> finishes ev \<and> q = pid \<and> map_of (slotByPointerId st') q = None \<and>
          s \<notin> slotsInUse st')) \<and>
      (\<forall>q s. map_of (slotByPointerId st') q = Some s \<longrightarrow>
         map_of (slotByPointerId st) q = Some s \<or>
         (touch \<and> ev = PointerDown e \<and> q = pid \<and> map_of (slotByPointerId st) q = None \<and>
          s \<notin> slotsInUse st)) \<and>
      (touch \<and> ev = PointerDown e \<longrightarrow>
         (case map_of (slotByPointerId st') pid of
            None \<Rightarrow> False
          | Some s \<Rightarrow>
              sentMulti st' = sentMulti st @ [last (sentMulti st')] \<and>
              frameOk (active st') (\<lambda>i. if i = s then Down else Move) (last (sentMulti st')) \<and>
              map_of (active st') s = Some pos \<and>
              (\<forall>i. i \<noteq> s \<longrightarrow> map_of (active st') i = map_of (active st) i))) \<and>
      (touch \<and> ev = PointerMove e \<longrightarrow>
         (case map_of (slotByPointerId st) pid of
            None \<Rightarrow> st' = st
          | Some s \<Rightarrow>
              sentMulti st' = sentMulti st @ [last (sentMulti st')] \<and>
              frameOk (active st') (\<lambda>i. Move) (last (sentMulti st')) \<and>
              map_of (active st') s = Some pos \<and>
              (\<forall>i. i \<noteq> s \<longrightarrow> map_of (active st') i = map_of (active st) i))) \<and>
      (touch \<and> finishes ev \<longrightarrow>
         (case map_of (slotByPointerId st) pid of
            None \<Rightarrow> st' = st
          | Some s \<Rightarrow>
              sentMulti st' = sentMulti st @ [last (sentMulti st')] \<and>
              frameOk (AList.update s pos (active st)) (\<lambda>i. if i = s then Up else Move)
                (last (sentMulti st')) \<and>
              map_of (active st') = (map_of (active st))(s := None))) \<and>
      (\<not> touch \<longrightarrow>
         sentMulti st' = sentMulti st \<and> active st' = active st \<and>
         slotByPointerId st' = slotByPointerId st)"
proof -
  define st where "st = handleAll newTouch evs"
  define e where "e = eventOf ev"
  have inv: "touch_inv st" unfolding st_def by (rule touch_inv_handleAll[OF touch_inv_new])
  have inv': "touch_inv (handle st ev)" by (rule touch_inv_handle[OF inv])
  note I' = inv'[unfolded touch_inv_def]
  have c1: "activeSlots (handle st ev) = slotsInUse (handle st ev)" using I' by simp
  have c2: "distinct (map snd (slotByPointerId (handle st ev)))" using I' by simp
  have c3: "distinct (map fst (active (handle st ev)))" using I' by simp
  have c4: "\<forall>q s. map_of (slotByPointerId st) q = Some s \<longrightarrow>
         map_of (slotByPointerId (handle st ev)) q = Some s \<or>
         (pointerType e \<noteq> ''mouse'' \<and> finishes ev \<and> q = pointerId e \<and>
          map_of (slotByPointerId (handle st ev)) q = None \<and> s \<notin> slotsInUse (handle st ev))"
    unfolding e_def using slots_kept[OF inv] by blast
  have c5: "\<forall>q s. map_of (slotByPointerId (handle st ev)) q = Some s \<longrightarrow>
         map_of (slotByPointerId st) q = Some s \<or>
         (pointerType e \<noteq> ''mouse'' \<and> ev = PointerDown e \<and> q = pointerId e \<and>
          map_of (slotByPointerId st) q = None \<and> s \<notin> slotsInUse st)"
    unfolding e_def using slots_new[OF inv] by blast
  have c6: "pointerType e \<noteq> ''mouse'' \<and> ev = PointerDown e \<longrightarrow>
         (case map_of (slotByPointerId (handle st ev)) (pointerId e) of
            None \<Rightarrow> False
          | Some s \<Rightarrow>
              sentMulti (handle st ev) = sentMulti st @ [last (sentMulti (handle st ev))] \<and>
              frameOk (active (handle st ev)) (\<lambda>i. if i = s then Down else Move)
                (last (sentMulti (handle st ev))) \<and>
              map_of (active (handle st ev)) s =
                Some (norm (currentTarget e) (clientX e) (clientY e)) \<and>
              (\<forall>i. i \<noteq> s \<longrightarrow> map_of (active (handle st ev)) i = map_of (active st) i))"
  proof
    assume a: "pointerType e \<noteq> ''mouse'' \<and> ev = PointerDown e"
    hence h: "handle st ev = onPointerDown st e" by (metis handle.simps(1))
    show "case map_of (slotByPointerId (handle st ev)) (pointerId e) of
            None \<Rightarrow> False
          | Some s \<Rightarrow>
              sentMulti (handle st ev) = sentMulti st @ [last (sentMulti (handle st ev))] \<and>
              frameOk (active (handle st ev)) (\<lambda>i. if i = s then Down else Move)
                (last (sentMulti (handle st ev))) \<and>
              map_of (active (handle st ev)) s =
                Some (norm (currentTarget e) (clientX e) (clientY e)) \<and>
              (\<forall>i. i \<noteq> s \<longrightarrow> map_of (active (handle st ev)) i = map_of (active st) i)"
      unfolding h using a by (intro down_frame[OF inv]) simp
  qed
  have c7: "pointerType e \<noteq> ''mouse'' \<and> ev = PointerMove e \<longrightarrow>
         (case map_of (slotByPointerId st) (pointerId e) of
            None \<Rightarrow> handle st ev = st
          | Some s \<Rightarrow>
              sentMulti (handle st ev) = sentMulti st @ [last (sentMulti (handle st ev))] \<and>
              frameOk (active (handle st ev)) (\<lambda>i. Move) (last (sentMulti (handle st ev))) \<and>
              map_of (active (handle st ev)) s =
                Some (norm (currentTarget e) (clientX e) (clientY e)) \<and>
              (\<forall>i. i \<noteq> s \<longrightarrow> map_of (active (handle st ev)) i = map_of (active st) i))"
  proof
    assume a: "pointerType e \<noteq> ''mouse'' \<and> ev = PointerMove e"
    hence h: "handle st ev = onPointerMove st e" by (metis handle.simps(2))
    from a have F: "pointerType e \<noteq> ''mouse''" by simp
    show "case map_of (slotByPointerId st) (pointerId e) of
            None \<Rightarrow> handle st ev = st
          | Some s \<Rightarrow>
              sentMulti (handle st ev) = sentMulti st @ [last (sentMulti (handle st ev))] \<and>
              frameOk (active (handle st ev)) (\<lambda>i. Move) (last (sentMulti (handle st ev))) \<and>
              map_of (active (handle st ev)) s =
                Some (norm (currentTarget e) (clientX e) (clientY e)) \<and>
              (\<forall>i. i \<noteq> s \<longrightarrow> map_of (active (handle st ev)) i = map_of (active st) i)"
    proof (cases "map_of (slotByPointerId st) (pointerId e)")
      case None
      thus ?thesis unfolding h using unmapped_eq(1)[OF F None] by simp
    next
      case (Some s)
      thus ?thesis unfolding h using move_frame[OF inv F Some] by simp
    qed
  qed
  have c8: "pointerType e \<noteq> ''mouse'' \<and> finishes ev \<longrightarrow>
         (case map_of (slotByPointerId st) (pointerId e) of
            None \<Rightarrow> handle st ev = st
          | Some s \<Rightarrow>
              sentMulti (handle st ev) = sentMulti st @ [last (sentMulti (handle st ev))] \<and>
              frameOk (AList.update s (norm (currentTarget e) (clientX e) (clientY e)) (active st))
                (\<lambda>i. if i = s then Up else Move) (last (sentMulti (handle st ev))) \<and>
              map_of (active (handle st ev)) = (map_of (active st))(s := None))"
  proof
    assume a: "pointerType e \<noteq> ''mouse'' \<and> finishes ev"
    hence h: "handle st ev = finishPointer st e" unfolding e_def by (cases ev) simp_all
    from a have F: "pointerType e \<noteq> ''mouse''" by simp
    show "case map_of (slotByPointerId st) (pointerId e) of
            None \<Rightarrow> handle st ev = st
          | Some s \<Rightarrow>
              sentMulti (handle st ev) = sentMulti st @ [last (sentMulti (handle st ev))] \<and>
              frameOk (AList.update s (norm (currentTarget e) (clientX e) (clientY e)) (active st))
                (\<lambda>i. if i = s then Up else Move) (last (sentMulti (handle st ev))) \<and>
              map_of (active (handle st ev)) = (map_of (active st))(s := None)"
    proof (cases "map_of (slotByPointerId st) (pointerId e)")
      case None
      thus ?thesis unfolding h using unmapped_eq(2)[OF F None] by simp
    next
      case (Some s)
      thus ?thesis unfolding h using finish_frame[OF inv F Some] by simp
    qed
  qed
  have c9: "\<not> pointerType e \<noteq> ''mouse'' \<longrightarrow>
         sentMulti (handle st ev) = sentMulti st \<and> active (handle st ev) = active st \<and>
         slotByPointerId (handle st ev) = slotByPointerId st"
  proof
    assume "\<not> pointerType e \<noteq> ''mouse''"
    hence T: "pointerType (eventOf ev) = ''mouse''" by (simp add: e_def)
    show "sentMulti (handle st ev) = sentMulti st \<and> active (handle st ev) = active st \<and>
         slotByPointerId (handle st ev) = slotByPointerId st"
      using T mouse_eq[of _ st] by (cases ev) simp_all
  qed
  show ?thesis
    unfolding Let_def st_def[symmetric] e_def[symmetric]
    by (intro conjI) (rule c1 c2 c3 c4 c5 c6 c7 c8 c9)+
qed

lemma demo_touches_state:
  "handleAll newTouch demo_touches =
     \<lparr>slotByPointerId = [(2, 1)], active = [(1, (Fin (1/2), Fin (1/2)))], freeSlots = [0],
      nextSlot = 2, mouseDown = False, sentTouch = [],
      sentMulti =
        [[\<lparr>mt_id = 0, mt_x = Fin (1/10), mt_y = Fin (1/5), mt_action = Down\<rparr>],
         [\<lparr>mt_id = 0, mt_x = Fin (1/10), mt_y = Fin (1/5), mt_action = Move\<rparr>,
          \<lparr>mt_id = 1, mt_x = Fin (1/2), mt_y = Fin (1/2), mt_action = Down\<rparr>],
         [\<lparr>mt_id = 0, mt_x = Fin (3/10), mt_y = Fin (2/5), mt_action = Move\<rparr>,
          \<lparr>mt_id = 1, mt_x = Fin (1/2), mt_y = Fin (1/2), mt_action = Move\<rparr>],
         [\<lparr>mt_id = 0, mt_x = Fin (3/10), mt_y = Fin (2/5), mt_action = Up\<rparr>,
          \<lparr>mt_id = 1, mt_x = Fin (1/2), mt_y = Fin (1/2), mt_action = Move\<rparr>]]\<rparr>"
  by (simp add: handleAll_def demo_touches_def newTouch_def finger_def onPointerDown_def
        onPointerMove_def finishPointer_def alloc_def free_def sendFullFrame_def
        framePoints_def norm_def clamp01_def js_gt_def Let_def)

text \<open>The statement of claim C7 at the third finger's down event, which is given the
  slot 0 that the first finger released.\<close>

theorem multi_touch_snapshots_witness:
  "map_of (slotByPointerId (handle (handleAll newTouch demo_touches) demo_down)) 3 = Some 0 \<and>
   map_of (slotByPointerId (handle (handleAll newTouch demo_touches) demo_down)) 2 = Some 1 \<and>
   slotsInUse (handleAll newTouch demo_touches) = {1} \<and>
   activeSlots (handle (handleAll newTouch demo_touches) demo_down) = {0, 1} \<and>
   slotsInUse (handle (handleAll newTouch demo_touches) demo_down) = {0, 1} \<and>
   sentMulti (handle (handleAll newTouch demo_touches) demo_down) =
     sentMulti (handleAll newTouch demo_touches) @
       [[\<lparr>mt_id = 1, mt_x = Fin (1/2), mt_y = Fin (1/2), mt_action = Move\<rparr>,
         \<lparr>mt_id = 0, mt_x = Fin (4/5), mt_y = Fin (9/10), mt_action = Down\<rparr>]]"
  using multi_touch_snapshots[of demo_touches demo_down]
  by (simp add: demo_touches_state demo_down_def finger_def onPointerDown_def alloc_def
        sendFullFrame_def framePoints_def norm_def clamp01_def js_gt_def Let_def
        slotsInUse_def activeSlots_def insert_commute)


end
